(* ===== verification/Kernel_Prelude.thy ===== *)
theory Kernel_Prelude
  imports Main "HOL-Library.Word"
begin

unbundle bit_operations_syntax

text \<open>
  Shared vocabulary of the development: the fixed-width integer types of the C sources, the
  error numbers of \<^verbatim>\<open>include/errno.h\<close> that the modelled functions return, the page size, and the
  lemmas on lists, sets and words that several components use.

  Integers. A C object whose wrap-around is observable keeps its width (\<open>u8\<close>, \<open>u16\<close>, \<open>u32\<close>, \<open>u64\<close>).
  Array indices, loop counters and quotients that stay far below \<open>2 ^ 32\<close> are \<open>nat\<close>; where the
  source subtracts from such a number and may wrap, the wrap-around is written out.
\<close>

type_synonym u8 = "8 word"
type_synonym u16 = "16 word"
type_synonym u32 = "32 word"
type_synonym u64 = "64 word"

definition PAGE_SIZE :: nat where
  "PAGE_SIZE = 4096"

definition EPERM :: int where "EPERM = 1"
definition ENOENT :: int where "ENOENT = 2"
definition ESRCH :: int where "ESRCH = 3"
definition EINTR :: int where "EINTR = 4"
definition EIO :: int where "EIO = 5"
definition EBADF :: int where "EBADF = 9"
definition ECHILD :: int where "ECHILD = 10"
definition EAGAIN :: int where "EAGAIN = 11"
definition ENOMEM :: int where "ENOMEM = 12"
definition EACCES :: int where "EACCES = 13"
definition EFAULT :: int where "EFAULT = 14"
definition EEXIST :: int where "EEXIST = 17"
definition ENOTDIR :: int where "ENOTDIR = 20"
definition EISDIR :: int where "EISDIR = 21"
definition EINVAL :: int where "EINVAL = 22"
definition EMFILE :: int where "EMFILE = 24"
definition ENOSPC :: int where "ENOSPC = 28"
definition ESPIPE :: int where "ESPIPE = 29"
definition E2BIG :: int where "E2BIG = 7"
definition EBUSY :: int where "EBUSY = 16"
definition ENODEV :: int where "ENODEV = 19"
definition ENOTTY :: int where "ENOTTY = 25"
definition EROFS :: int where "EROFS = 30"
definition EPIPE :: int where "EPIPE = 32"
definition ERANGE :: int where "ERANGE = 34"
definition ENAMETOOLONG :: int where "ENAMETOOLONG = 36"
definition ENOLCK :: int where "ENOLCK = 37"
definition ENOSYS :: int where "ENOSYS = 38"
definition ENOTEMPTY :: int where "ENOTEMPTY = 39"
definition ELOOP :: int where "ELOOP = 40"
definition ENOMSG :: int where "ENOMSG = 42"
definition EIDRM :: int where "EIDRM = 43"
definition EMSGSIZE :: int where "EMSGSIZE = 90"
definition ETIMEDOUT :: int where "ETIMEDOUT = 60"
definition EWOULDBLOCK :: int where "EWOULDBLOCK = EAGAIN"

text \<open>The page-table flags of \<^verbatim>\<open>include/vmm.h\<close>.\<close>

definition VMM_FLAG_PRESENT :: u32 where "VMM_FLAG_PRESENT = 1"
definition VMM_FLAG_RW :: u32 where "VMM_FLAG_RW = 2"
definition VMM_FLAG_USER :: u32 where "VMM_FLAG_USER = 4"
definition VMM_FLAG_COW :: u32 where "VMM_FLAG_COW = 512"

text \<open>The states of \<^verbatim>\<open>process_state_t\<close> (\<^verbatim>\<open>include/process.h\<close>).\<close>

datatype process_state =
  PROCESS_READY | PROCESS_RUNNING | PROCESS_BLOCKED | PROCESS_SLEEPING | PROCESS_ZOMBIE

named_theorems errno_defs \<open>the error numbers, for case distinctions on results\<close>
named_theorems frame_simps \<open>fields an operation leaves alone\<close>

declare EPERM_def [errno_defs] ENOENT_def [errno_defs] ESRCH_def [errno_defs] EINTR_def [errno_defs]
  EIO_def [errno_defs] EBADF_def [errno_defs] ECHILD_def [errno_defs] EAGAIN_def [errno_defs]
  ENOMEM_def [errno_defs] EACCES_def [errno_defs] EFAULT_def [errno_defs] EEXIST_def [errno_defs]
  ENOTDIR_def [errno_defs] EISDIR_def [errno_defs] EINVAL_def [errno_defs] EMFILE_def [errno_defs]
  ENOSPC_def [errno_defs] ESPIPE_def [errno_defs]
  E2BIG_def [errno_defs] EBUSY_def [errno_defs] ENODEV_def [errno_defs] ENOTTY_def [errno_defs]
  EROFS_def [errno_defs] EPIPE_def [errno_defs] ERANGE_def [errno_defs] ENAMETOOLONG_def [errno_defs]
  ENOLCK_def [errno_defs] ENOSYS_def [errno_defs] ENOTEMPTY_def [errno_defs] ELOOP_def [errno_defs]
  ENOMSG_def [errno_defs] EIDRM_def [errno_defs] EMSGSIZE_def [errno_defs] ETIMEDOUT_def [errno_defs]

subsection \<open>Lists and sets\<close>

lemma card_insert_below:
  fixes A :: "nat set"
  assumes "i < n" and "i \<notin> A"
  shows "card {j. j < n \<and> (j = i \<or> j \<in> A)} = Suc (card {j. j < n \<and> j \<in> A})"
proof -
  have "{j. j < n \<and> (j = i \<or> j \<in> A)} = insert i {j. j < n \<and> j \<in> A}"
    using assms(1) by auto
  then show ?thesis using assms(2) by simp
qed

lemma card_remove_below:
  fixes A :: "nat set"
  assumes "i < n" and "i \<in> A"
  shows "Suc (card {j. j < n \<and> j \<noteq> i \<and> j \<in> A}) = card {j. j < n \<and> j \<in> A}"
proof -
  have "{j. j < n \<and> j \<in> A} = insert i {j. j < n \<and> j \<noteq> i \<and> j \<in> A}"
    using assms by auto
  then show ?thesis by simp
qed

lemma nth_update_eq_if: "i < length xs \<Longrightarrow> xs[i := x] ! j = (if j = i then x else xs ! j)"
  by simp

lemma nth_update_if: "xs[i := x] ! j = (if j = i \<and> i < length xs then x else xs ! j)"
  by (cases "i < length xs") (auto simp: list_update_beyond)

lemma find_append_Cons: "(\<And>y. y \<in> set ys \<Longrightarrow> \<not> P y) \<Longrightarrow> P x \<Longrightarrow> find P (ys @ x # zs) = Some x"
  by (induction ys) auto

text \<open>A counting loop that stops at the first hit.\<close>

lemma find_upt_Some: "(find P [0..<n] = Some i) = (i < n \<and> P i \<and> (\<forall>j < i. \<not> P j))"
  by (auto simp: find_Some_iff)

lemma find_upt_None: "(find P [0..<n] = None) = (\<forall>j < n. \<not> P j)"
  by (auto simp: find_None_iff)

lemma upt_append_cons:
  assumes "i \<le> r" "r < n"
  shows "[i..<n] = [i..<r] @ r # [r + 1..<n]"
  using upt_add_eq_append [OF assms(1), of "n - r"] assms(2) by (simp add: upt_conv_Cons)

subsection \<open>Aligned numbers\<close>

lemma aligned_le_iff:
  assumes "(d :: nat) dvd p" "0 < d"
  shows "(p \<le> x) = (p div d \<le> x div d)"
  using assms by (metis div_le_mono dvd_mult_div_cancel less_eq_div_iff_mult_less_eq mult.commute)

lemma aligned_less_iff: "(d :: nat) dvd p \<Longrightarrow> 0 < d \<Longrightarrow> (x < p) = (x div d < p div d)"
  using aligned_le_iff [of d p x] by linarith

lemma aligned_add_le:
  assumes "(d :: nat) dvd a" "d dvd b" "a < b"
  shows "a + d \<le> b"
proof -
  have "d dvd b - a" using assms by (simp add: dvd_diff_nat)
  then have "d \<le> b - a" using assms(3) by (intro dvd_imp_le) auto
  then show ?thesis using assms(3) by linarith
qed

subsection \<open>Words\<close>

lemma and_bit_mask_iff: "((w :: 'a :: len word) AND push_bit n 1 \<noteq> 0) = bit w n"
  by (simp add: push_bit_of_1 and_exp_eq_0_iff_not_bit)

lemma bit_set_byte: "n < 8 \<Longrightarrow> bit ((w :: u8) OR 2 ^ m) n = (n = m \<or> bit w n)"
  by (auto simp: bit_or_iff bit_exp_iff)

lemma bit_unset_byte: "n < 8 \<Longrightarrow> bit ((w :: u8) AND NOT (2 ^ m)) n = (n \<noteq> m \<and> bit w n)"
  by (auto simp: bit_and_iff bit_not_iff bit_exp_iff)

lemma unat_of_nat_small: "x < 2 ^ LENGTH('a) \<Longrightarrow> unat (of_nat x :: 'a :: len word) = x"
  by (simp add: unat_of_nat take_bit_nat_eq_self)

lemma of_nat_word_eq_iff:
  "x < 2 ^ LENGTH('a) \<Longrightarrow> y < 2 ^ LENGTH('a) \<Longrightarrow> (of_nat x = (of_nat y :: 'a :: len word)) = (x = y)"
  by (metis unat_of_nat_small)

lemma unat_two_power: "k < LENGTH('a) \<Longrightarrow> unat (2 ^ k :: 'a :: len word) = 2 ^ k"
  using unat_of_nat_small [of "2 ^ k", where 'a = 'a] by simp

text \<open>Masking out the low bits rounds down.\<close>

lemma unat_and_not_mask:
  fixes w :: "'a :: len word"
  shows "unat (w AND NOT (mask n)) = unat w div 2 ^ n * 2 ^ n"
proof -
  have "w AND NOT (mask n) = push_bit n (drop_bit n w)" by (rule bit_word_eqI) (auto simp: bit_simps)
  then have "w AND NOT (mask n) = w - take_bit n w" using bits_ident [of n w] by (simp add: eq_diff_eq)
  moreover have t: "unat (take_bit n w) = unat w mod 2 ^ n" by (simp add: unsigned_take_bit_eq flip: take_bit_eq_mod)
  moreover have "take_bit n w \<le> w" by (simp add: word_le_nat_alt t)
  ultimately show ?thesis by (simp add: unat_sub minus_mod_eq_div_mult)
qed

lemma gt_one_nonzero: "1 < (w :: 'a :: len word) \<Longrightarrow> w \<noteq> 0"
  by auto

lemma word_eq_one: "(w :: 'a :: len word) \<noteq> 0 \<Longrightarrow> \<not> 1 < w \<Longrightarrow> w = 1"
  using linorder_less_linear [of w 1] by simp

text \<open>A bit number is its byte and its place in the byte.\<close>

lemma byte_pos_eq: "((i :: nat) = j) = (i div 8 = j div 8 \<and> i mod 8 = j mod 8)"
  by (metis div_mult_mod_eq)

end
