(* ===== verification/Bitmap.thy ===== *)
theory Bitmap
  imports Kernel_Prelude
begin

text \<open>
  The interface of the byte-array bitmaps that the allocators share: one bit per page, kept in
  an array of bytes. \<^verbatim>\<open>src/mm/pmm.c\<close> and \<^verbatim>\<open>src/kernel/kva_alloc.c\<close> each have their own static
  \<^verbatim>\<open>bitmap_set\<close>, \<^verbatim>\<open>bitmap_unset\<close>/\<^verbatim>\<open>bitmap_clear\<close> and \<^verbatim>\<open>bitmap_test\<close>; both are interpretations of this
  locale, and the facts on runs of bits and on the number of used bits are proved here once.
\<close>

locale byte_bitmap =
  fixes bm_test :: "u8 list \<Rightarrow> nat \<Rightarrow> bool"
    and bm_set :: "u8 list \<Rightarrow> nat \<Rightarrow> u8 list"
    and bm_clear :: "u8 list \<Rightarrow> nat \<Rightarrow> u8 list"
  assumes length_set: "length (bm_set b i) = length b"
    and length_clear: "length (bm_clear b i) = length b"
    and test_set: "i < 8 * length b \<Longrightarrow> bm_test (bm_set b i) j = (j = i \<or> bm_test b j)"
    and test_clear: "i < 8 * length b \<Longrightarrow> bm_test (bm_clear b i) j = (j \<noteq> i \<and> bm_test b j)"
begin

text \<open>The number of used bits below \<open>n\<close>, and how it moves when one bit changes.\<close>

definition used_bits :: "u8 list \<Rightarrow> nat \<Rightarrow> nat" where
  "used_bits b n = card {j. j < n \<and> bm_test b j}"

lemma used_bits_set:
  assumes "i < n" "n \<le> 8 * length b" "\<not> bm_test b i"
  shows "used_bits (bm_set b i) n = Suc (used_bits b n)"
  using card_insert_below [of i n "{j. bm_test b j}"] assms
  by (simp add: used_bits_def test_set)

lemma used_bits_clear:
  assumes "i < n" "n \<le> 8 * length b" "bm_test b i"
  shows "Suc (used_bits (bm_clear b i) n) = used_bits b n"
  using card_remove_below [of i n "{j. bm_test b j}"] assms
  by (simp add: used_bits_def test_clear)

lemma used_bits_le: "used_bits b n \<le> n"
proof -
  have "{j. j < n \<and> bm_test b j} \<subseteq> {..<n}" by auto
  then have "card {j. j < n \<and> bm_test b j} \<le> card {..<n}"
    by (rule card_mono [OF finite_lessThan])
  then show ?thesis by (simp add: used_bits_def)
qed

text \<open>Marking a run of consecutive bits, one at a time, from the lowest.\<close>

fun set_run :: "u8 list \<Rightarrow> nat \<Rightarrow> nat \<Rightarrow> u8 list" where
  "set_run b i 0 = b"
| "set_run b i (Suc n) = set_run (bm_set b i) (Suc i) n"

fun clear_run :: "u8 list \<Rightarrow> nat \<Rightarrow> nat \<Rightarrow> u8 list" where
  "clear_run b i 0 = b"
| "clear_run b i (Suc n) = clear_run (bm_clear b i) (Suc i) n"

lemma length_set_run [simp]: "length (set_run b i n) = length b"
  by (induction b i n rule: set_run.induct) (auto simp: length_set)

lemma length_clear_run [simp]: "length (clear_run b i n) = length b"
  by (induction b i n rule: clear_run.induct) (auto simp: length_clear)

lemma test_set_run:
  "i + n \<le> 8 * length b \<Longrightarrow> bm_test (set_run b i n) j = ((i \<le> j \<and> j < i + n) \<or> bm_test b j)"
proof (induction b i n rule: set_run.induct)
  case (2 b i n)
  then have "bm_test (set_run b i (Suc n)) j =
      ((Suc i \<le> j \<and> j < Suc i + n) \<or> bm_test (bm_set b i) j)"
    by (simp add: length_set)
  with 2 show ?case by (auto simp: test_set)
qed auto

lemma test_clear_run:
  "i + n \<le> 8 * length b \<Longrightarrow> bm_test (clear_run b i n) j = (\<not> (i \<le> j \<and> j < i + n) \<and> bm_test b j)"
proof (induction b i n rule: clear_run.induct)
  case (2 b i n)
  then have "bm_test (clear_run b i (Suc n)) j =
      (\<not> (Suc i \<le> j \<and> j < Suc i + n) \<and> bm_test (bm_clear b i) j)"
    by (simp add: length_clear)
  with 2 show ?case by (auto simp: test_clear)
qed auto

lemma used_bits_set_run:
  assumes "i + m \<le> n" "n \<le> 8 * length b" "\<And>j. i \<le> j \<Longrightarrow> j < i + m \<Longrightarrow> \<not> bm_test b j"
  shows "used_bits (set_run b i m) n = used_bits b n + m"
  using assms
proof (induction b i m rule: set_run.induct)
  case (2 b i m)
  have "used_bits (set_run (bm_set b i) (Suc i) m) n = used_bits (bm_set b i) n + m"
    by (rule "2.IH") (use "2.prems" in \<open>auto simp: length_set test_set\<close>)
  also have "used_bits (bm_set b i) n = Suc (used_bits b n)"
    by (rule used_bits_set) (use "2.prems" in auto)
  finally show ?case by simp
qed simp

text \<open>A cleared run restores the bitmap that was there before the run was set.\<close>

lemma set_clear_run_test:
  assumes "i + n \<le> 8 * length b" "\<And>j. i \<le> j \<Longrightarrow> j < i + n \<Longrightarrow> \<not> bm_test b j"
  shows "bm_test (clear_run (set_run b i n) i n) j = bm_test b j"
  using assms by (auto simp: test_clear_run test_set_run)

end

end
