(* ===== verification/Frame_Alloc.thy ===== *)
theory Frame_Alloc
  imports Kernel_Prelude
begin

text \<open>
  What a client of the page allocator may rely on. A client sees the number of references it and
  others hold on each page (\<open>refs\<close>); an allocation hands out a page with no reference and makes it
  one, a free drops one reference. \<^verbatim>\<open>src/mm/pmm.c\<close> provides it (theory \<open>Pmm\<close>); the shared memory
  segments rely on it. \<open>take_pages\<close> is the loop those clients share: allocate \<open>n\<close> pages, and on the first
  failure free the ones taken so far.
\<close>

fun free_pages :: "(u32 \<Rightarrow> 's \<Rightarrow> 's) \<Rightarrow> u32 list \<Rightarrow> 's \<Rightarrow> 's" where
  "free_pages fr [] s = s"
| "free_pages fr (p # ps) s = free_pages fr ps (fr p s)"

fun take_pages :: "('s \<Rightarrow> 's \<times> u32) \<Rightarrow> (u32 \<Rightarrow> 's \<Rightarrow> 's) \<Rightarrow> nat \<Rightarrow> u32 list \<Rightarrow> 's \<Rightarrow> 's \<times> u32 list option" where
  "take_pages al fr 0 got s = (s, Some got)"
| "take_pages al fr (Suc n) got s =
     (let (s', p) = al s in
      if p = 0 then (free_pages fr got s', None)
      else take_pages al fr n (got @ [p]) s')"

locale frame_allocator =
  fixes inv :: "'s \<Rightarrow> bool"
    and refs :: "'s \<Rightarrow> u32 \<Rightarrow> nat"
    and al :: "'s \<Rightarrow> 's \<times> u32"
    and fr :: "u32 \<Rightarrow> 's \<Rightarrow> 's"
  assumes refs_null: "inv s \<Longrightarrow> refs s 0 = 0"
    and al_inv: "inv s \<Longrightarrow> al s = (s', p) \<Longrightarrow> inv s'"
    and al_page: "inv s \<Longrightarrow> al s = (s', p) \<Longrightarrow> p \<noteq> 0 \<Longrightarrow>
          refs s p = 0 \<and> refs s' = (refs s)(p := 1)"
    and al_oom: "inv s \<Longrightarrow> al s = (s', 0) \<Longrightarrow> refs s' = refs s"
    and fr_inv: "inv s \<Longrightarrow> inv (fr p s)"
    and fr_ref: "inv s \<Longrightarrow> 0 < refs s p \<Longrightarrow> refs (fr p s) = (refs s)(p := refs s p - 1)"
begin

lemma free_pages_inv: "inv s \<Longrightarrow> inv (free_pages fr ps s)"
  by (induction ps arbitrary: s) (auto intro: fr_inv)

text \<open>Freeing a list of distinct pages that are each referenced drops one reference of each.\<close>

lemma free_pages_refs:
  "inv s \<Longrightarrow> distinct ps \<Longrightarrow> (\<And>p. p \<in> set ps \<Longrightarrow> 0 < refs s p) \<Longrightarrow>
     refs (free_pages fr ps s) q = (if q \<in> set ps then refs s q - 1 else refs s q)"
proof (induction ps arbitrary: s)
  case (Cons p ps)
  have r: "refs (fr p s) = (refs s)(p := refs s p - 1)"
    using Cons.prems by (intro fr_ref) auto
  have "refs (free_pages fr ps (fr p s)) q =
      (if q \<in> set ps then refs (fr p s) q - 1 else refs (fr p s) q)"
    by (rule Cons.IH) (use Cons.prems in \<open>auto simp: r intro: fr_inv\<close>)
  with Cons.prems show ?case by (auto simp: r)
qed simp

text \<open>
  The loop with rollback: on success \<open>n\<close> fresh pages, distinct from each other and from
  those already held, each with one reference; on failure the counts are what they were before the
  pages in \<open>got\<close> were taken.
\<close>

lemma take_pages_refs:
  assumes "inv s" "distinct got" "\<And>p. p \<in> set got \<Longrightarrow> refs s p = 1"
    and "take_pages al fr n got s = (s', r)"
  shows "inv s' \<and> (case r of
      None \<Rightarrow> (\<forall>q. refs s' q = (if q \<in> set got then 0 else refs s q))
    | Some ps \<Rightarrow> \<exists>new. ps = got @ new \<and> length new = n \<and> distinct ps \<and>
        (\<forall>p \<in> set new. p \<noteq> 0 \<and> refs s p = 0) \<and>
        (\<forall>q. refs s' q = (if q \<in> set new then 1 else refs s q)))"
  using assms
proof (induction n arbitrary: got s)
  case 0
  then show ?case by auto
next
  case (Suc n)
  obtain s1 p where al: "al s = (s1, p)" by (cases "al s")
  have inv1: "inv s1" by (rule al_inv [OF Suc.prems(1) al])
  show ?case
  proof (cases "p = 0")
    case True
    then have res: "r = None" "s' = free_pages fr got s1" using Suc.prems(4) al by auto
    have same: "refs s1 = refs s" using al_oom [OF Suc.prems(1)] al True by simp
    have "refs s' q = (if q \<in> set got then 0 else refs s q)" for q
      unfolding res(2) using Suc.prems(2,3) by (subst free_pages_refs [OF inv1]) (auto simp: same)
    then show ?thesis using res inv1 by (auto intro: free_pages_inv)
  next
    case False
    note new = al_page [OF Suc.prems(1) al False]
    have got: "p \<notin> set got" using Suc.prems(3) new by fastforce
    have "take_pages al fr n (got @ [p]) s1 = (s', r)" using Suc.prems(4) al False by simp
    then have IH: "inv s' \<and> (case r of
        None \<Rightarrow> (\<forall>q. refs s' q = (if q \<in> set (got @ [p]) then 0 else refs s1 q))
      | Some ps \<Rightarrow> \<exists>new. ps = (got @ [p]) @ new \<and> length new = n \<and> distinct ps \<and>
          (\<forall>p \<in> set new. p \<noteq> 0 \<and> refs s1 p = 0) \<and>
          (\<forall>q. refs s' q = (if q \<in> set new then 1 else refs s1 q)))"
      using Suc.prems(2,3) new got inv1 by (intro Suc.IH) auto
    show ?thesis
    proof (cases r)
      case None
      with IH new show ?thesis by auto
    next
      case (Some ps)
      with IH obtain ns where ns: "ps = (got @ [p]) @ ns" "length ns = n" "distinct ps"
        "\<forall>p \<in> set ns. p \<noteq> 0 \<and> refs s1 p = 0"
        "\<forall>q. refs s' q = (if q \<in> set ns then 1 else refs s1 q)"
        by auto
      have "p \<notin> set ns" using ns(1,3) by auto
      with ns new False Some IH show ?thesis
        by (intro conjI) (auto intro!: exI [of _ "p # ns"] split: if_splits)
    qed
  qed
qed

lemma take_pages_fresh:
  assumes "inv s" "take_pages al fr n [] s = (s', Some ps)"
  shows "inv s'" "length ps = n" "distinct ps" "\<And>p. p \<in> set ps \<Longrightarrow> p \<noteq> 0 \<and> refs s p = 0"
    "\<And>q. refs s' q = (if q \<in> set ps then 1 else refs s q)"
  using take_pages_refs [OF assms(1) _ _ assms(2)] by auto

lemma take_pages_rollback:
  assumes "inv s" "take_pages al fr n [] s = (s', None)"
  shows "inv s'" "refs s' = refs s"
  using take_pages_refs [OF assms(1) _ _ assms(2)] by auto

end

text \<open>
  What the page tables rely on besides: the pages an allocation chooses from, and pages with several owners. The free
  pages are page aligned; an allocation fails only when none is left.
\<close>

locale frame_sharing = frame_allocator inv refs al fr
  for inv :: "'s \<Rightarrow> bool" and refs :: "'s \<Rightarrow> u32 \<Rightarrow> nat" and al :: "'s \<Rightarrow> 's \<times> u32" and fr :: "u32 \<Rightarrow> 's \<Rightarrow> 's" +
  fixes avail :: "'s \<Rightarrow> u32 set"
    and inc :: "u32 \<Rightarrow> 's \<Rightarrow> 's"
    and dec :: "u32 \<Rightarrow> 's \<Rightarrow> 's"
  assumes avail_page: "inv s \<Longrightarrow> p \<in> avail s \<Longrightarrow> p AND 0xFFF = 0 \<and> p \<noteq> 0"
    and al_avail: "inv s \<Longrightarrow> al s = (s', p) \<Longrightarrow> p \<noteq> 0 \<Longrightarrow> p \<in> avail s \<and> avail s' = avail s - {p}"
    and al_none: "inv s \<Longrightarrow> al s = (s', 0) \<Longrightarrow> avail s = {} \<and> avail s' = {}"
    and inc_ref: "inv s \<Longrightarrow> 0 < refs s p \<Longrightarrow> refs s p < 2 ^ 32 - 1 \<Longrightarrow>
          inv (inc p s) \<and> refs (inc p s) = (refs s)(p := Suc (refs s p)) \<and> avail (inc p s) = avail s"
    and dec_ref: "inv s \<Longrightarrow> 1 < refs s p \<Longrightarrow>
          inv (dec p s) \<and> refs (dec p s) = (refs s)(p := refs s p - 1) \<and> avail (dec p s) = avail s"
    and fr_avail: "inv s \<Longrightarrow> 0 < refs s p \<Longrightarrow> avail (fr p s) = (if refs s p = 1 then insert p (avail s) else avail s)"
begin

lemma take_pages_avail:
  "inv s \<Longrightarrow> take_pages al fr n got s = (s', Some ps) \<Longrightarrow>
     \<exists>new. ps = got @ new \<and> set new \<subseteq> avail s \<and> avail s' = avail s - set new"
proof (induction n arbitrary: got s)
  case (Suc n)
  obtain s1 p where al: "al s = (s1, p)" by (cases "al s")
  have p: "p \<noteq> 0" "take_pages al fr n (got @ [p]) s1 = (s', Some ps)"
    using Suc.prems(2) al by (auto split: if_splits)
  obtain ns where "ps = (got @ [p]) @ ns" "set ns \<subseteq> avail s1" "avail s' = avail s1 - set ns"
    using Suc.IH [OF al_inv [OF Suc.prems(1) al] p(2)] by auto
  then show ?case using al_avail [OF Suc.prems(1) al p(1)] by (intro exI [of _ "p # ns"]) auto
qed auto

end

end
