(* ===== verification/Pmm.thy ===== *)
theory Pmm
  imports Bitmap Frame_Alloc
begin

text \<open>
  The physical page allocator, \<^verbatim>\<open>src/mm/pmm.c\<close>: one bit per frame, a reference count per frame and
  the running total of used memory. Every operation runs under \<^verbatim>\<open>pmm_lock\<close>, so that each is one
  atomic step on the state \<open>pmm\<close>.

  Frame numbers are \<open>nat\<close>: they are quotients of 64-bit addresses by the page size. The two places
  where the source's 64-bit arithmetic on frame numbers can wrap (\<^verbatim>\<open>max_frames - 1\<close> with no limits
  set, and the rotating scan index) have the wrap-around written out. The byte counter
  \<^verbatim>\<open>used_memory\<close> and the reference counts keep their width. A physical address is a \<open>u32\<close>, as
  \<^verbatim>\<open>uintptr_t\<close> is on the x86 target; the null pointer is 0. A frame number past the end of the
  arrays is undefined behaviour in C; the invariant \<open>pmm_inv\<close> excludes it.

  Shown below: the invariant (array sizes, exact accounting of used memory) holds after boot and is
  kept by every operation; \<^verbatim>\<open>pmm_alloc_page\<close> and \<^verbatim>\<open>pmm_alloc_blocks\<close> return only frames that were
  free, never frame 0, and fail only when there is none, so that the skip-ahead search agrees with
  the naive one; a frame is released exactly when its last reference is dropped, and a double free
  changes nothing.
\<close>

definition MAX_RAM_SIZE :: nat where
  "MAX_RAM_SIZE = 512 * 1024 * 1024"

definition BITMAP_SIZE :: nat where
  "BITMAP_SIZE = MAX_RAM_SIZE div PAGE_SIZE div 8"

record pmm =
  memory_bitmap :: "u8 list"
  frame_refcount :: "u32 list"
  total_memory :: u64
  used_memory :: u64
  max_frames :: nat
  last_alloc_frame :: nat

definition align_down :: "u64 \<Rightarrow> u64 \<Rightarrow> u64" where
  "align_down v align = v AND NOT (align - 1)"

definition align_up :: "u64 \<Rightarrow> u64 \<Rightarrow> u64" where
  "align_up v align = (v + align - 1) AND NOT (align - 1)"

definition bitmap_set :: "u8 list \<Rightarrow> nat \<Rightarrow> u8 list" where
  "bitmap_set bm b = bm[b div 8 := bm ! (b div 8) OR push_bit (b mod 8) 1]"

definition bitmap_unset :: "u8 list \<Rightarrow> nat \<Rightarrow> u8 list" where
  "bitmap_unset bm b = bm[b div 8 := bm ! (b div 8) AND NOT (push_bit (b mod 8) 1)]"

definition bitmap_test :: "u8 list \<Rightarrow> nat \<Rightarrow> bool" where
  "bitmap_test bm b = (bm ! (b div 8) AND push_bit (b mod 8) 1 \<noteq> 0)"

text \<open>The state of the allocator's statics before \<^verbatim>\<open>pmm_init\<close>.\<close>

definition pmm_statics :: pmm where
  "pmm_statics =
     \<lparr>memory_bitmap = replicate BITMAP_SIZE 0,
      frame_refcount = replicate (MAX_RAM_SIZE div PAGE_SIZE) 0,
      total_memory = 0, used_memory = 0, max_frames = 0, last_alloc_frame = 1\<rparr>"

text \<open>\<^verbatim>\<open>pmm_mark_region\<close>: the loop stops at the first frame past \<^verbatim>\<open>max_frames\<close>.\<close>

definition mark_frame :: "bool \<Rightarrow> nat \<Rightarrow> pmm \<Rightarrow> pmm" where
  "mark_frame used frame s =
     (let was_used = bitmap_test (memory_bitmap s) frame in
      if used then
        (if \<not> was_used then
           s\<lparr>memory_bitmap := bitmap_set (memory_bitmap s) frame,
             used_memory := used_memory s + of_nat PAGE_SIZE\<rparr>
         else s)
      else
        (if was_used then
           s\<lparr>memory_bitmap := bitmap_unset (memory_bitmap s) frame,
             used_memory := used_memory s - of_nat PAGE_SIZE\<rparr>
         else s))"

fun mark_loop :: "bool \<Rightarrow> nat \<Rightarrow> nat \<Rightarrow> pmm \<Rightarrow> pmm" where
  "mark_loop used frame 0 s = s"
| "mark_loop used frame (Suc n) s =
     (if frame \<ge> max_frames s then s
      else mark_loop used (Suc frame) n (mark_frame used frame s))"

definition pmm_mark_region :: "u64 \<Rightarrow> u64 \<Rightarrow> bool \<Rightarrow> pmm \<Rightarrow> pmm" where
  "pmm_mark_region base len used s =
     (let start_frame = unat base div PAGE_SIZE;
          frames_count = unat len div PAGE_SIZE
      in mark_loop used start_frame frames_count s)"

definition pmm_set_limits :: "u64 \<Rightarrow> u64 \<Rightarrow> pmm \<Rightarrow> pmm" where
  "pmm_set_limits total_mem max_fr s =
     (let total_mem = (if total_mem > of_nat MAX_RAM_SIZE then of_nat MAX_RAM_SIZE else total_mem);
          total_mem = align_down total_mem (of_nat PAGE_SIZE);
          mf = (if max_fr \<noteq> 0 then max_fr else total_mem div of_nat PAGE_SIZE)
      in s\<lparr>total_memory := total_mem, max_frames := unat mf,
           used_memory := mf * of_nat PAGE_SIZE\<rparr>)"

definition pmm_arch_init_default :: "pmm \<Rightarrow> pmm" where
  "pmm_arch_init_default s = pmm_set_limits (16 * 1024 * 1024) 0 s"

text \<open>
  \<^verbatim>\<open>pmm_init\<close>: \<open>arch_init\<close> stands for the architecture's \<^verbatim>\<open>pmm_arch_init\<close>; \<open>vs\<close> and \<open>ve\<close> are the
  linker symbols \<^verbatim>\<open>_start\<close> and \<^verbatim>\<open>_end\<close>, \<open>v2p\<close> is \<^verbatim>\<open>hal_mm_virt_to_phys\<close> and \<open>kvbase\<close> the result of
  \<^verbatim>\<open>hal_mm_kernel_virt_base\<close>.
\<close>

definition kernel_phys_range :: "(u32 \<Rightarrow> u32) \<Rightarrow> u32 \<Rightarrow> u32 \<Rightarrow> u32 \<Rightarrow> u64 \<times> u64" where
  "kernel_phys_range v2p kvbase vs ve =
     (let phys_start = ucast (v2p vs) :: u64; phys_end = ucast (v2p ve) :: u64 in
      if phys_start = 0 \<and> vs \<noteq> 0 then
        (if kvbase \<noteq> 0 \<and> vs \<ge> kvbase
         then (ucast vs - ucast kvbase, ucast ve - ucast kvbase)
         else (ucast vs, ucast ve))
      else (phys_start, phys_end))"

definition pmm_init :: "(pmm \<Rightarrow> pmm) \<Rightarrow> (u32 \<Rightarrow> u32) \<Rightarrow> u32 \<Rightarrow> u32 \<Rightarrow> u32 \<Rightarrow> pmm \<Rightarrow> pmm" where
  "pmm_init arch_init v2p kvbase vs ve s =
     (let s = s\<lparr>memory_bitmap := replicate BITMAP_SIZE 0xFF\<rparr>;
          s = arch_init s;
          (phys_start, phys_end) = kernel_phys_range v2p kvbase vs ve;
          start_aligned = align_down phys_start (of_nat PAGE_SIZE);
          end_aligned = align_up phys_end (of_nat PAGE_SIZE);
          end_aligned = (if end_aligned < start_aligned then start_aligned else end_aligned)
      in pmm_mark_region start_aligned (end_aligned - start_aligned) True s)"

text \<open>
  \<^verbatim>\<open>pmm_alloc_page\<close>: a rotating scan from \<^verbatim>\<open>last_alloc_frame\<close>. \<open>scan_page\<close> is the loop, with the
  number of iterations left and the value of \<^verbatim>\<open>scanned\<close>.
\<close>

definition scan_index :: "nat \<Rightarrow> nat \<Rightarrow> nat \<Rightarrow> nat" where
  "scan_index mf lf scanned =
     (let i = (lf + scanned) mod 2 ^ 64 in if i \<ge> mf then 1 + (i - mf) else i)"

fun scan_page :: "u8 list \<Rightarrow> nat \<Rightarrow> nat \<Rightarrow> nat \<Rightarrow> nat \<Rightarrow> nat option" where
  "scan_page bm mf lf scanned 0 = None"
| "scan_page bm mf lf scanned (Suc n) =
     (let i = scan_index mf lf scanned in
      if \<not> bitmap_test bm i then Some i else scan_page bm mf lf (Suc scanned) n)"

definition pmm_alloc_page :: "pmm \<Rightarrow> pmm \<times> u32" where
  "pmm_alloc_page s =
     (let mf = max_frames s;
          lf = (if last_alloc_frame s < 1 then 1 else last_alloc_frame s);
          lf = (if lf \<ge> mf then 1 else lf);
          s = s\<lparr>last_alloc_frame := lf\<rparr>
      in case scan_page (memory_bitmap s) mf lf 0 ((mf + 2 ^ 64 - 1) mod 2 ^ 64) of
           None \<Rightarrow> (s, 0)
         | Some i \<Rightarrow>
             (s\<lparr>memory_bitmap := bitmap_set (memory_bitmap s) i,
                frame_refcount := (frame_refcount s)[i := 1],
                used_memory := used_memory s + of_nat PAGE_SIZE,
                last_alloc_frame := (if i + 1 \<ge> mf then 1 else i + 1)\<rparr>,
              of_nat (i * PAGE_SIZE)))"

text \<open>
  \<^verbatim>\<open>pmm_alloc_blocks\<close>: \<open>first_used\<close> is the inner loop (the first used frame of the candidate run),
  \<open>find_run\<close> the outer one, which resumes just past that frame.
\<close>

fun first_used :: "u8 list \<Rightarrow> nat \<Rightarrow> nat \<Rightarrow> nat \<Rightarrow> nat option" where
  "first_used bm start j 0 = None"
| "first_used bm start j (Suc n) =
     (if bitmap_test bm (start + j) then Some j else first_used bm start (Suc j) n)"

function find_run :: "u8 list \<Rightarrow> nat \<Rightarrow> nat \<Rightarrow> nat \<Rightarrow> nat option" where
  "find_run bm mf count start =
     (if start + count \<le> mf then
        (case first_used bm start 0 count of
           None \<Rightarrow> Some start
         | Some j \<Rightarrow> find_run bm mf count (start + j + 1))
      else None)"
  by pat_completeness auto
termination
  by (relation "measure (\<lambda>(bm, mf, count, start). mf + 1 - start)") auto

fun take_run :: "nat \<Rightarrow> nat \<Rightarrow> pmm \<Rightarrow> pmm" where
  "take_run start 0 s = s"
| "take_run start (Suc n) s =
     take_run (Suc start) n
       (s\<lparr>memory_bitmap := bitmap_set (memory_bitmap s) start,
          frame_refcount := (frame_refcount s)[start := 1],
          used_memory := used_memory s + of_nat PAGE_SIZE\<rparr>)"

definition pmm_alloc_blocks :: "u32 \<Rightarrow> pmm \<Rightarrow> pmm \<times> u32" where
  "pmm_alloc_blocks count s =
     (if count = 0 then (s, 0)
      else if count = 1 then pmm_alloc_page s
      else case find_run (memory_bitmap s) (max_frames s) (unat count) 1 of
             None \<Rightarrow> (s, 0)
           | Some start \<Rightarrow> (take_run start (unat count) s, of_nat (start * PAGE_SIZE)))"

definition pmm_free_page :: "u32 \<Rightarrow> pmm \<Rightarrow> pmm" where
  "pmm_free_page addr s =
     (let frame = unat addr div PAGE_SIZE in
      if frame = 0 \<or> frame \<ge> max_frames s then s
      else let rc = frame_refcount s ! frame in
        if rc = 0 \<or> \<not> bitmap_test (memory_bitmap s) frame then s
        else if rc > 1 then s\<lparr>frame_refcount := (frame_refcount s)[frame := rc - 1]\<rparr>
        else s\<lparr>memory_bitmap := bitmap_unset (memory_bitmap s) frame,
               frame_refcount := (frame_refcount s)[frame := 0],
               used_memory := used_memory s - of_nat PAGE_SIZE\<rparr>)"

fun free_loop :: "u32 \<Rightarrow> nat \<Rightarrow> nat \<Rightarrow> pmm \<Rightarrow> pmm" where
  "free_loop addr i 0 s = s"
| "free_loop addr i (Suc n) s =
     free_loop addr (Suc i) n (pmm_free_page (addr + of_nat i * of_nat PAGE_SIZE) s)"

definition pmm_free_blocks :: "u32 \<Rightarrow> u32 \<Rightarrow> pmm \<Rightarrow> pmm" where
  "pmm_free_blocks addr count s = free_loop addr 0 (unat count) s"

definition pmm_incref :: "u32 \<Rightarrow> pmm \<Rightarrow> pmm" where
  "pmm_incref paddr s =
     (let frame = unat paddr div PAGE_SIZE in
      if frame = 0 \<or> frame \<ge> max_frames s then s
      else s\<lparr>frame_refcount := (frame_refcount s)[frame := frame_refcount s ! frame + 1]\<rparr>)"

definition pmm_decref :: "u32 \<Rightarrow> pmm \<Rightarrow> pmm \<times> u32" where
  "pmm_decref paddr s =
     (let frame = unat paddr div PAGE_SIZE in
      if frame = 0 \<or> frame \<ge> max_frames s then (s, 0)
      else if frame_refcount s ! frame = 0 then (s, 0)
      else let new_val = frame_refcount s ! frame - 1;
               s = s\<lparr>frame_refcount := (frame_refcount s)[frame := new_val]\<rparr>
        in if new_val = 0
           then (s\<lparr>memory_bitmap := bitmap_unset (memory_bitmap s) frame,
                   used_memory := used_memory s - of_nat PAGE_SIZE\<rparr>, new_val)
           else (s, new_val))"

definition pmm_get_refcount :: "u32 \<Rightarrow> pmm \<Rightarrow> u32" where
  "pmm_get_refcount paddr s =
     (let frame = unat paddr div PAGE_SIZE in
      if frame \<ge> max_frames s then 0 else frame_refcount s ! frame)"

text \<open>The three numbers \<^verbatim>\<open>pmm_print_stats\<close> prints, in kilobytes: total, used, free.\<close>

definition pmm_stats :: "pmm \<Rightarrow> u64 \<times> u64 \<times> u64" where
  "pmm_stats s =
     (total_memory s div 1024, used_memory s div 1024,
      if total_memory s > used_memory s then (total_memory s - used_memory s) div 1024 else 0)"

subsection \<open>The bitmap interface\<close>

lemma bitmap_test_bit: "bitmap_test bm b = bit (bm ! (b div 8)) (b mod 8)"
  by (simp only: bitmap_test_def and_bit_mask_iff)

interpretation pmm_bits: byte_bitmap bitmap_test bitmap_set bitmap_unset
proof unfold_locales
  fix b :: "u8 list" and i j :: nat
  assume i: "i < 8 * length b"
  then have len: "i div 8 < length b" by auto
  show "bitmap_test (bitmap_set b i) j = (j = i \<or> bitmap_test b j)"
    unfolding bitmap_test_bit bitmap_set_def push_bit_of_1 nth_update_eq_if [OF len]
    by (simp add: bit_set_byte byte_pos_eq [of j i])
  show "bitmap_test (bitmap_unset b i) j = (j \<noteq> i \<and> bitmap_test b j)"
    unfolding bitmap_test_bit bitmap_unset_def push_bit_of_1 nth_update_eq_if [OF len]
    by (simp add: bit_unset_byte byte_pos_eq [of j i])
qed (simp_all add: bitmap_set_def bitmap_unset_def)

subsection \<open>The invariant\<close>

definition NFRAMES :: nat where
  "NFRAMES = MAX_RAM_SIZE div PAGE_SIZE"

abbreviation used_frame :: "pmm \<Rightarrow> nat \<Rightarrow> bool" where
  "used_frame s f \<equiv> bitmap_test (memory_bitmap s) f"

definition pmm_inv :: "pmm \<Rightarrow> bool" where
  "pmm_inv s \<longleftrightarrow>
     length (memory_bitmap s) = BITMAP_SIZE \<and> length (frame_refcount s) = NFRAMES \<and>
     max_frames s \<le> NFRAMES \<and>
     used_memory s = of_nat (PAGE_SIZE * pmm_bits.used_bits (memory_bitmap s) (max_frames s)) \<and>
     (\<forall>f < max_frames s. frame_refcount s ! f \<noteq> 0 \<longrightarrow> used_frame s f)"

lemmas pmm_sizes = BITMAP_SIZE_def NFRAMES_def MAX_RAM_SIZE_def PAGE_SIZE_def

lemma pmm_invD:
  assumes "pmm_inv s"
  shows "length (memory_bitmap s) = BITMAP_SIZE" "length (frame_refcount s) = NFRAMES"
    "max_frames s \<le> NFRAMES" "max_frames s \<le> 8 * length (memory_bitmap s)"
    "used_memory s = of_nat (PAGE_SIZE * pmm_bits.used_bits (memory_bitmap s) (max_frames s))"
    "\<And>f. f < max_frames s \<Longrightarrow> frame_refcount s ! f \<noteq> 0 \<Longrightarrow> used_frame s f"
  using assms by (auto simp: pmm_inv_def pmm_sizes)

text \<open>Taking a free frame and giving a used one back keep the accounting.\<close>

lemma pmm_inv_take:
  assumes inv: "pmm_inv s" and f: "f < max_frames s" "\<not> used_frame s f"
  shows "pmm_inv (s\<lparr>memory_bitmap := bitmap_set (memory_bitmap s) f,
    frame_refcount := (frame_refcount s)[f := rc],
    used_memory := used_memory s + of_nat PAGE_SIZE\<rparr>)"
proof -
  note D = pmm_invD [OF inv]
  have fb: "f < 8 * length (memory_bitmap s)" using f(1) D(4) by simp
  show ?thesis
    using f D fb
    by (auto simp: pmm_inv_def pmm_bits.length_set pmm_bits.test_set pmm_bits.used_bits_set
        nth_list_update algebra_simps)
qed

lemma pmm_inv_release:
  assumes inv: "pmm_inv s" and f: "f < max_frames s" "used_frame s f"
  shows "pmm_inv (s\<lparr>memory_bitmap := bitmap_unset (memory_bitmap s) f,
    frame_refcount := (frame_refcount s)[f := 0],
    used_memory := used_memory s - of_nat PAGE_SIZE\<rparr>)"
proof -
  note D = pmm_invD [OF inv]
  have fb: "f < 8 * length (memory_bitmap s)" using f(1) D(4) by simp
  have "Suc (pmm_bits.used_bits (bitmap_unset (memory_bitmap s) f) (max_frames s)) =
      pmm_bits.used_bits (memory_bitmap s) (max_frames s)"
    by (rule pmm_bits.used_bits_clear) (use f D in auto)
  then have "used_memory s - of_nat PAGE_SIZE =
      of_nat (PAGE_SIZE * pmm_bits.used_bits (bitmap_unset (memory_bitmap s) f) (max_frames s))"
    unfolding D(5) by (metis add_diff_cancel_left' mult_Suc_right of_nat_add)
  with f D fb show ?thesis
    by (auto simp: pmm_inv_def pmm_bits.length_clear pmm_bits.test_clear nth_list_update)
qed

lemma pmm_inv_release':
  assumes "pmm_inv s" "f < max_frames s" "used_frame s f"
  shows "pmm_inv (s\<lparr>frame_refcount := (frame_refcount s)[f := 0],
    memory_bitmap := bitmap_unset (memory_bitmap s) f,
    used_memory := used_memory s - of_nat PAGE_SIZE\<rparr>)"
  using pmm_inv_release [OF assms] by (simp add: pmm_inv_def)

lemma pmm_inv_refcount:
  assumes "pmm_inv s" "rc \<noteq> 0 \<Longrightarrow> f < max_frames s \<Longrightarrow> used_frame s f"
  shows "pmm_inv (s\<lparr>frame_refcount := (frame_refcount s)[f := rc]\<rparr>)"
  using assms by (auto simp: pmm_inv_def nth_update_if)

lemma pmm_inv_last: "pmm_inv (s\<lparr>last_alloc_frame := l\<rparr>) = pmm_inv s"
  by (simp add: pmm_inv_def)

subsection \<open>Addresses of frames\<close>

lemma unat_frame_addr: "f < NFRAMES \<Longrightarrow> unat (of_nat (f * PAGE_SIZE) :: u32) = f * PAGE_SIZE"
  by (rule of_nat_inverse [OF refl]) (simp add: pmm_sizes)

lemma frame_of_addr: "f < NFRAMES \<Longrightarrow> unat (of_nat (f * PAGE_SIZE) :: u32) div PAGE_SIZE = f"
  by (subst unat_frame_addr) (simp_all add: PAGE_SIZE_def)

lemma frame_addr_nonzero: "0 < f \<Longrightarrow> f < NFRAMES \<Longrightarrow> (of_nat (f * PAGE_SIZE) :: u32) \<noteq> 0"
  using unat_frame_addr [of f] by (auto simp: PAGE_SIZE_def simp flip: unat_eq_zero)

subsection \<open>The rotating scan\<close>

lemma scan_page_Some:
  "scan_page bm mf lf scanned n = Some i \<Longrightarrow>
     \<not> bitmap_test bm i \<and> (\<exists>k. scanned \<le> k \<and> k < scanned + n \<and> i = scan_index mf lf k)"
proof (induction n arbitrary: scanned)
  case (Suc n)
  show ?case
  proof (cases "bitmap_test bm (scan_index mf lf scanned)")
    case True
    with Suc.prems have "scan_page bm mf lf (Suc scanned) n = Some i" by (simp add: Let_def)
    from Suc.IH [OF this] show ?thesis by (metis Suc_leD add_Suc add_Suc_right)
  next
    case False
    with Suc.prems show ?thesis by (auto simp: Let_def)
  qed
qed simp

lemma scan_page_None:
  "scan_page bm mf lf scanned n = None \<Longrightarrow> scanned \<le> k \<Longrightarrow> k < scanned + n \<Longrightarrow>
     bitmap_test bm (scan_index mf lf k)"
proof (induction n arbitrary: scanned)
  case (Suc n)
  from Suc.prems(1) have hit: "bitmap_test bm (scan_index mf lf scanned)"
    and rest: "scan_page bm mf lf (Suc scanned) n = None"
    by (auto simp: Let_def split: if_splits)
  show ?case
  proof (cases "k = scanned")
    case False
    with Suc.prems(2,3) show ?thesis by (intro Suc.IH [OF rest]) auto
  qed (simp add: hit)
qed simp

text \<open>One turn of the scan, \<^verbatim>\<open>max_frames - 1\<close> steps, visits exactly the frames above 0.\<close>

lemma scan_index_range:
  assumes "1 \<le> lf" "lf < mf" "mf \<le> NFRAMES" "k < mf - 1"
  shows "1 \<le> scan_index mf lf k \<and> scan_index mf lf k < mf"
  using assms by (auto simp: scan_index_def pmm_sizes Let_def)

lemma scan_index_onto:
  assumes "1 \<le> lf" "lf < mf" "mf \<le> NFRAMES" "1 \<le> f" "f < mf"
  shows "\<exists>k < mf - 1. scan_index mf lf k = f"
proof (cases "lf \<le> f")
  case True
  then show ?thesis
    using assms by (intro exI [of _ "f - lf"]) (auto simp: scan_index_def pmm_sizes Let_def)
next
  case False
  then show ?thesis
    using assms
    by (intro exI [of _ "f + mf - 1 - lf"]) (auto simp: scan_index_def pmm_sizes Let_def)
qed

lemma scan_steps:
  assumes "1 < mf" "mf \<le> NFRAMES"
  shows "(mf + 2 ^ 64 - 1) mod 2 ^ 64 = mf - 1"
proof -
  obtain m where m: "mf = Suc m" using assms(1) by (cases mf) auto
  then have "m < 2 ^ 64" using assms(2) by (simp add: pmm_sizes)
  with m show ?thesis by simp
qed

subsection \<open>Allocating one page\<close>

lemma pmm_alloc_page_cases:
  assumes inv: "pmm_inv s" and mf: "0 < max_frames s" and run: "pmm_alloc_page s = (s', p)"
  obtains (oom) lf where "p = 0" "s' = s\<lparr>last_alloc_frame := lf\<rparr>"
      "\<And>f. 1 \<le> f \<Longrightarrow> f < max_frames s \<Longrightarrow> used_frame s f"
    | (page) f lf where "1 \<le> f" "f < max_frames s" "\<not> used_frame s f"
      "p = of_nat (f * PAGE_SIZE)"
      "s' = s\<lparr>memory_bitmap := bitmap_set (memory_bitmap s) f,
               frame_refcount := (frame_refcount s)[f := 1],
               used_memory := used_memory s + of_nat PAGE_SIZE, last_alloc_frame := lf\<rparr>"
proof (cases "max_frames s = 1")
  case True
  then have "pmm_alloc_page s = (s\<lparr>last_alloc_frame := 1\<rparr>, 0)"
    by (simp add: pmm_alloc_page_def Let_def)
  then show ?thesis using run True by (intro oom [of 1]) auto
next
  case False
  define lf where "lf = (let l = (if last_alloc_frame s < 1 then 1 else last_alloc_frame s)
    in if l \<ge> max_frames s then 1 else l)"
  have mf1: "1 < max_frames s" using mf False by simp
  have mfN: "max_frames s \<le> NFRAMES" by (rule pmm_invD(3) [OF inv])
  have lf: "1 \<le> lf" "lf < max_frames s" using mf1 by (auto simp: lf_def Let_def)
  let ?scan = "scan_page (memory_bitmap s) (max_frames s) lf 0 (max_frames s - 1)"
  have eq: "pmm_alloc_page s = (case ?scan of
      None \<Rightarrow> (s\<lparr>last_alloc_frame := lf\<rparr>, 0)
    | Some i \<Rightarrow> (s\<lparr>memory_bitmap := bitmap_set (memory_bitmap s) i,
                  frame_refcount := (frame_refcount s)[i := 1],
                  used_memory := used_memory s + of_nat PAGE_SIZE,
                  last_alloc_frame := (if i + 1 \<ge> max_frames s then 1 else i + 1)\<rparr>,
                of_nat (i * PAGE_SIZE)))"
    by (simp only: pmm_alloc_page_def Let_def lf_def scan_steps [OF mf1 mfN])
      (simp split: option.split)
  show ?thesis
  proof (cases ?scan)
    case None
    have "used_frame s f" if "1 \<le> f" "f < max_frames s" for f
      using scan_index_onto [OF lf mfN that] scan_page_None [OF None] by auto
    with None eq run show ?thesis by (intro oom [of lf]) auto
  next
    case (Some i)
    from scan_page_Some [OF Some] scan_index_range [OF lf mfN]
    have "1 \<le> i" "i < max_frames s" "\<not> used_frame s i" by auto
    with Some eq run show ?thesis
      by (intro page [of i "if i + 1 \<ge> max_frames s then 1 else i + 1"]) auto
  qed
qed

text \<open>
  C1. A page returned by \<^verbatim>\<open>pmm_alloc_page\<close> is a frame in \<open>[1, max_frames)\<close> that was free; it
  becomes used with reference count 1 and no other frame changes. The null result means that every
  frame above 0 was already used. The invariant (array sizes, exact accounting) is kept.
\<close>

theorem pmm_alloc_page_correct:
  assumes "pmm_inv s" and "0 < max_frames s" and "pmm_alloc_page s = (s', p)"
  shows "pmm_inv s' \<and> max_frames s' = max_frames s \<and>
    (if p = 0
     then (\<forall>f. 1 \<le> f \<and> f < max_frames s \<longrightarrow> used_frame s f) \<and>
          memory_bitmap s' = memory_bitmap s \<and> frame_refcount s' = frame_refcount s
     else \<exists>f. 1 \<le> f \<and> f < max_frames s \<and> \<not> used_frame s f \<and> unat p = f * PAGE_SIZE \<and>
          (\<forall>g. used_frame s' g = (g = f \<or> used_frame s g)) \<and>
          frame_refcount s' = (frame_refcount s)[f := 1])"
  using assms
proof (cases rule: pmm_alloc_page_cases)
  case (oom lf)
  with assms(1) show ?thesis by (simp add: pmm_inv_last)
next
  case (page f lf)
  note D = pmm_invD [OF assms(1)]
  have fN: "f < NFRAMES" using page(2) D(3) by simp
  have fb: "f < 8 * length (memory_bitmap s)" using page(2) D(4) by simp
  have p0: "p \<noteq> 0" using page(1,4) fN frame_addr_nonzero [of f] by simp
  have "unat p = f * PAGE_SIZE" using page(4) unat_frame_addr [OF fN] by simp
  moreover have "pmm_inv s'" using pmm_inv_take [OF assms(1) page(2,3)] by (simp add: page(5) pmm_inv_last)
  ultimately show ?thesis
    using p0 page(1-3) fb by (auto simp: page(5) pmm_bits.test_set intro!: exI [of _ f])
qed

subsection \<open>Allocating a contiguous run\<close>

lemma first_used_Some:
  "first_used bm start j n = Some k \<Longrightarrow> j \<le> k \<and> k < j + n \<and> bitmap_test bm (start + k)"
  by (induction bm start j n rule: first_used.induct) (auto split: if_splits)

lemma first_used_None:
  "first_used bm start j n = None \<Longrightarrow> j \<le> k \<Longrightarrow> k < j + n \<Longrightarrow> \<not> bitmap_test bm (start + k)"
proof (induction bm start j n rule: first_used.induct)
  case (2 bm start j n)
  then show ?case by (cases "k = j") (auto split: if_splits)
qed simp

declare find_run.simps [simp del]

definition run_free :: "u8 list \<Rightarrow> nat \<Rightarrow> nat \<Rightarrow> bool" where
  "run_free bm count r = (\<forall>j < count. \<not> bitmap_test bm (r + j))"

lemma find_run_Some:
  "find_run bm mf count start = Some r \<Longrightarrow>
     start \<le> r \<and> r + count \<le> mf \<and> run_free bm count r \<and>
     (\<forall>q. start \<le> q \<and> q < r \<longrightarrow> \<not> run_free bm count q)"
proof (induction bm mf count start rule: find_run.induct)
  case (1 bm mf count start)
  have le: "start + count \<le> mf" using "1.prems" by (subst (asm) find_run.simps) (simp split: if_splits)
  show ?case
  proof (cases "first_used bm start 0 count")
    case None
    then have "r = start" using "1.prems" le by (subst (asm) find_run.simps) simp
    with None le show ?thesis by (auto simp: run_free_def dest: first_used_None)
  next
    case (Some j)
    then have "find_run bm mf count (start + j + 1) = Some r"
      using "1.prems" le by (subst (asm) find_run.simps) simp
    note IH = "1.IH" [OF le Some this]
    have skip: "\<not> run_free bm count q" if "start \<le> q" "q < start + j + 1" for q
    proof -
      have "start + j - q < count" "q + (start + j - q) = start + j"
        using first_used_Some [OF Some] that by auto
      with first_used_Some [OF Some] show ?thesis unfolding run_free_def by metis
    qed
    show ?thesis using IH skip by (metis add_leD1 add.assoc not_less)
  qed
qed

lemma find_run_None:
  "find_run bm mf count start = None \<Longrightarrow> start \<le> q \<Longrightarrow> q + count \<le> mf \<Longrightarrow> \<not> run_free bm count q"
proof (induction bm mf count start rule: find_run.induct)
  case (1 bm mf count start)
  from "1.prems" have le: "start + count \<le> mf" by simp
  obtain j where j: "first_used bm start 0 count = Some j"
    using "1.prems"(1) le by (subst (asm) find_run.simps) (auto split: option.splits)
  then have rest: "find_run bm mf count (start + j + 1) = None"
    using "1.prems"(1) le by (subst (asm) find_run.simps) simp
  show ?case
  proof (cases "q < start + j + 1")
    case True
    then have "start + j - q < count" "q + (start + j - q) = start + j"
      using first_used_Some [OF j] "1.prems"(2) by auto
    with first_used_Some [OF j] show ?thesis unfolding run_free_def by metis
  next
    case False
    with "1.IH" [OF le j rest] "1.prems"(3) show ?thesis by simp
  qed
qed

text \<open>The naive first-fit search: try every start in order.\<close>

definition naive_run :: "u8 list \<Rightarrow> nat \<Rightarrow> nat \<Rightarrow> nat option" where
  "naive_run bm mf count = find (\<lambda>r. \<forall>j \<in> set [0..<count]. \<not> bitmap_test bm (r + j)) [1..<mf + 1 - count]"

text \<open>
  The search of \<^verbatim>\<open>pmm_alloc_blocks\<close>, which skips past the first used frame of a failed
  candidate, finds exactly the run that the naive first-fit search finds.
\<close>

theorem find_run_first_fit: "find_run bm mf count 1 = naive_run bm mf count"
proof -
  have eq: "(\<forall>j \<in> set [0..<count]. \<not> bitmap_test bm (r + j)) = run_free bm count r" for r
    by (auto simp: run_free_def)
  show ?thesis
  proof (cases "find_run bm mf count 1")
    case None
    then have "\<not> run_free bm count q" if "1 \<le> q" "q < mf + 1 - count" for q
      using find_run_None [OF None] that by auto
    then show ?thesis
      unfolding naive_run_def eq None by (auto simp: find_None_iff intro: sym)
  next
    case (Some r)
    note S = find_run_Some [OF Some]
    have "find (run_free bm count) ([1..<r] @ r # [r + 1..<mf + 1 - count]) = Some r"
      using S by (subst find_append_Cons) auto
    moreover have "[1..<mf + 1 - count] = [1..<r] @ r # [r + 1..<mf + 1 - count]"
      by (rule upt_append_cons) (use S in auto)
    ultimately show ?thesis
      unfolding naive_run_def eq Some by simp
  qed
qed

lemma take_run_frames:
  assumes "pmm_inv s" "start + n \<le> max_frames s" "run_free (memory_bitmap s) n start"
  shows "pmm_inv (take_run start n s) \<and> max_frames (take_run start n s) = max_frames s \<and>
    (\<forall>f. used_frame (take_run start n s) f = ((start \<le> f \<and> f < start + n) \<or> used_frame s f)) \<and>
    (\<forall>f < NFRAMES. frame_refcount (take_run start n s) ! f =
       (if start \<le> f \<and> f < start + n then 1 else frame_refcount s ! f))"
  using assms
proof (induction start n s rule: take_run.induct)
  case (2 start n s)
  let ?t = "s\<lparr>memory_bitmap := bitmap_set (memory_bitmap s) start,
          frame_refcount := (frame_refcount s)[start := 1],
          used_memory := used_memory s + of_nat PAGE_SIZE\<rparr>"
  note D = pmm_invD [OF "2.prems"(1)]
  have free: "\<not> used_frame s start" "\<And>j. j < n \<Longrightarrow> \<not> used_frame s (Suc start + j)"
    using "2.prems"(3) unfolding run_free_def by (metis add_0_right zero_less_Suc, force)
  have sb: "start < 8 * length (memory_bitmap s)" using "2.prems"(2) D(4) by simp
  have "pmm_inv ?t"
    using pmm_inv_take [OF "2.prems"(1) _ free(1), where rc = 1] "2.prems"(2) by simp
  moreover have "run_free (memory_bitmap ?t) n (Suc start)"
    using free(2) sb by (auto simp: run_free_def pmm_bits.test_set)
  ultimately have IH: "pmm_inv (take_run (Suc start) n ?t)"
    "max_frames (take_run (Suc start) n ?t) = max_frames s"
    "\<And>f. used_frame (take_run (Suc start) n ?t) f = ((Suc start \<le> f \<and> f < Suc start + n) \<or> used_frame ?t f)"
    "\<And>f. f < NFRAMES \<Longrightarrow> frame_refcount (take_run (Suc start) n ?t) ! f =
       (if Suc start \<le> f \<and> f < Suc start + n then 1 else frame_refcount ?t ! f)"
    using "2.IH" "2.prems"(2) by auto
  show ?case
    using IH(1,2) sb "2.prems"(2) D(2)
    by (auto simp: IH(3,4) pmm_bits.test_set nth_list_update)
qed auto

text \<open>
  C2. \<^verbatim>\<open>pmm_alloc_blocks\<close> for more than one page returns the start of a run of \<open>count\<close> frames, all of
  them free before and all of them used with reference count 1 after; it fails only if no such run
  exists below \<open>max_frames\<close>, and then nothing changes.
\<close>

theorem pmm_alloc_blocks_correct:
  assumes "pmm_inv s" and "1 < count" and "pmm_alloc_blocks count s = (s', p)"
  shows "pmm_inv s' \<and>
    (if p = 0
     then s' = s \<and> (\<forall>r. 1 \<le> r \<and> r + unat count \<le> max_frames s \<longrightarrow>
       \<not> run_free (memory_bitmap s) (unat count) r)
     else \<exists>r. 1 \<le> r \<and> r + unat count \<le> max_frames s \<and> unat p = r * PAGE_SIZE \<and>
       run_free (memory_bitmap s) (unat count) r \<and>
       (\<forall>f. used_frame s' f = ((r \<le> f \<and> f < r + unat count) \<or> used_frame s f)) \<and>
       (\<forall>f < NFRAMES. frame_refcount s' ! f =
          (if r \<le> f \<and> f < r + unat count then 1 else frame_refcount s ! f)))"
proof -
  have c: "count \<noteq> 0" "count \<noteq> 1" using assms(2) by auto
  have c0: "0 < unat count" using c(1) by (simp add: unat_gt_0)
  note D = pmm_invD [OF assms(1)]
  show ?thesis
  proof (cases "find_run (memory_bitmap s) (max_frames s) (unat count) 1")
    case None
    then have "s' = s" "p = 0" using assms(3) c by (auto simp: pmm_alloc_blocks_def)
    with assms(1) find_run_None [OF None] show ?thesis by auto
  next
    case (Some r)
    note S = find_run_Some [OF Some]
    have res: "s' = take_run r (unat count) s" "p = of_nat (r * PAGE_SIZE)"
      using assms(3) c Some by (auto simp: pmm_alloc_blocks_def)
    have rN: "0 < r" "r < NFRAMES" using S D(3) c0 by auto
    have "p \<noteq> 0" using frame_addr_nonzero [OF rN] res(2) by simp
    moreover have "unat p = r * PAGE_SIZE" using unat_frame_addr [OF rN(2)] res(2) by simp
    moreover note take_run_frames [OF assms(1), of r "unat count"]
    ultimately show ?thesis using S by (auto simp: res(1) intro!: exI [of _ r])
  qed
qed

subsection \<open>Releasing pages\<close>

lemma pmm_free_page_inv:
  assumes "pmm_inv s"
  shows "pmm_inv (pmm_free_page a s)"
  using assms pmm_inv_refcount [OF assms] pmm_inv_release [OF assms]
  by (auto simp: pmm_free_page_def Let_def)

text \<open>
  C3. \<^verbatim>\<open>pmm_free_page\<close> gives a frame back exactly when its last reference is dropped: while
  more references exist it only decrements the count, and freeing a frame whose count is 0 (a double
  free), frame 0 or a frame past the limit changes nothing.
\<close>

theorem pmm_free_page_last_reference:
  assumes "pmm_inv s" and "unat a div PAGE_SIZE = f"
  shows "pmm_inv (pmm_free_page a s) \<and>
    (f = 0 \<or> f \<ge> max_frames s \<or> frame_refcount s ! f = 0 \<longrightarrow> pmm_free_page a s = s) \<and>
    (0 < f \<and> f < max_frames s \<and> frame_refcount s ! f = 1 \<longrightarrow>
       (\<forall>g. used_frame (pmm_free_page a s) g = (g \<noteq> f \<and> used_frame s g)) \<and>
       frame_refcount (pmm_free_page a s) ! f = 0) \<and>
    (0 < f \<and> f < max_frames s \<and> 1 < frame_refcount s ! f \<longrightarrow>
       memory_bitmap (pmm_free_page a s) = memory_bitmap s \<and>
       frame_refcount (pmm_free_page a s) ! f = frame_refcount s ! f - 1)"
proof -
  note D = pmm_invD [OF assms(1)]
  have fb: "f < max_frames s \<Longrightarrow> f < 8 * length (memory_bitmap s)" using D(4) by simp
  have fl: "f < max_frames s \<Longrightarrow> f < length (frame_refcount s)" using D(2,3) by simp
  have "pmm_inv (pmm_free_page a s)" by (rule pmm_free_page_inv [OF assms(1)])
  moreover have "f = 0 \<or> f \<ge> max_frames s \<or> frame_refcount s ! f = 0 \<longrightarrow> pmm_free_page a s = s"
    using assms(2) by (auto simp: pmm_free_page_def Let_def)
  moreover have "0 < f \<and> f < max_frames s \<and> frame_refcount s ! f = 1 \<longrightarrow>
       (\<forall>g. used_frame (pmm_free_page a s) g = (g \<noteq> f \<and> used_frame s g)) \<and>
       frame_refcount (pmm_free_page a s) ! f = 0"
    using assms(2) D(6) [of f] fb fl by (auto simp: pmm_free_page_def Let_def pmm_bits.test_clear)
  moreover have "0 < f \<and> f < max_frames s \<and> 1 < frame_refcount s ! f \<longrightarrow>
       memory_bitmap (pmm_free_page a s) = memory_bitmap s \<and>
       frame_refcount (pmm_free_page a s) ! f = frame_refcount s ! f - 1"
    using assms(2) D(6) [of f] fl by (auto simp: pmm_free_page_def Let_def gt_one_nonzero)
  ultimately show ?thesis by blast
qed

subsection \<open>Reference counting\<close>

lemma pmm_incref_inv:
  "pmm_inv s \<Longrightarrow> used_frame s (unat a div PAGE_SIZE) \<Longrightarrow> pmm_inv (pmm_incref a s)"
  by (auto simp: pmm_incref_def Let_def intro: pmm_inv_refcount)

lemma pmm_decref_inv:
  assumes "pmm_inv s"
  shows "pmm_inv (fst (pmm_decref a s))"
  using assms pmm_inv_refcount [OF assms] pmm_inv_release' [OF assms] pmm_invD(6) [OF assms]
  by (auto simp: pmm_decref_def Let_def)

text \<open>A frame \<open>f\<close> that is shared \<open>n + 1\<close> times.\<close>

definition shared :: "nat \<Rightarrow> nat \<Rightarrow> pmm \<Rightarrow> bool" where
  "shared f n s \<longleftrightarrow> pmm_inv s \<and> 0 < f \<and> f < max_frames s \<and> used_frame s f \<and>
     unat (frame_refcount s ! f) = Suc n"

lemma shared_incref:
  assumes "shared f n s" "unat a div PAGE_SIZE = f" "Suc n < 2 ^ 32 - 1"
  shows "shared f (Suc n) (pmm_incref a s)"
proof -
  have fl: "f < length (frame_refcount s)"
    using assms(1) pmm_invD(2,3) by (fastforce simp: shared_def)
  have "unat (frame_refcount s ! f + 1) = Suc (Suc n)"
    using assms(1,3) by (simp add: shared_def unat_word_ariths)
  then show ?thesis
    using assms(1,2) fl pmm_incref_inv [of s a]
    by (auto simp: shared_def pmm_incref_def Let_def)
qed

lemma shared_decref:
  assumes "shared f (Suc n) s" "unat a div PAGE_SIZE = f"
  shows "shared f n (fst (pmm_decref a s))"
proof -
  have fl: "f < length (frame_refcount s)"
    using assms(1) pmm_invD(2,3) by (fastforce simp: shared_def)
  have rc: "unat (frame_refcount s ! f) = Suc (Suc n)" using assms(1) by (simp add: shared_def)
  then have nz: "frame_refcount s ! f \<noteq> 0" by auto
  then have dec: "unat (frame_refcount s ! f - 1) = Suc n" using rc by (simp add: unat_minus_one)
  then have "frame_refcount s ! f - 1 \<noteq> 0" by (metis unat_0 Zero_not_Suc)
  then show ?thesis
    using assms fl dec nz pmm_decref_inv [of s a]
    by (auto simp: shared_def pmm_decref_def Let_def)
qed

lemma shared_last_decref:
  assumes "shared f 0 s" "unat a div PAGE_SIZE = f"
  shows "\<not> used_frame (fst (pmm_decref a s)) f \<and> snd (pmm_decref a s) = 0"
proof -
  have "unat (frame_refcount s ! f) = unat (1 :: u32)" using assms(1) by (simp add: shared_def)
  then have rc: "frame_refcount s ! f = 1" by (simp only: word_unat_eq_iff)
  have "f < 8 * length (memory_bitmap s)"
    using assms(1) pmm_invD(4) [of s] by (auto simp: shared_def)
  then show ?thesis
    using assms rc by (auto simp: shared_def pmm_decref_def Let_def pmm_bits.test_clear)
qed

lemma shared_increfs:
  "shared f 0 s \<Longrightarrow> unat a div PAGE_SIZE = f \<Longrightarrow> n < 2 ^ 32 - 1 \<Longrightarrow> shared f n ((pmm_incref a ^^ n) s)"
  by (induction n) (auto intro: shared_incref)

lemma shared_decrefs:
  "shared f n s \<Longrightarrow> unat a div PAGE_SIZE = f \<Longrightarrow> k \<le> n \<Longrightarrow>
     shared f (n - k) (((\<lambda>s. fst (pmm_decref a s)) ^^ k) s)"
proof (induction k)
  case (Suc k)
  then have "shared f (Suc (n - Suc k)) (((\<lambda>s. fst (pmm_decref a s)) ^^ k) s)"
    by (simp add: Suc_diff_Suc)
  from shared_decref [OF this Suc.prems(2)] show ?case by simp
qed simp

text \<open>
  Copy-on-write sharing: a frame with one reference that is shared \<open>n\<close> more times by
  \<^verbatim>\<open>pmm_incref\<close> stays allocated through \<open>n\<close> calls of \<^verbatim>\<open>pmm_decref\<close> and is released by the
  next one, for every \<open>n\<close> the 32-bit count can hold.
\<close>

theorem pmm_share_then_release:
  assumes "pmm_inv s" and "unat a div PAGE_SIZE = f" and "0 < f" and "f < max_frames s"
    and "frame_refcount s ! f = 1" and "n < 2 ^ 32 - 1" and "k \<le> n"
  shows "used_frame (((\<lambda>s. fst (pmm_decref a s)) ^^ k) ((pmm_incref a ^^ n) s)) f \<and>
    \<not> used_frame (((\<lambda>s. fst (pmm_decref a s)) ^^ Suc n) ((pmm_incref a ^^ n) s)) f"
proof -
  have "shared f 0 s"
    using assms pmm_invD(6) [OF assms(1,4)] by (simp add: shared_def)
  from shared_increfs [OF this assms(2,6)] have up: "shared f n ((pmm_incref a ^^ n) s)" .
  have "shared f (n - k) (((\<lambda>s. fst (pmm_decref a s)) ^^ k) ((pmm_incref a ^^ n) s))"
    by (rule shared_decrefs [OF up assms(2,7)])
  moreover have "shared f 0 (((\<lambda>s. fst (pmm_decref a s)) ^^ n) ((pmm_incref a ^^ n) s))"
    using shared_decrefs [OF up assms(2), of n] by simp
  ultimately show ?thesis
    using shared_last_decref [OF _ assms(2)] by (auto simp: shared_def)
qed

subsection \<open>Boot\<close>

lemma mark_frame_inv:
  assumes inv: "pmm_inv s" and f: "f < max_frames s" and rc: "used \<or> frame_refcount s ! f = 0"
  shows "pmm_inv (mark_frame used f s)"
proof (cases "used = used_frame s f")
  case True
  then show ?thesis using inv by (auto simp: mark_frame_def)
next
  case False
  show ?thesis
  proof (cases used)
    case True
    then show ?thesis
      using False pmm_inv_take [OF inv f, where rc = "frame_refcount s ! f"]
      by (simp add: mark_frame_def)
  next
    case unmark: False
    then have "(frame_refcount s)[f := 0] = frame_refcount s" using rc by (metis list_update_id)
    then show ?thesis
      using False unmark pmm_inv_release [OF inv f] by (simp add: mark_frame_def)
  qed
qed

lemma mark_frame_used:
  "f < 8 * length (memory_bitmap s) \<Longrightarrow>
     used_frame (mark_frame used f s) g = (if g = f then used else used_frame s g)"
  by (auto simp: mark_frame_def Let_def pmm_bits.test_set pmm_bits.test_clear)

lemma mark_frame_frame [frame_simps]:
  "max_frames (mark_frame used f s) = max_frames s"
  "frame_refcount (mark_frame used f s) = frame_refcount s"
  "total_memory (mark_frame used f s) = total_memory s"
  by (simp_all add: mark_frame_def Let_def)

lemma mark_loop_frame [frame_simps]:
  "max_frames (mark_loop used f n s) = max_frames s \<and>
   frame_refcount (mark_loop used f n s) = frame_refcount s"
  by (induction used f n s rule: mark_loop.induct) (auto simp: frame_simps)

lemma mark_loop_last: "last_alloc_frame (mark_loop used f n s) = last_alloc_frame s"
  by (induction used f n s rule: mark_loop.induct) (auto simp: mark_frame_def Let_def)

lemma mark_loop_inv:
  assumes "pmm_inv s"
    and "used \<or> (\<forall>g. f \<le> g \<and> g < f + n \<and> g < max_frames s \<longrightarrow> frame_refcount s ! g = 0)"
  shows "pmm_inv (mark_loop used f n s)"
  using assms
proof (induction used f n s rule: mark_loop.induct)
  case (2 used f n s)
  show ?case
  proof (cases "f \<ge> max_frames s")
    case False
    then have "pmm_inv (mark_frame used f s)" using "2.prems" by (intro mark_frame_inv) auto
    moreover have "used \<or> (\<forall>g. Suc f \<le> g \<and> g < Suc f + n \<and> g < max_frames (mark_frame used f s) \<longrightarrow>
        frame_refcount (mark_frame used f s) ! g = 0)"
      using "2.prems"(2) by (auto simp: frame_simps)
    ultimately show ?thesis using "2.IH" [OF False] False by simp
  qed (use "2.prems" in simp)
qed simp

lemma mark_loop_used:
  "max_frames s \<le> 8 * length (memory_bitmap s) \<Longrightarrow>
     used_frame (mark_loop used f n s) g =
       (if f \<le> g \<and> g < f + n \<and> g < max_frames s then used else used_frame s g)"
proof (induction used f n s rule: mark_loop.induct)
  case (2 used f n s)
  have "length (memory_bitmap (mark_frame used f s)) = length (memory_bitmap s)"
    by (auto simp: mark_frame_def Let_def pmm_bits.length_set pmm_bits.length_clear)
  with 2 show ?case
    by (cases "f \<ge> max_frames s") (auto simp: mark_frame_used frame_simps)
qed auto

lemma all_used_initially:
  assumes "b < 8 * n"
  shows "bitmap_test (replicate n 0xFF) b"
proof -
  have "bit (mask 8 :: u8) (b mod 8)" unfolding bit_mask_iff by simp
  moreover have "(mask 8 :: u8) = 0xFF" by (simp add: mask_eq_exp_minus_1)
  ultimately have set: "bit (0xFF :: u8) (b mod 8)" by (simp only:)
  have byte: "replicate n (0xFF :: u8) ! (b div 8) = 0xFF" using assms by simp
  show ?thesis unfolding bitmap_test_bit byte by (rule set)
qed

lemma pmm_set_limits_inv:
  assumes "memory_bitmap s = replicate BITMAP_SIZE 0xFF" "frame_refcount s = replicate NFRAMES 0"
  shows "pmm_inv (pmm_set_limits tm 0 s)"
proof -
  define c where "c = (if tm > of_nat MAX_RAM_SIZE then of_nat MAX_RAM_SIZE else tm)"
  define t where "t = align_down c (of_nat PAGE_SIZE)"
  have "t \<le> c" unfolding t_def align_down_def by (rule word_and_le2)
  also have "c \<le> of_nat MAX_RAM_SIZE" by (auto simp: c_def)
  finally have "unat t \<le> MAX_RAM_SIZE"
    by (simp add: word_le_nat_alt pmm_sizes)
  then have mf: "unat (t div of_nat PAGE_SIZE) \<le> NFRAMES"
    by (simp add: unat_div pmm_sizes)
  have "{j. j < unat (t div of_nat PAGE_SIZE) \<and> bitmap_test (replicate BITMAP_SIZE 0xFF) j} =
      {..<unat (t div of_nat PAGE_SIZE)}"
    using mf by (auto intro!: all_used_initially simp: pmm_sizes)
  then have all: "pmm_bits.used_bits (replicate BITMAP_SIZE 0xFF) (unat (t div of_nat PAGE_SIZE)) =
      unat (t div of_nat PAGE_SIZE)"
    by (simp add: pmm_bits.used_bits_def)
  have "pmm_set_limits tm 0 s =
      s\<lparr>total_memory := t, max_frames := unat (t div of_nat PAGE_SIZE),
        used_memory := t div of_nat PAGE_SIZE * of_nat PAGE_SIZE\<rparr>"
    by (simp add: pmm_set_limits_def t_def c_def Let_def)
  then show ?thesis
    using assms mf by (simp add: pmm_inv_def all mult.commute)
qed


subsection \<open>The interface to clients\<close>

definition pmm_refs :: "pmm \<Rightarrow> u32 \<Rightarrow> nat" where
  "pmm_refs s p =
     (let f = unat p div PAGE_SIZE in
      if unat p = f * PAGE_SIZE \<and> 0 < f \<and> f < max_frames s then unat (frame_refcount s ! f) else 0)"

definition pmm_ready :: "pmm \<Rightarrow> bool" where
  "pmm_ready s \<longleftrightarrow> pmm_inv s \<and> 0 < max_frames s"

lemma unat_minus_one_pos: "0 < unat (w :: u32) \<Longrightarrow> unat (w - 1) = unat w - 1"
  by (metis unat_0 less_irrefl unat_minus_one)

lemma pmm_refs_update:
  assumes inv: "pmm_inv s" and p: "unat p = f * PAGE_SIZE" "0 < f" "f < max_frames s"
    and s': "frame_refcount s' = (frame_refcount s)[f := rc]" "max_frames s' = max_frames s"
  shows "pmm_refs s' = (pmm_refs s)(p := unat rc)"
proof
  fix q
  have fl: "f < length (frame_refcount s)" using pmm_invD(2,3) [OF inv] p(3) by simp
  show "pmm_refs s' q = ((pmm_refs s)(p := unat rc)) q"
  proof (cases "q = p")
    case True
    then show ?thesis using p fl by (simp add: pmm_refs_def s' Let_def PAGE_SIZE_def)
  next
    case False
    then have "unat q = unat q div PAGE_SIZE * PAGE_SIZE \<Longrightarrow> unat q div PAGE_SIZE \<noteq> f"
      using p(1) by (metis word_unat_eq_iff)
    with False show ?thesis by (auto simp: pmm_refs_def s' Let_def)
  qed
qed

interpretation pmm_frames: frame_allocator pmm_ready pmm_refs pmm_alloc_page pmm_free_page
proof unfold_locales
  fix s
  show "pmm_refs s 0 = 0" by (simp add: pmm_refs_def)
next
  fix s s' p
  assume rd: "pmm_ready s" and run: "pmm_alloc_page s = (s', p)"
  then have inv: "pmm_inv s" "0 < max_frames s" by (auto simp: pmm_ready_def)
  from inv run show "pmm_ready s'"
    by (cases rule: pmm_alloc_page_cases) (auto simp: pmm_ready_def pmm_inv_last inv pmm_inv_take)
  assume p: "p \<noteq> 0"
  from inv run show "pmm_refs s p = 0 \<and> pmm_refs s' = (pmm_refs s)(p := 1)"
  proof (cases rule: pmm_alloc_page_cases)
    case (page f lf)
    have rc: "frame_refcount s ! f = 0" using pmm_invD(6) [OF inv(1) page(2)] page(3) by blast
    have "f < NFRAMES" using page(2) pmm_invD(3) [OF inv(1)] by simp
    then have addr: "unat p = f * PAGE_SIZE" using page(4) unat_frame_addr by simp
    then have "pmm_refs s p = 0" using rc by (simp add: pmm_refs_def PAGE_SIZE_def)
    moreover have "pmm_refs s' = (pmm_refs s)(p := unat (1 :: u32))"
      by (rule pmm_refs_update [OF inv(1) addr]) (use page in auto)
    ultimately show ?thesis by simp
  qed (use p in simp)
next
  fix s s'
  assume "pmm_ready s" "pmm_alloc_page s = (s', 0)"
  then have inv: "pmm_inv s" "0 < max_frames s" and run: "pmm_alloc_page s = (s', 0)"
    by (auto simp: pmm_ready_def)
  from inv run show "pmm_refs s' = pmm_refs s"
  proof (cases rule: pmm_alloc_page_cases)
    case (page f lf)
    have "f < NFRAMES" using page(2) pmm_invD(3) [OF inv(1)] by simp
    then show ?thesis using frame_addr_nonzero [of f] page(1,4) by simp
  qed (auto simp: pmm_refs_def fun_eq_iff Let_def)
next
  fix s p
  have "max_frames (pmm_free_page p s) = max_frames s" by (simp add: pmm_free_page_def Let_def)
  then show "pmm_ready s \<Longrightarrow> pmm_ready (pmm_free_page p s)"
    by (simp add: pmm_ready_def pmm_free_page_inv)
next
  fix s p
  assume rd: "pmm_ready s" and pos: "0 < pmm_refs s p"
  define f where "f = unat p div PAGE_SIZE"
  have f: "unat p = f * PAGE_SIZE" "0 < f" "f < max_frames s"
    and rc: "pmm_refs s p = unat (frame_refcount s ! f)"
    using pos by (auto simp: pmm_refs_def f_def Let_def split: if_splits)
  have inv: "pmm_inv s" using rd by (simp add: pmm_ready_def)
  have nz: "frame_refcount s ! f \<noteq> 0" using pos rc by auto
  have used: "used_frame s f" using pmm_invD(6) [OF inv f(3) nz] .
  have rc': "frame_refcount (pmm_free_page p s) = (frame_refcount s)[f := frame_refcount s ! f - 1]"
  proof (cases "frame_refcount s ! f > 1")
    case True
    then show ?thesis using f(2,3) nz used by (simp add: pmm_free_page_def Let_def flip: f_def)
  next
    case False
    then have "frame_refcount s ! f = 1" using nz by (intro word_eq_one)
    then show ?thesis using f(2,3) nz used by (simp add: pmm_free_page_def Let_def flip: f_def)
  qed
  have "max_frames (pmm_free_page p s) = max_frames s" by (simp add: pmm_free_page_def Let_def)
  from pmm_refs_update [OF inv f rc' this] pos rc
  show "pmm_refs (pmm_free_page p s) = (pmm_refs s)(p := pmm_refs s p - 1)"
    by (simp add: unat_minus_one_pos)
qed

definition pmm_avail :: "pmm \<Rightarrow> u32 set" where
  "pmm_avail s = {p. p AND 0xFFF = 0 \<and> p \<noteq> 0 \<and> unat p div PAGE_SIZE < max_frames s \<and> \<not> used_frame s (unat p div PAGE_SIZE)}"

lemma page_aligned_unat: "(p :: u32) AND 0xFFF = 0 \<longleftrightarrow> unat p mod PAGE_SIZE = 0"
proof -
  have "(0xFFF :: u32) = mask 12" by (simp add: mask_eq_exp_minus_1)
  then have "p AND 0xFFF = take_bit 12 p" by (simp only: take_bit_eq_mask)
  then have "unat (p AND 0xFFF) = unat p mod PAGE_SIZE" by (simp add: take_bit_eq_mod unat_mod_distrib PAGE_SIZE_def)
  then show ?thesis by (metis unat_eq_zero)
qed

lemma page_avail_frame:
  assumes "f < NFRAMES" "1 \<le> f" "p = of_nat (f * PAGE_SIZE)"
  shows "p \<in> pmm_avail s \<longleftrightarrow> f < max_frames s \<and> \<not> used_frame s f"
proof -
  have "unat p = f * PAGE_SIZE" using assms unat_frame_addr by simp
  moreover from this have "p \<noteq> 0" using assms(2) by (auto simp: PAGE_SIZE_def)
  ultimately show ?thesis by (simp add: pmm_avail_def page_aligned_unat PAGE_SIZE_def)
qed

lemma page_of_frame:
  "(q :: u32) AND 0xFFF = 0 \<Longrightarrow> unat q div PAGE_SIZE = unat p div PAGE_SIZE \<Longrightarrow> p AND 0xFFF = 0 \<Longrightarrow> q = p"
  by (metis page_aligned_unat mult_div_mod_eq word_unat_eq_iff)

interpretation pmm_shared: frame_sharing pmm_ready pmm_refs pmm_alloc_page pmm_free_page pmm_avail pmm_incref "\<lambda>p s. fst (pmm_decref p s)"
proof unfold_locales
  fix s p
  show "p \<in> pmm_avail s \<Longrightarrow> p AND 0xFFF = 0 \<and> p \<noteq> 0" by (simp add: pmm_avail_def)
next
  fix s s' p
  assume "pmm_ready s" and run: "pmm_alloc_page s = (s', p)" and p: "p \<noteq> 0"
  then have inv: "pmm_inv s" "0 < max_frames s" by (auto simp: pmm_ready_def)
  from inv run show "p \<in> pmm_avail s \<and> pmm_avail s' = pmm_avail s - {p}"
  proof (cases rule: pmm_alloc_page_cases)
    case (page f lf)
    have fN: "f < NFRAMES" using page(2) pmm_invD(3) [OF inv(1)] by simp
    have fb: "f < 8 * length (memory_bitmap s)" using page(2) pmm_invD(4) [OF inv(1)] by simp
    have mem: "p \<in> pmm_avail s" using page_avail_frame [OF fN page(1,4)] page(2,3) by simp
    have up: "unat p div PAGE_SIZE = f" using page(4) unat_frame_addr [OF fN] by (simp add: PAGE_SIZE_def)
    have "q \<in> pmm_avail s' \<longleftrightarrow> q \<in> pmm_avail s \<and> q \<noteq> p" for q
      using page_of_frame [of q p] mem fb up by (auto simp: pmm_avail_def page(5) pmm_bits.test_set)
    then show ?thesis using mem by auto
  qed (use p in simp)
next
  fix s s'
  assume "pmm_ready s" and run: "pmm_alloc_page s = (s', 0)"
  then have inv: "pmm_inv s" "0 < max_frames s" by (auto simp: pmm_ready_def)
  from inv run show "pmm_avail s = {} \<and> pmm_avail s' = {}"
  proof (cases rule: pmm_alloc_page_cases)
    case (oom lf)
    have "unat q div PAGE_SIZE \<ge> 1" if "q AND 0xFFF = 0" "q \<noteq> 0" for q :: u32
      using that by (auto simp: page_aligned_unat PAGE_SIZE_def Suc_le_eq div_greater_zero_iff mod_eq_0_iff_dvd dvd_imp_le unat_gt_0)
    then show ?thesis using oom(2,3) by (auto simp: pmm_avail_def)
  next
    case (page f lf)
    have "f < NFRAMES" using page(2) pmm_invD(3) [OF inv(1)] by simp
    then show ?thesis using frame_addr_nonzero [of f] page(1,4) by simp
  qed
next
  fix s p
  assume rd: "pmm_ready s" and pos: "0 < pmm_refs s p" and lim: "pmm_refs s p < 2 ^ 32 - 1"
  define f where "f = unat p div PAGE_SIZE"
  have f: "unat p = f * PAGE_SIZE" "0 < f" "f < max_frames s" and rc: "pmm_refs s p = unat (frame_refcount s ! f)"
    using pos by (auto simp: pmm_refs_def f_def Let_def split: if_splits)
  have inv: "pmm_inv s" using rd by (simp add: pmm_ready_def)
  have "frame_refcount s ! f \<noteq> 0" using pos rc by auto
  then have used: "used_frame s f" by (rule pmm_invD(6) [OF inv f(3)])
  have eq: "pmm_incref p s = s\<lparr>frame_refcount := (frame_refcount s)[f := frame_refcount s ! f + 1]\<rparr>"
    using f(2,3) by (simp add: pmm_incref_def Let_def flip: f_def)
  have "unat (frame_refcount s ! f + 1) = Suc (unat (frame_refcount s ! f))"
    using lim rc by (simp add: unat_word_ariths)
  then show "pmm_ready (pmm_incref p s) \<and> pmm_refs (pmm_incref p s) = (pmm_refs s)(p := Suc (pmm_refs s p)) \<and>
      pmm_avail (pmm_incref p s) = pmm_avail s"
    using pmm_incref_inv [OF inv, of p] used pmm_refs_update [OF inv f, of "pmm_incref p s"] rd rc
    by (auto simp: eq pmm_ready_def pmm_avail_def f_def)
next
  fix s p
  assume rd: "pmm_ready s" and pos: "1 < pmm_refs s p"
  define f where "f = unat p div PAGE_SIZE"
  have f: "unat p = f * PAGE_SIZE" "0 < f" "f < max_frames s" and rc: "pmm_refs s p = unat (frame_refcount s ! f)"
    using pos by (auto simp: pmm_refs_def f_def Let_def split: if_splits)
  have inv: "pmm_inv s" using rd by (simp add: pmm_ready_def)
  have nz: "frame_refcount s ! f \<noteq> 0" using pos rc by auto
  have m1: "unat (frame_refcount s ! f - 1) = pmm_refs s p - 1" using pos rc by (simp add: unat_minus_one_pos)
  then have "frame_refcount s ! f - 1 \<noteq> 0" using pos by auto
  then have eq: "fst (pmm_decref p s) = s\<lparr>frame_refcount := (frame_refcount s)[f := frame_refcount s ! f - 1]\<rparr>"
    using f(2,3) nz by (simp add: pmm_decref_def Let_def flip: f_def)
  then show "pmm_ready (fst (pmm_decref p s)) \<and> pmm_refs (fst (pmm_decref p s)) = (pmm_refs s)(p := pmm_refs s p - 1) \<and>
      pmm_avail (fst (pmm_decref p s)) = pmm_avail s"
    using pmm_decref_inv [OF inv, of p] pmm_refs_update [OF inv f, of "fst (pmm_decref p s)"] rd m1
    by (auto simp: pmm_ready_def pmm_avail_def)
next
  fix s p
  assume rd: "pmm_ready s" and pos: "0 < pmm_refs s p"
  define f where "f = unat p div PAGE_SIZE"
  have f: "unat p = f * PAGE_SIZE" "0 < f" "f < max_frames s" and rc: "pmm_refs s p = unat (frame_refcount s ! f)"
    using pos by (auto simp: pmm_refs_def f_def Let_def split: if_splits)
  have inv: "pmm_inv s" using rd by (simp add: pmm_ready_def)
  have nz: "frame_refcount s ! f \<noteq> 0" using pos rc by auto
  have used: "used_frame s f" using pmm_invD(6) [OF inv f(3) nz] .
  have fb: "f < 8 * length (memory_bitmap s)" using f(3) pmm_invD(4) [OF inv] by simp
  have al: "p AND 0xFFF = 0" "p \<noteq> 0" using f by (auto simp: page_aligned_unat PAGE_SIZE_def)
  show "pmm_avail (pmm_free_page p s) = (if pmm_refs s p = 1 then insert p (pmm_avail s) else pmm_avail s)"
  proof (cases "frame_refcount s ! f > 1")
    case True
    then have "pmm_refs s p \<noteq> 1" using rc by (auto simp: word_less_nat_alt)
    then show ?thesis using True f(2,3) nz used by (simp add: pmm_free_page_def Let_def pmm_avail_def flip: f_def)
  next
    case False
    then have one: "frame_refcount s ! f = 1" using nz by (intro word_eq_one)
    then have eq: "pmm_free_page p s = s\<lparr>memory_bitmap := bitmap_unset (memory_bitmap s) f,
        frame_refcount := (frame_refcount s)[f := 0], used_memory := used_memory s - of_nat PAGE_SIZE\<rparr>"
      using f(2,3) used by (simp add: pmm_free_page_def Let_def flip: f_def)
    have "q \<in> pmm_avail (pmm_free_page p s) \<longleftrightarrow> q = p \<or> q \<in> pmm_avail s" for q
      using page_of_frame [of q p] al f(3) fb by (auto simp: eq pmm_avail_def pmm_bits.test_clear f_def)
    then show ?thesis using one rc by auto
  qed
qed

subsection \<open>Concrete runs\<close>

text \<open>A machine with 16 MB, all of it reserved but the frames 2, 3 and 4.\<close>

definition pmm_demo :: pmm where
  "pmm_demo = pmm_mark_region 0x2000 0x3000 False
     (pmm_set_limits 0x1000000 0 (pmm_statics\<lparr>memory_bitmap := replicate BITMAP_SIZE 0xFF\<rparr>))"

lemma pmm_demo_base:
  "pmm_inv (pmm_set_limits 0x1000000 0 (pmm_statics\<lparr>memory_bitmap := replicate BITMAP_SIZE 0xFF\<rparr>))"
  by (rule pmm_set_limits_inv) (simp_all add: pmm_statics_def NFRAMES_def)

lemma pmm_demo_max: "max_frames pmm_demo = 4096"
  by (simp add: pmm_demo_def pmm_mark_region_def Let_def mark_loop_frame pmm_set_limits_def
      align_down_def pmm_sizes)

lemma pmm_demo_refcount: "frame_refcount pmm_demo = replicate NFRAMES 0"
  by (simp add: pmm_demo_def pmm_mark_region_def Let_def mark_loop_frame pmm_set_limits_def
      pmm_statics_def NFRAMES_def)

lemma pmm_demo_inv: "pmm_inv pmm_demo"
  unfolding pmm_demo_def pmm_mark_region_def Let_def
  by (rule mark_loop_inv [OF pmm_demo_base])
    (simp add: pmm_set_limits_def pmm_statics_def Let_def align_down_def pmm_sizes)

lemma pmm_demo_used: "used_frame pmm_demo f = (f \<notin> {2, 3, 4} \<and> f < 131072)" if "f < 4096"
proof -
  have "used_frame pmm_demo f =
      (if 2 \<le> f \<and> f < 5 \<and> f < 4096 then False else bitmap_test (replicate BITMAP_SIZE 0xFF) f)"
    unfolding pmm_demo_def pmm_mark_region_def Let_def
    by (subst mark_loop_used [OF pmm_invD(4) [OF pmm_demo_base]])
      (simp add: pmm_set_limits_def pmm_statics_def Let_def align_down_def pmm_sizes)
  moreover have "bitmap_test (replicate BITMAP_SIZE 0xFF) f"
    by (rule all_used_initially) (use that in \<open>simp add: pmm_sizes\<close>)
  ultimately show ?thesis using that by auto
qed

lemma pmm_demo_last: "last_alloc_frame pmm_demo = 1"
  by (simp add: pmm_demo_def pmm_mark_region_def Let_def mark_loop_last pmm_set_limits_def
      pmm_statics_def)

lemma pmm_demo_find: "find_run (memory_bitmap pmm_demo) 4096 2 1 = Some 2"
  by (subst find_run.simps, simp add: pmm_demo_used numeral_2_eq_2,
      subst find_run.simps, simp add: pmm_demo_used numeral_2_eq_2 numeral_3_eq_3)

lemma scan_page_unfold:
  "0 < n \<Longrightarrow> scan_page bm mf lf k n =
     (let i = scan_index mf lf k in
      if \<not> bitmap_test bm i then Some i else scan_page bm mf lf (Suc k) (n - 1))"
  by (cases n) (simp_all add: Let_def)

lemma pmm_demo_alloc:
  "snd (pmm_alloc_page pmm_demo) = 0x2000"
  "frame_refcount (fst (pmm_alloc_page pmm_demo)) = (replicate NFRAMES 0)[2 := 1]"
  "max_frames (fst (pmm_alloc_page pmm_demo)) = 4096"
proof -
  have "scan_page (memory_bitmap pmm_demo) 4096 1 0 4095 = Some 2"
    by (subst scan_page_unfold, simp, subst scan_page_unfold)
      (simp_all add: scan_index_def pmm_demo_used Let_def)
  then show "snd (pmm_alloc_page pmm_demo) = 0x2000"
    "frame_refcount (fst (pmm_alloc_page pmm_demo)) = (replicate NFRAMES 0)[2 := 1]"
    "max_frames (fst (pmm_alloc_page pmm_demo)) = 4096"
    by (simp_all add: pmm_alloc_page_def pmm_demo_max pmm_demo_last pmm_demo_refcount PAGE_SIZE_def Let_def)
qed

theorem pmm_alloc_page_correct_witness:
  "pmm_inv pmm_demo \<and> 0 < max_frames pmm_demo \<and> snd (pmm_alloc_page pmm_demo) = 0x2000 \<and>
   pmm_inv (fst (pmm_alloc_page pmm_demo))"
  using pmm_alloc_page_correct [OF pmm_demo_inv _ prod.collapse [symmetric]]
  by (simp add: pmm_demo_max pmm_demo_inv pmm_demo_alloc)

theorem pmm_alloc_blocks_correct_witness:
  "pmm_inv pmm_demo \<and> snd (pmm_alloc_blocks 2 pmm_demo) = 0x2000 \<and>
   pmm_inv (fst (pmm_alloc_blocks 2 pmm_demo))"
proof -
  have "snd (pmm_alloc_blocks 2 pmm_demo) = 0x2000"
    using pmm_demo_find by (simp add: pmm_alloc_blocks_def pmm_demo_max PAGE_SIZE_def)
  then show ?thesis
    using pmm_alloc_blocks_correct [OF pmm_demo_inv _ prod.collapse [symmetric], of 2]
    by (simp add: pmm_demo_inv)
qed

theorem pmm_free_page_last_reference_witness:
  "pmm_inv pmm_demo \<and> unat (0x5000 :: u32) div PAGE_SIZE = 5 \<and>
   pmm_free_page 0x5000 pmm_demo = pmm_demo"
  using pmm_free_page_last_reference [OF pmm_demo_inv, of "0x5000" 5]
  by (simp add: pmm_demo_inv pmm_demo_refcount PAGE_SIZE_def pmm_sizes)

theorem pmm_share_then_release_witness:
  "let s = fst (pmm_alloc_page pmm_demo) in
   pmm_inv s \<and> frame_refcount s ! 2 = 1 \<and>
   \<not> used_frame (((\<lambda>s. fst (pmm_decref 0x2000 s)) ^^ Suc 3) ((pmm_incref 0x2000 ^^ 3) s)) 2"
proof -
  have "pmm_ready (fst (pmm_alloc_page pmm_demo))"
    by (rule pmm_frames.al_inv [OF _ prod.collapse [symmetric]])
      (simp add: pmm_ready_def pmm_demo_inv pmm_demo_max)
  then have inv: "pmm_inv (fst (pmm_alloc_page pmm_demo))" by (simp add: pmm_ready_def)
  have rc: "frame_refcount (fst (pmm_alloc_page pmm_demo)) ! 2 = 1"
    by (simp add: pmm_demo_alloc pmm_sizes)
  show ?thesis
    using pmm_share_then_release [OF inv, of "0x2000" 2 3 3] inv rc
    by (simp add: pmm_demo_alloc Let_def PAGE_SIZE_def)
qed


end
