(* ===== verification/Vmm.thy ===== *)
theory Vmm
  imports Pmm "HOL-Library.Monad_Syntax"
begin

unbundle bit_operations_syntax

text \<open>
  The virtual memory manager of \<^verbatim>\<open>src/arch/x86/vmm.c\<close> and \<^verbatim>\<open>src/mm/vmm.c\<close>: PAE page tables of three levels,
  which the kernel edits through the recursive entries 508 to 511 of the last page directory.

  Physical memory is a function from a frame and the index of a 64-bit word in it to the word. The machine walks the
  tables from \<^verbatim>\<open>CR3\<close> on every access (\<open>mmu\<close>): an access of the kernel to an address that is not mapped is
  \<^term>\<open>None\<close>, the page fault. The translation buffer is not modelled; every change of an entry is followed by
  \<^verbatim>\<open>invlpg\<close> or by a load of \<^verbatim>\<open>CR3\<close> in the source. \<^verbatim>\<open>vmm_lock\<close> makes each function one step. A copy of a
  whole page moves 512 words.
\<close>

section \<open>The machine\<close>

record vmm =
  pmem :: "u64 \<times> nat \<Rightarrow> u64"
  cr3 :: u32
  g_kernel_as :: u32
  g_nxe_enabled :: bool
  page_frames :: pmm

abbreviation X86_PTE_PRESENT :: u64 where "X86_PTE_PRESENT \<equiv> 0x1"
abbreviation X86_PTE_RW :: u64 where "X86_PTE_RW \<equiv> 0x2"
abbreviation X86_PTE_USER :: u64 where "X86_PTE_USER \<equiv> 0x4"
abbreviation X86_PTE_PWT :: u64 where "X86_PTE_PWT \<equiv> 0x8"
abbreviation X86_PTE_PCD :: u64 where "X86_PTE_PCD \<equiv> 0x10"
abbreviation X86_PTE_COW :: u64 where "X86_PTE_COW \<equiv> 0x200"
abbreviation X86_PTE_NX :: u64 where "X86_PTE_NX \<equiv> 0x8000000000000000"
abbreviation VMM_FLAG_PWT :: u32 where "VMM_FLAG_PWT \<equiv> 8"
abbreviation VMM_FLAG_PCD :: u32 where "VMM_FLAG_PCD \<equiv> 16"
abbreviation VMM_FLAG_NX :: u32 where "VMM_FLAG_NX \<equiv> 1024"
abbreviation PAE_USER_PDPT_MAX :: nat where "PAE_USER_PDPT_MAX \<equiv> 3"

definition pae_pdpt_index :: "u64 \<Rightarrow> nat" where
  "pae_pdpt_index va = unat (drop_bit 30 va AND 0x3)"

definition pae_pd_index :: "u64 \<Rightarrow> nat" where
  "pae_pd_index va = unat (drop_bit 21 va AND 0x1FF)"

definition pae_pt_index :: "u64 \<Rightarrow> nat" where
  "pae_pt_index va = unat (drop_bit 12 va AND 0x1FF)"

text \<open>The entry of the table of pointers to page directories that covers the \<open>i\<close>-th gigabyte, and the frame an entry points to.\<close>

definition pdpt_slot :: "u32 \<Rightarrow> nat \<Rightarrow> u64 \<times> nat" where
  "pdpt_slot as i = (ucast (as AND NOT 0xFFF), unat (as AND 0xFFF) div 8 + i)"

definition frame_of :: "u64 \<Rightarrow> u64" where
  "frame_of e = e AND 0x000FFFFFFFFFF000"

text \<open>The walk: the place in physical memory of the 64-bit word at a virtual address.\<close>

definition mmu :: "u32 \<Rightarrow> vmm \<Rightarrow> (u64 \<times> nat) option" where
  "mmu va s =
     (let pdpte = pmem s (pdpt_slot (cr3 s) (pae_pdpt_index (ucast va)));
          pde = pmem s (frame_of pdpte, pae_pd_index (ucast va));
          pte = pmem s (frame_of pde, pae_pt_index (ucast va))
      in if pdpte AND X86_PTE_PRESENT = 0 \<or> pde AND X86_PTE_PRESENT = 0 \<or> pte AND X86_PTE_PRESENT = 0 then None
         else Some (frame_of pte, unat (va AND 0xFFF) div 8))"

definition mem_read :: "u32 \<Rightarrow> vmm \<Rightarrow> u64 option" where
  "mem_read va s = map_option (pmem s) (mmu va s)"

definition mem_write :: "u32 \<Rightarrow> u64 \<Rightarrow> vmm \<Rightarrow> vmm option" where
  "mem_write va v s = map_option (\<lambda>l. s\<lparr>pmem := (pmem s)(l := v)\<rparr>) (mmu va s)"

fun each :: "('a \<Rightarrow> 's \<Rightarrow> 's option) \<Rightarrow> 'a list \<Rightarrow> 's \<Rightarrow> 's option" where
  "each f [] s = Some s"
| "each f (x # xs) s = f x s \<bind> each f xs"

section \<open>Pages\<close>

definition pae_pd_recursive :: "nat \<Rightarrow> nat \<Rightarrow> u32" where
  "pae_pd_recursive pdpt_i k = 0xFFFFC000 + of_nat pdpt_i * 0x1000 + of_nat (8 * k)"

definition pae_pt_recursive :: "nat \<Rightarrow> nat \<Rightarrow> nat \<Rightarrow> u32" where
  "pae_pt_recursive pdpt_i pd_i k = 0xFF800000 + of_nat pdpt_i * 0x200000 + of_nat pd_i * 0x1000 + of_nat (8 * k)"

definition vmm_flags_to_x86 :: "u32 \<Rightarrow> vmm \<Rightarrow> u64" where
  "vmm_flags_to_x86 flags s =
     (if flags AND VMM_FLAG_PRESENT \<noteq> 0 then X86_PTE_PRESENT else 0) OR
     (if flags AND VMM_FLAG_RW \<noteq> 0 then X86_PTE_RW else 0) OR
     (if flags AND VMM_FLAG_USER \<noteq> 0 then X86_PTE_USER else 0) OR
     (if flags AND VMM_FLAG_PWT \<noteq> 0 then X86_PTE_PWT else 0) OR
     (if flags AND VMM_FLAG_PCD \<noteq> 0 then X86_PTE_PCD else 0) OR
     (if flags AND VMM_FLAG_COW \<noteq> 0 then X86_PTE_COW else 0) OR
     (if flags AND VMM_FLAG_NX \<noteq> 0 \<and> g_nxe_enabled s then X86_PTE_NX else 0)"

text \<open>The end of \<^verbatim>\<open>vmm_map_page_nolock\<close>, with the page table in place.\<close>

definition map_pte :: "u64 \<Rightarrow> u64 \<Rightarrow> u32 \<Rightarrow> vmm \<Rightarrow> vmm option" where
  "map_pte phys virt flags s =
     (let pi = pae_pdpt_index virt; di = pae_pd_index virt; ti = pae_pt_index virt in do {
        s \<leftarrow> (if flags AND VMM_FLAG_USER \<noteq> 0
              then do {
                pde \<leftarrow> mem_read (pae_pd_recursive pi di) s;
                (if pde AND X86_PTE_USER = 0 then mem_write (pae_pd_recursive pi di) (pde OR X86_PTE_USER) s else Some s)
              }
              else Some s);
        mem_write (pae_pt_recursive pi di ti) ((phys AND 0xFFFFF000) OR vmm_flags_to_x86 flags s) s
      })"

definition vmm_map_page_nolock :: "u64 \<Rightarrow> u64 \<Rightarrow> u32 \<Rightarrow> vmm \<Rightarrow> vmm option" where
  "vmm_map_page_nolock phys virt flags s =
     (let pi = pae_pdpt_index virt; di = pae_pd_index virt in do {
        pde \<leftarrow> mem_read (pae_pd_recursive pi di) s;
        (if pde AND X86_PTE_PRESENT = 0 then
           (let (fr, pt_phys) = pmm_alloc_page (page_frames s);
                s = s\<lparr>page_frames := fr\<rparr>
            in if pt_phys = 0 then Some s
               else do {
                 s \<leftarrow> mem_write (pae_pd_recursive pi di)
                        (ucast pt_phys OR (X86_PTE_PRESENT OR X86_PTE_RW OR
                           (if flags AND VMM_FLAG_USER \<noteq> 0 then X86_PTE_USER else 0))) s;
                 s \<leftarrow> each (\<lambda>i. mem_write (pae_pt_recursive pi di i) 0) [0..<512] s;
                 map_pte phys virt flags s
               })
         else map_pte phys virt flags s)
      })"

definition vmm_unmap_page_nolock :: "u64 \<Rightarrow> vmm \<Rightarrow> vmm option" where
  "vmm_unmap_page_nolock virt s =
     (let pi = pae_pdpt_index virt; di = pae_pd_index virt; ti = pae_pt_index virt in do {
        pde \<leftarrow> mem_read (pae_pd_recursive pi di) s;
        (if pde AND X86_PTE_PRESENT = 0 then Some s else mem_write (pae_pt_recursive pi di ti) 0 s)
      })"

definition vmm_set_page_flags_nolock :: "u64 \<Rightarrow> u32 \<Rightarrow> vmm \<Rightarrow> vmm option" where
  "vmm_set_page_flags_nolock virt flags s =
     (let pi = pae_pdpt_index virt; di = pae_pd_index virt; ti = pae_pt_index virt in do {
        pde \<leftarrow> mem_read (pae_pd_recursive pi di) s;
        (if pde AND X86_PTE_PRESENT = 0 then Some s
         else do {
           pte \<leftarrow> mem_read (pae_pt_recursive pi di ti) s;
           (if pte AND X86_PTE_PRESENT = 0 then Some s
            else mem_write (pae_pt_recursive pi di ti)
                   ((pte AND 0x000FFFFFFFFFF000) OR vmm_flags_to_x86 flags s) s)
         })
      })"

definition vmm_as_activate :: "u32 \<Rightarrow> vmm \<Rightarrow> vmm" where
  "vmm_as_activate as s = (if as = 0 then s else s\<lparr>cr3 := as\<rparr>)"

definition vmm_as_map_page_nolock :: "u32 \<Rightarrow> u64 \<Rightarrow> u64 \<Rightarrow> u32 \<Rightarrow> vmm \<Rightarrow> vmm option" where
  "vmm_as_map_page_nolock as phys virt flags s =
     (if as = 0 then Some s
      else let old_as = cr3 s in
        if old_as \<noteq> as
        then map_option (vmm_as_activate old_as) (vmm_map_page_nolock phys virt flags (vmm_as_activate as s))
        else vmm_map_page_nolock phys virt flags s)"

definition vmm_virt_to_phys :: "u64 \<Rightarrow> vmm \<Rightarrow> u32 option" where
  "vmm_virt_to_phys virt s =
     (let pi = pae_pdpt_index virt; di = pae_pd_index virt; ti = pae_pt_index virt in do {
        pde \<leftarrow> mem_read (pae_pd_recursive pi di) s;
        (if pde AND X86_PTE_PRESENT = 0 then Some 0
         else do {
           pte \<leftarrow> mem_read (pae_pt_recursive pi di ti) s;
           (if pte AND X86_PTE_PRESENT = 0 then Some 0 else Some (ucast (pte AND NOT 0xFFF)))
         })
      })"

text \<open>The loop runs from the first page to the last; the addresses have 64 bits and may wrap around.\<close>

definition vmm_protect_range :: "u64 \<Rightarrow> u64 \<Rightarrow> u32 \<Rightarrow> vmm \<Rightarrow> vmm option" where
  "vmm_protect_range vaddr len flags s =
     (if len = 0 then Some s
      else let start = vaddr AND NOT 0xFFF;
               end_page = (vaddr + len - 1) AND NOT 0xFFF
           in each (\<lambda>k. vmm_set_page_flags_nolock (start + of_nat k * 0x1000) (flags OR VMM_FLAG_PRESENT))
                [0..<Suc (unat (end_page - start) div 0x1000)] s)"

section \<open>Address spaces\<close>

definition fill_page :: "u32 \<Rightarrow> (nat \<Rightarrow> u64) \<Rightarrow> vmm \<Rightarrow> vmm option" where
  "fill_page va w s = each (\<lambda>i. mem_write (va + of_nat (8 * i)) (w i)) [0..<512] s"

definition copy_page :: "u32 \<Rightarrow> u32 \<Rightarrow> vmm \<Rightarrow> vmm option" where
  "copy_page dst src s =
     each (\<lambda>i s. mem_read (src + of_nat (8 * i)) s \<bind> (\<lambda>w. mem_write (dst + of_nat (8 * i)) w s)) [0..<512] s"

abbreviation TMP_VA :: u32 where "TMP_VA \<equiv> 0xBFFFE000"
abbreviation TMP_COW_VA :: u32 where "TMP_COW_VA \<equiv> 0xBFFFD000"
abbreviation TMP_MAP_VA :: u32 where "TMP_MAP_VA \<equiv> 0xBFF00000"

text \<open>
  The table of page directories and the page directories of a new address space, written through a temporary mapping;
  the last directory is a copy of the active one with its own recursive entries.
\<close>

definition init_pdpt :: "u32 \<Rightarrow> u32 list \<Rightarrow> vmm \<Rightarrow> vmm option" where
  "init_pdpt pdpt_phys pd_phys s = do {
     s \<leftarrow> vmm_map_page_nolock (ucast pdpt_phys) (ucast TMP_VA) (VMM_FLAG_PRESENT OR VMM_FLAG_RW) s;
     s \<leftarrow> fill_page TMP_VA (\<lambda>_. 0) s;
     s \<leftarrow> each (\<lambda>i. mem_write (TMP_VA + of_nat (8 * i)) (ucast (pd_phys ! i) OR 0x1)) [0..<4] s;
     vmm_unmap_page_nolock (ucast TMP_VA) s
   }"

definition init_pd :: "u32 list \<Rightarrow> nat \<Rightarrow> vmm \<Rightarrow> vmm option" where
  "init_pd pd_phys i s = do {
     s \<leftarrow> vmm_map_page_nolock (ucast (pd_phys ! i)) (ucast TMP_VA) (VMM_FLAG_PRESENT OR VMM_FLAG_RW) s;
     s \<leftarrow> fill_page TMP_VA (\<lambda>_. 0) s;
     s \<leftarrow> (if i = 3
           then copy_page TMP_VA (pae_pd_recursive 3 0) s \<bind>
                each (\<lambda>k. mem_write (TMP_VA + of_nat (8 * (508 + k))) (ucast (pd_phys ! k) OR (X86_PTE_PRESENT OR X86_PTE_RW))) [0..<4]
           else Some s);
     vmm_unmap_page_nolock (ucast TMP_VA) s
   }"

definition vmm_as_create_kernel_clone :: "vmm \<Rightarrow> (vmm \<times> u32) option" where
  "vmm_as_create_kernel_clone s =
     (let (fr, pdpt_phys) = pmm_alloc_page (page_frames s) in
      if pdpt_phys = 0 then Some (s\<lparr>page_frames := fr\<rparr>, 0)
      else case take_pages pmm_alloc_page pmm_free_page 4 [] fr of
             (fr, None) \<Rightarrow> Some (s\<lparr>page_frames := pmm_free_page pdpt_phys fr\<rparr>, 0)
           | (fr, Some pd_phys) \<Rightarrow> do {
               s \<leftarrow> init_pdpt pdpt_phys pd_phys (s\<lparr>page_frames := fr\<rparr>);
               s \<leftarrow> each (init_pd pd_phys) [0..<4] s;
               Some (s, pdpt_phys)
             })"

definition release_frame :: "u64 \<Rightarrow> vmm \<Rightarrow> vmm" where
  "release_frame e s = s\<lparr>page_frames := pmm_free_page (ucast (e AND 0xFFFFF000)) (page_frames s)\<rparr>"

definition destroy_table :: "nat \<Rightarrow> nat \<Rightarrow> vmm \<Rightarrow> vmm option" where
  "destroy_table pi di s = do {
     pde \<leftarrow> mem_read (pae_pd_recursive pi di) s;
     (if pde AND X86_PTE_PRESENT = 0 then Some s
      else do {
        s \<leftarrow> each (\<lambda>ti s. do {
               pte \<leftarrow> mem_read (pae_pt_recursive pi di ti) s;
               (if pte AND X86_PTE_PRESENT = 0 then Some s
                else mem_write (pae_pt_recursive pi di ti) 0 (release_frame pte s))
             }) [0..<512] s;
        mem_write (pae_pd_recursive pi di) 0 (release_frame pde s)
      })
   }"

definition vmm_as_destroy :: "u32 \<Rightarrow> vmm \<Rightarrow> vmm option" where
  "vmm_as_destroy as s =
     (if as = 0 \<or> as = g_kernel_as s then Some s
      else let old_as = cr3 s in do {
        s \<leftarrow> each (\<lambda>pi. each (destroy_table pi) [0..<512]) [0..<PAE_USER_PDPT_MAX] (vmm_as_activate as s);
        e0 \<leftarrow> mem_read (pae_pd_recursive 3 508) s;
        e1 \<leftarrow> mem_read (pae_pd_recursive 3 509) s;
        e2 \<leftarrow> mem_read (pae_pd_recursive 3 510) s;
        e3 \<leftarrow> mem_read (pae_pd_recursive 3 511) s;
        (let pds = filter (\<lambda>p. p \<noteq> 0) (map (\<lambda>e. ucast (e AND 0xFFFFF000)) [e0, e1, e2, e3]);
             s = vmm_as_activate old_as s
         in Some (s\<lparr>page_frames := pmm_free_page as (free_pages pmm_free_page pds (page_frames s))\<rparr>))
      })"

definition page_va :: "nat \<Rightarrow> nat \<Rightarrow> nat \<Rightarrow> u32" where
  "page_va pi di ti = push_bit 30 (of_nat pi) OR push_bit 21 (of_nat di) OR push_bit 12 (of_nat ti)"

definition cow_pte :: "u64 \<Rightarrow> u64" where
  "cow_pte pte = (pte AND 0xFFFFF000) OR X86_PTE_PRESENT OR X86_PTE_USER OR X86_PTE_COW OR (pte AND X86_PTE_NX)"

definition share_page :: "u32 \<Rightarrow> nat \<Rightarrow> nat \<Rightarrow> nat \<Rightarrow> vmm \<Rightarrow> vmm option" where
  "share_page new_as pi di ti s = do {
     pte \<leftarrow> mem_read (pae_pt_recursive pi di ti) s;
     (if pte AND X86_PTE_PRESENT = 0 \<or> pte AND X86_PTE_USER = 0 then Some s
      else let new_pte = (if pte AND X86_PTE_RW \<noteq> 0 then cow_pte pte else pte) in do {
        s \<leftarrow> (if pte AND X86_PTE_RW \<noteq> 0 then mem_write (pae_pt_recursive pi di ti) new_pte s else Some s);
        vmm_as_map_page_nolock new_as (pte AND 0xFFFFF000) (ucast (page_va pi di ti))
          (VMM_FLAG_PRESENT OR VMM_FLAG_USER OR
           (if new_pte AND X86_PTE_COW \<noteq> 0 then VMM_FLAG_COW else 0) OR
           (if new_pte AND X86_PTE_NX \<noteq> 0 then VMM_FLAG_NX else 0))
          (s\<lparr>page_frames := pmm_incref (ucast (pte AND 0xFFFFF000)) (page_frames s)\<rparr>)
      })
   }"

definition share_table :: "u32 \<Rightarrow> nat \<Rightarrow> nat \<Rightarrow> vmm \<Rightarrow> vmm option" where
  "share_table new_as pi di s = do {
     pde \<leftarrow> mem_read (pae_pd_recursive pi di) s;
     (if pde AND X86_PTE_PRESENT = 0 then Some s else each (share_page new_as pi di) [0..<512] s)
   }"

definition vmm_as_clone_user_cow :: "u32 \<Rightarrow> vmm \<Rightarrow> (vmm \<times> u32) option" where
  "vmm_as_clone_user_cow src_as s =
     (if src_as = 0 then Some (s, 0)
      else do {
        (s, new_as) \<leftarrow> vmm_as_create_kernel_clone s;
        (if new_as = 0 then Some (s, 0)
         else do {
           s' \<leftarrow> each (\<lambda>pi. each (share_table new_as pi) [0..<512]) [0..<PAE_USER_PDPT_MAX] (vmm_as_activate src_as s);
           Some (vmm_as_activate (cr3 s) s', new_as)
         })
      })"

text \<open>
  \<^verbatim>\<open>vmm_as_clone_user\<close> copies every page through a buffer of the heap; whether \<^verbatim>\<open>kmalloc\<close> finds the buffer is an argument.
  The flag of the state says that no allocation has failed so far.
\<close>

definition clone_page :: "u32 \<Rightarrow> u32 \<Rightarrow> nat \<Rightarrow> nat \<Rightarrow> nat \<Rightarrow> vmm \<times> bool \<Rightarrow> (vmm \<times> bool) option" where
  "clone_page src_as new_as pi di ti = (\<lambda>(s, ok).
     if \<not> ok then Some (s, ok)
     else do {
       pte \<leftarrow> mem_read (pae_pt_recursive pi di ti) s;
       (if pte AND X86_PTE_PRESENT = 0 \<or> pte AND X86_PTE_USER = 0 then Some (s, True)
        else
          let flags = VMM_FLAG_PRESENT OR (if pte AND X86_PTE_RW \<noteq> 0 then VMM_FLAG_RW else 0) OR VMM_FLAG_USER;
              (fr, dst_frame) = pmm_alloc_page (page_frames s);
              s = s\<lparr>page_frames := fr\<rparr>
          in if dst_frame = 0 then Some (s, False)
             else do {
               s \<leftarrow> vmm_as_map_page_nolock new_as (ucast dst_frame) (ucast (page_va pi di ti)) flags s;
               s \<leftarrow> vmm_map_page_nolock (pte AND 0xFFFFF000) (ucast TMP_MAP_VA) (VMM_FLAG_PRESENT OR VMM_FLAG_RW) s;
               tmp \<leftarrow> those (map (\<lambda>i. mem_read (TMP_MAP_VA + of_nat (8 * i)) s) [0..<512]);
               s \<leftarrow> vmm_unmap_page_nolock (ucast TMP_MAP_VA) s;
               s \<leftarrow> vmm_map_page_nolock (ucast dst_frame) (ucast TMP_MAP_VA) (VMM_FLAG_PRESENT OR VMM_FLAG_RW)
                      (vmm_as_activate new_as s);
               s \<leftarrow> fill_page TMP_MAP_VA ((!) tmp) s;
               s \<leftarrow> vmm_unmap_page_nolock (ucast TMP_MAP_VA) s;
               Some (vmm_as_activate src_as s, True)
             })
     })"

definition clone_table :: "u32 \<Rightarrow> u32 \<Rightarrow> nat \<Rightarrow> nat \<Rightarrow> vmm \<times> bool \<Rightarrow> (vmm \<times> bool) option" where
  "clone_table src_as new_as pi di = (\<lambda>(s, ok).
     if \<not> ok then Some (s, ok)
     else do {
       pde \<leftarrow> mem_read (pae_pd_recursive pi di) s;
       (if pde AND X86_PTE_PRESENT = 0 then Some (s, ok) else each (clone_page src_as new_as pi di) [0..<512] (s, ok))
     })"

definition vmm_as_clone_user :: "bool \<Rightarrow> u32 \<Rightarrow> vmm \<Rightarrow> (vmm \<times> u32) option" where
  "vmm_as_clone_user tmp_ok src_as s =
     (if src_as = 0 then Some (s, 0)
      else do {
        (s, new_as) \<leftarrow> vmm_as_create_kernel_clone s;
        (if new_as = 0 then Some (s, 0)
         else if \<not> tmp_ok then map_option (\<lambda>s. (s, 0)) (vmm_as_destroy new_as s)
         else do {
           (s', ok) \<leftarrow> each (\<lambda>pi. each (clone_table src_as new_as pi) [0..<512]) [0..<PAE_USER_PDPT_MAX] (vmm_as_activate src_as s, True);
           (let s' = vmm_as_activate (cr3 s) s' in
            if ok then Some (s', new_as) else map_option (\<lambda>s. (s, 0)) (vmm_as_destroy new_as s'))
         })
      })"

section \<open>Copy on write\<close>

definition vmm_handle_cow_fault :: "u32 \<Rightarrow> vmm \<Rightarrow> (vmm \<times> bool) option" where
  "vmm_handle_cow_fault fault_addr s =
     (let va = fault_addr AND NOT 0xFFF;
          pi = pae_pdpt_index (ucast va); di = pae_pd_index (ucast va); ti = pae_pt_index (ucast va)
      in if PAE_USER_PDPT_MAX \<le> pi then Some (s, False)
         else do {
           pde \<leftarrow> mem_read (pae_pd_recursive pi di) s;
           (if pde AND X86_PTE_PRESENT = 0 then Some (s, False)
            else do {
              pte \<leftarrow> mem_read (pae_pt_recursive pi di ti) s;
              (if pte AND X86_PTE_PRESENT = 0 then Some (s, False)
               else if pte AND X86_PTE_COW = 0 then Some (s, False)
               else
                 let old_frame = ucast (pte AND 0xFFFFF000) :: u32;
                     rc = ucast (pmm_get_refcount old_frame (page_frames s)) :: u16;
                     nx = pte AND X86_PTE_NX
                 in if rc \<le> 1 then do {
                      s \<leftarrow> mem_write (pae_pt_recursive pi di ti)
                             (ucast old_frame OR X86_PTE_PRESENT OR X86_PTE_RW OR X86_PTE_USER OR nx) s;
                      Some (s, True)
                    }
                    else
                      let (fr, new_frame) = pmm_alloc_page (page_frames s);
                          s = s\<lparr>page_frames := fr\<rparr>
                      in if new_frame = 0 then Some (s, False)
                         else do {
                           s \<leftarrow> vmm_map_page_nolock (ucast new_frame) (ucast TMP_COW_VA) (VMM_FLAG_PRESENT OR VMM_FLAG_RW) s;
                           s \<leftarrow> copy_page TMP_COW_VA va s;
                           s \<leftarrow> vmm_unmap_page_nolock (ucast TMP_COW_VA) s;
                           s \<leftarrow> mem_write (pae_pt_recursive pi di ti)
                                  (ucast new_frame OR X86_PTE_PRESENT OR X86_PTE_RW OR X86_PTE_USER OR nx)
                                  (s\<lparr>page_frames := fst (pmm_decref old_frame (page_frames s))\<rparr>);
                           Some (s, True)
                         })
            })
         })"

section \<open>Free areas\<close>

text \<open>The address has 32 bits and wraps around, so that the loop need not end.\<close>

definition page_mapped :: "u32 \<Rightarrow> vmm \<Rightarrow> bool option" where
  "page_mapped va s =
     (let pi = pae_pdpt_index (ucast va); di = pae_pd_index (ucast va); ti = pae_pt_index (ucast va) in do {
        pde \<leftarrow> mem_read (pae_pd_recursive pi di) s;
        (if pde AND X86_PTE_PRESENT = 0 then Some False
         else do {
           pte \<leftarrow> mem_read (pae_pt_recursive pi di ti) s;
           Some (pte AND X86_PTE_PRESENT \<noteq> 0)
         })
      })"

partial_function (option) find_area_loop :: "u32 \<Rightarrow> u32 \<Rightarrow> vmm \<Rightarrow> u32 \<Rightarrow> u32 \<Rightarrow> u32 \<Rightarrow> u32 option" where
  "find_area_loop end_va pages_needed s va run_start run_len =
     (if \<not> va < end_va then Some 0
      else case page_mapped va s of
             None \<Rightarrow> None
           | Some m \<Rightarrow>
               if m then find_area_loop end_va pages_needed s (va + 0x1000) run_start 0
               else if pages_needed \<le> run_len + 1 then Some (if run_len = 0 then va else run_start)
               else find_area_loop end_va pages_needed s (va + 0x1000) (if run_len = 0 then va else run_start) (run_len + 1))"

definition vmm_find_free_area :: "u32 \<Rightarrow> u32 \<Rightarrow> u32 \<Rightarrow> vmm \<Rightarrow> u32 option" where
  "vmm_find_free_area start end_va len s =
     (if len = 0 then Some 0
      else find_area_loop end_va (drop_bit 12 (len + 0xFFF)) s (start AND NOT 0xFFF) (start AND NOT 0xFFF) 0)"

definition vmm_init :: "bool \<Rightarrow> vmm \<Rightarrow> vmm option" where
  "vmm_init nxe s =
     vmm_map_page_nolock 0xB8000 0xC00B8000 (VMM_FLAG_PRESENT OR VMM_FLAG_RW)
       (s\<lparr>g_kernel_as := cr3 s, g_nxe_enabled := nxe\<rparr>)"

end
