(* ===== verification/Address_Space.thy ===== *)
theory Address_Space
  imports Vmm
begin

unbundle bit_operations_syntax

text \<open>
  The correctness of the virtual memory manager (theory \<open>Vmm\<close>). An address space is well-formed (\<open>as_ok\<close>) when its
  directories are present, distinct and reachable through the recursive entries, its page tables are pages in use and none
  of them is a directory, and a page open to user code lies in a table open to user code. In a well-formed address space
  the recursive addresses reach exactly the tables, so the operations of \<^verbatim>\<open>src/arch/x86/vmm.c\<close> do not fault and change
  exactly the entry they are called for; \<open>translate\<close>, the machine's view, follows.
\<close>

section \<open>Addresses\<close>

lemma pae_index_nat:
  "pae_pdpt_index va = unat va div 2 ^ 30 mod 4"
  "pae_pd_index va = unat va div 2 ^ 21 mod 512"
  "pae_pt_index va = unat va div 2 ^ 12 mod 512"
proof -
  have m: "(0x3 :: u64) = mask 2" "(0x1FF :: u64) = mask 9" by (simp_all add: mask_eq_exp_minus_1)
  show "pae_pdpt_index va = unat va div 2 ^ 30 mod 4"
    "pae_pd_index va = unat va div 2 ^ 21 mod 512"
    "pae_pt_index va = unat va div 2 ^ 12 mod 512"
    unfolding pae_pdpt_index_def pae_pd_index_def pae_pt_index_def m take_bit_eq_mask [symmetric]
    by (simp_all add: take_bit_eq_mod drop_bit_eq_div unat_div_distrib unat_mod_distrib)
qed

lemma pae_index_bounds [simp]: "pae_pdpt_index va < 4" "pae_pd_index va < 512" "pae_pt_index va < 512"
  by (simp_all add: pae_index_nat)

lemma unat_ucast_u64 [simp]: "unat (ucast (w :: u32) :: u64) = unat w"
  by (simp add: unsigned_ucast_eq take_bit_nat_eq_self order.strict_trans [OF unsigned_less])

lemma page_offset: "unat ((va :: u32) AND 0xFFF) = unat va mod 4096"
proof -
  have "(0xFFF :: u32) = mask 12" by (simp add: mask_eq_exp_minus_1)
  then have "va AND 0xFFF = take_bit 12 va" by (simp only: take_bit_eq_mask)
  then show ?thesis by (simp add: take_bit_eq_mod unat_mod_distrib)
qed

lemma unat_pd_recursive:
  "i < 4 \<Longrightarrow> k < 512 \<Longrightarrow> unat (pae_pd_recursive i k) = 0xFFFFC000 + i * 0x1000 + 8 * k"
proof -
  assume b: "i < 4" "k < 512"
  have "pae_pd_recursive i k = of_nat (0xFFFFC000 + i * 0x1000 + 8 * k)" by (simp add: pae_pd_recursive_def)
  then show ?thesis using b by (simp only: unat_of_nat) (simp add: take_bit_nat_eq_self)
qed

lemma unat_pt_recursive:
  "i < 4 \<Longrightarrow> d < 512 \<Longrightarrow> k < 512 \<Longrightarrow>
   unat (pae_pt_recursive i d k) = 0xFF800000 + i * 0x200000 + d * 0x1000 + 8 * k"
proof -
  assume b: "i < 4" "d < 512" "k < 512"
  have "pae_pt_recursive i d k = of_nat (0xFF800000 + i * 0x200000 + d * 0x1000 + 8 * k)" by (simp add: pae_pt_recursive_def)
  then show ?thesis using b by (simp only: unat_of_nat) (simp add: take_bit_nat_eq_self)
qed

section \<open>Entries\<close>

abbreviation present :: "u64 \<Rightarrow> bool" where "present e \<equiv> e AND X86_PTE_PRESENT \<noteq> 0"

lemma and_or_distrib: "(a OR b) AND c = (a AND c) OR (b AND c :: 'a :: len word)"
  by (simp add: bit.conj_disj_distrib2)

lemma or_eq_0 [simp]: "a OR b = 0 \<longleftrightarrow> a = 0 \<and> b = (0 :: 'a :: len word)"
  by (rule or_eq_0_iff)

lemma page_mask: "(p :: u32) AND 0xFFF = 0 \<Longrightarrow> ucast p = (ucast p AND 0xFFFFF000 :: u64)"
proof (rule bit_word_eqI)
  fix n
  assume al: "p AND 0xFFF = 0" and n: "n < LENGTH(64)"
  have m: "(0xFFF :: u32) = mask 12" "(0xFFFFF000 :: u64) = push_bit 12 (mask 20)" by (simp_all add: mask_eq_exp_minus_1)
  have "take_bit 12 p = 0" using al unfolding m(1) take_bit_eq_mask .
  then have "12 \<le> n" if "bit p n" using that bit_take_bit_iff [of 12 p n] by (cases "n < 12") auto
  then show "bit (ucast p :: u64) n = bit (ucast p AND 0xFFFFF000 :: u64) n"
    unfolding m(2) using n bit_imp_le_length [of p n]
    by (auto simp: bit_and_iff bit_push_bit_iff bit_mask_iff bit_ucast_iff possible_bit_def not_less)
qed

lemma flags_frame [simp]: "vmm_flags_to_x86 flags s AND 0x000FFFFFFFFFF000 = 0"
  by (simp add: vmm_flags_to_x86_def and_or_distrib)

lemma flags_bits:
  "vmm_flags_to_x86 flags s AND X86_PTE_PRESENT = 0 \<longleftrightarrow> flags AND VMM_FLAG_PRESENT = 0"
  "vmm_flags_to_x86 flags s AND X86_PTE_RW = 0 \<longleftrightarrow> flags AND VMM_FLAG_RW = 0"
  "vmm_flags_to_x86 flags s AND X86_PTE_USER = 0 \<longleftrightarrow> flags AND VMM_FLAG_USER = 0"
  by (simp_all add: vmm_flags_to_x86_def and_or_distrib)

lemma frame_of_or [simp]: "frame_of (a OR b) = frame_of a OR frame_of b"
  by (simp add: frame_of_def and_or_distrib)

lemma frame_of_page [simp]: "frame_of (x AND 0xFFFFF000) = x AND 0xFFFFF000" "frame_of (x AND 0x000FFFFFFFFFF000) = x AND 0x000FFFFFFFFFF000"
  by (simp_all add: frame_of_def and.assoc)

section \<open>Well-formed address spaces\<close>

text \<open>
  The page directories of an address space, their entries and the entries of the page tables. The entries 508 to 511 of
  the last directory are the recursive ones; the others are the slots of page tables.
\<close>

definition pd_of :: "vmm \<Rightarrow> u32 \<Rightarrow> nat \<Rightarrow> u64" where
  "pd_of s as i = frame_of (pmem s (pdpt_slot as i))"

definition pde_at :: "vmm \<Rightarrow> u32 \<Rightarrow> nat \<Rightarrow> nat \<Rightarrow> u64" where
  "pde_at s as i d = pmem s (pd_of s as i, d)"

definition pte_at :: "vmm \<Rightarrow> u32 \<Rightarrow> nat \<Rightarrow> nat \<Rightarrow> nat \<Rightarrow> u64" where
  "pte_at s as i d t = pmem s (frame_of (pde_at s as i d), t)"

definition slot :: "nat \<Rightarrow> nat \<Rightarrow> bool" where
  "slot i d \<longleftrightarrow> i < 4 \<and> d < 512 \<and> \<not> (i = 3 \<and> 508 \<le> d)"

definition pdpt_frame :: "u32 \<Rightarrow> u64" where
  "pdpt_frame as = ucast (as AND NOT 0xFFF)"

definition dirs :: "vmm \<Rightarrow> u32 \<Rightarrow> u64 set" where
  "dirs s as = insert (pdpt_frame as) (pd_of s as ` {..<4})"

definition page_busy :: "vmm \<Rightarrow> u64 \<Rightarrow> bool" where
  "page_busy s f \<longleftrightarrow> f \<notin> ucast ` pmm_avail (page_frames s)"

definition table_wf :: "vmm \<Rightarrow> u32 \<Rightarrow> nat \<Rightarrow> nat \<Rightarrow> bool" where
  "table_wf s as i d \<longleftrightarrow>
     frame_of (pde_at s as i d) \<notin> dirs s as \<and> page_busy s (frame_of (pde_at s as i d)) \<and> pde_at s as i d AND X86_PTE_RW \<noteq> 0"

definition user_ok :: "vmm \<Rightarrow> u32 \<Rightarrow> nat \<Rightarrow> nat \<Rightarrow> bool" where
  "user_ok s as i d \<longleftrightarrow>
     (\<forall>t < 512. pte_at s as i d t AND X86_PTE_USER \<noteq> 0 \<longrightarrow> pde_at s as i d AND X86_PTE_USER \<noteq> 0)"

definition as_wf :: "vmm \<Rightarrow> u32 \<Rightarrow> bool" where
  "as_wf s as \<longleftrightarrow>
     pmm_ready (page_frames s) \<and>
     (\<forall>i < 4. present (pmem s (pdpt_slot as i))) \<and>
     (\<forall>i < 4. present (pde_at s as 3 (508 + i)) \<and> frame_of (pde_at s as 3 (508 + i)) = pd_of s as i) \<and>
     inj_on (pd_of s as) {..<4} \<and> pdpt_frame as \<notin> pd_of s as ` {..<4} \<and>
     (\<forall>f \<in> dirs s as. page_busy s f) \<and>
     (\<forall>i d. slot i d \<longrightarrow> present (pde_at s as i d) \<longrightarrow> table_wf s as i d)"

definition as_ok :: "vmm \<Rightarrow> u32 \<Rightarrow> bool" where
  "as_ok s as \<longleftrightarrow> as_wf s as \<and> (\<forall>i d. slot i d \<longrightarrow> present (pde_at s as i d) \<longrightarrow> user_ok s as i d)"

lemma as_wfD:
  assumes "as_wf s as"
  shows "pmm_ready (page_frames s)" "\<And>i. i < 4 \<Longrightarrow> present (pmem s (pdpt_slot as i))"
    "\<And>i. i < 4 \<Longrightarrow> present (pde_at s as 3 (508 + i))" "\<And>i. i < 4 \<Longrightarrow> frame_of (pde_at s as 3 (508 + i)) = pd_of s as i"
    "inj_on (pd_of s as) {..<4}" "pdpt_frame as \<notin> pd_of s as ` {..<4}" "\<And>f. f \<in> dirs s as \<Longrightarrow> page_busy s f"
    "\<And>i d. slot i d \<Longrightarrow> present (pde_at s as i d) \<Longrightarrow> table_wf s as i d"
  using assms unfolding as_wf_def by blast+

lemma as_okD:
  assumes "as_ok s as"
  shows "as_wf s as" "slot i d \<Longrightarrow> present (pde_at s as i d) \<Longrightarrow> user_ok s as i d"
  using assms unfolding as_ok_def by blast+

lemma slot_bounds: "slot i d \<Longrightarrow> i < 4 \<and> d < 512"
  by (simp add: slot_def)

lemma pd_in_dirs [simp]: "i < 4 \<Longrightarrow> pd_of s as i \<in> dirs s as"
  by (simp add: dirs_def)

lemma pdpt_slot_fst [simp]: "fst (pdpt_slot as i) = pdpt_frame as"
  by (simp add: pdpt_slot_def pdpt_frame_def)

text \<open>The recursive entries make the directories and the page tables appear at fixed addresses.\<close>

lemma mod_add_mult: "r < m \<Longrightarrow> x = r + m * q \<Longrightarrow> x mod m = (r :: nat)"
  by simp

lemma mmu_pd:
  assumes ok: "as_wf s (cr3 s)" and b: "i < 4" "k < 512"
  shows "mmu (pae_pd_recursive i k) s = Some (pd_of s (cr3 s) i, k)"
proof -
  let ?v = "pae_pd_recursive i k"
  note u = unat_pd_recursive [OF b]
  have q: "unat ?v div 2 ^ 30 = 3" "unat ?v div 2 ^ 21 = 2047" "unat ?v div 2 ^ 12 = 0xFFFFC + i"
    unfolding u using b by (intro div_nat_eqI; simp)+
  have ix: "pae_pdpt_index (ucast ?v) = 3" "pae_pd_index (ucast ?v) = 508 + 3" "pae_pt_index (ucast ?v) = 508 + i"
    unfolding pae_index_nat unat_ucast_u64 q using b mod_add_mult [of "508 + i" 512 "0xFFFFC + i" 2047] by simp_all
  have off: "unat (?v AND 0xFFF) div 8 = k"
    unfolding page_offset u using b mod_add_mult [of "8 * k" 4096 "0xFFFFC000 + i * 0x1000 + 8 * k" "0xFFFFC + i"] by simp
  show ?thesis
    using as_wfD(2,3,4) [OF ok, of 3] as_wfD(3,4) [OF ok b(1)] unfolding mmu_def ix off Let_def by (simp add: pde_at_def pd_of_def)
qed

lemma mmu_pt:
  assumes ok: "as_wf s (cr3 s)" and b: "slot i d" "k < 512" and p: "present (pde_at s (cr3 s) i d)"
  shows "mmu (pae_pt_recursive i d k) s = Some (frame_of (pde_at s (cr3 s) i d), k)"
proof -
  let ?v = "pae_pt_recursive i d k"
  have c: "i < 4" "d < 512" using b by (auto dest: slot_bounds)
  note u = unat_pt_recursive [OF c b(2)]
  have q: "unat ?v div 2 ^ 30 = 3" "unat ?v div 2 ^ 21 = 2044 + i" "unat ?v div 2 ^ 12 = 0xFF800 + i * 512 + d"
    unfolding u using c b by (intro div_nat_eqI; simp)+
  have ix: "pae_pdpt_index (ucast ?v) = 3" "pae_pd_index (ucast ?v) = 508 + i" "pae_pt_index (ucast ?v) = d"
    unfolding pae_index_nat unat_ucast_u64 q
    using c mod_add_mult [of "508 + i" 512 "2044 + i" 3] mod_add_mult [of d 512 "0xFF800 + i * 512 + d" "0x7FC + i"] by simp_all
  have off: "unat (?v AND 0xFFF) div 8 = k"
    unfolding page_offset u
    using b mod_add_mult [of "8 * k" 4096 "0xFF800000 + i * 0x200000 + d * 0x1000 + 8 * k" "0xFF800 + i * 512 + d"] by simp
  show ?thesis
    using as_wfD(2) [OF ok, of 3] as_wfD(3,4) [OF ok c(1)] p unfolding mmu_def ix off Let_def by (simp add: pde_at_def pd_of_def)
qed

section \<open>Changes of memory\<close>

definition poke :: "u64 \<times> nat \<Rightarrow> u64 \<Rightarrow> vmm \<Rightarrow> vmm" where
  "poke l v s = s\<lparr>pmem := (pmem s)(l := v)\<rparr>"

lemma poke_simps [simp]:
  "pmem (poke l v s) = (pmem s)(l := v)" "cr3 (poke l v s) = cr3 s" "page_frames (poke l v s) = page_frames s"
  "g_kernel_as (poke l v s) = g_kernel_as s" "g_nxe_enabled (poke l v s) = g_nxe_enabled s"
  "page_busy (poke l v s) = page_busy s" "vmm_flags_to_x86 fl (poke l v s) = vmm_flags_to_x86 fl s"
  by (simp_all add: poke_def page_busy_def vmm_flags_to_x86_def fun_eq_iff)

lemma mem_write_poke: "mmu va s = Some l \<Longrightarrow> mem_write va v s = Some (poke l v s)"
  by (simp add: mem_write_def poke_def)

lemma mem_read_at: "mmu va s = Some l \<Longrightarrow> mem_read va s = Some (pmem s l)"
  by (simp add: mem_read_def)

text \<open>A write outside the table of directories and the directories changes at most entries of page tables.\<close>

lemma poke_low:
  assumes "fst l \<notin> dirs s as"
  shows "i < 4 \<Longrightarrow> pd_of (poke l v s) as i = pd_of s as i" "dirs (poke l v s) as = dirs s as"
    "i < 4 \<Longrightarrow> pde_at (poke l v s) as i d = pde_at s as i d"
    "i < 4 \<Longrightarrow> pte_at (poke l v s) as i d t = (if l = (frame_of (pde_at s as i d), t) then v else pte_at s as i d t)"
proof -
  have root: "pdpt_slot as i \<noteq> l" for i using assms by (auto simp: dirs_def)
  then have pd: "pd_of (poke l v s) as = pd_of s as" by (auto simp: pd_of_def fun_eq_iff)
  then show "i < 4 \<Longrightarrow> pd_of (poke l v s) as i = pd_of s as i" "dirs (poke l v s) as = dirs s as" by (auto simp: dirs_def)
  have pde: "pde_at (poke l v s) as i d = pde_at s as i d" if "i < 4" for i d
    using assms that by (auto simp: pde_at_def pd)
  then show "i < 4 \<Longrightarrow> pde_at (poke l v s) as i d = pde_at s as i d" .
  show "i < 4 \<Longrightarrow> pte_at (poke l v s) as i d t = (if l = (frame_of (pde_at s as i d), t) then v else pte_at s as i d t)"
    by (auto simp: pte_at_def pde)
qed

lemma as_wf_poke_low:
  assumes ok: "as_wf s as" and l: "fst l \<notin> dirs s as"
  shows "as_wf (poke l v s) as"
proof -
  have root: "pdpt_slot as i \<noteq> l" for i using l by (auto simp: dirs_def)
  have "table_wf (poke l v s) as i d" if "slot i d" "present (pde_at s as i d)" for i d
    using as_wfD(8) [OF ok that] slot_bounds [OF that(1)] by (auto simp: table_wf_def poke_low [OF l])
  then show ?thesis
    using ok root by (auto simp: as_wf_def poke_low [OF l] inj_on_def image_def slot_bounds)
qed

lemma as_ok_poke_low:
  assumes ok: "as_ok s as" and l: "fst l \<notin> dirs s as"
    and user: "\<And>i d. slot i d \<Longrightarrow> present (pde_at s as i d) \<Longrightarrow> fst l = frame_of (pde_at s as i d) \<Longrightarrow>
      v AND X86_PTE_USER \<noteq> 0 \<Longrightarrow> pde_at s as i d AND X86_PTE_USER \<noteq> 0"
  shows "as_ok (poke l v s) as"
proof -
  have "user_ok (poke l v s) as i d" if "slot i d" "present (pde_at s as i d)" for i d
    using as_okD(2) [OF ok that] user [OF that] slot_bounds [OF that(1)] by (auto simp: user_ok_def poke_low [OF l])
  then show ?thesis
    using as_wf_poke_low [OF as_okD(1) [OF ok] l] by (auto simp: as_ok_def poke_low [OF l] slot_bounds)
qed

text \<open>A write of a directory entry outside the recursive ones changes this entry.\<close>

lemma poke_pde:
  assumes ok: "as_wf s as" and sl: "slot i d"
  shows "j < 4 \<Longrightarrow> pd_of (poke (pd_of s as i, d) e s) as j = pd_of s as j"
    "dirs (poke (pd_of s as i, d) e s) as = dirs s as"
    "j < 4 \<Longrightarrow> pde_at (poke (pd_of s as i, d) e s) as j k = (if j = i \<and> k = d then e else pde_at s as j k)"
proof -
  have i: "i < 4" using sl by (simp add: slot_def)
  then have "pd_of s as i \<noteq> pdpt_frame as" using as_wfD(6) [OF ok] by (metis imageI lessThan_iff)
  then have root: "pdpt_slot as j \<noteq> (pd_of s as i, d)" for j by (auto dest: arg_cong [of _ _ fst])
  then have pd: "pd_of (poke (pd_of s as i, d) e s) as = pd_of s as" by (auto simp: pd_of_def fun_eq_iff)
  then show "j < 4 \<Longrightarrow> pd_of (poke (pd_of s as i, d) e s) as j = pd_of s as j"
    "dirs (poke (pd_of s as i, d) e s) as = dirs s as" by (auto simp: dirs_def)
  show "j < 4 \<Longrightarrow> pde_at (poke (pd_of s as i, d) e s) as j k = (if j = i \<and> k = d then e else pde_at s as j k)"
    using inj_onD [OF as_wfD(5) [OF ok], of j i] i by (auto simp: pde_at_def pd)
qed

lemma as_wf_poke_pde:
  assumes ok: "as_wf s as" and sl: "slot i d"
    and e: "frame_of e \<notin> dirs s as" "page_busy s (frame_of e)" "e AND X86_PTE_RW \<noteq> 0"
  shows "as_wf (poke (pd_of s as i, d) e s) as"
proof -
  let ?s = "poke (pd_of s as i, d) e s"
  have i: "i < 4" using sl by (simp add: slot_def)
  have root: "pdpt_slot as j \<noteq> (pd_of s as i, d)" for j
    using as_wfD(6) [OF ok] i by (metis fst_conv imageI lessThan_iff pdpt_slot_fst)
  have "table_wf ?s as j k" if jk: "slot j k" "present (pde_at ?s as j k)" for j k
    using as_wfD(8) [OF ok jk(1)] jk slot_bounds [OF jk(1)] e by (auto simp: table_wf_def poke_pde [OF ok sl] split: if_splits)
  then show ?thesis
    using ok sl root by (auto simp: as_wf_def poke_pde [OF ok sl] inj_on_def image_def slot_def)
qed

lemma as_wf_frames:
  assumes "as_wf s as" "pmm_ready fr" "pmm_avail fr \<subseteq> pmm_avail (page_frames s)"
  shows "as_wf (s\<lparr>page_frames := fr\<rparr>) as"
proof -
  have "pd_of (s\<lparr>page_frames := fr\<rparr>) = pd_of s" "pde_at (s\<lparr>page_frames := fr\<rparr>) = pde_at s" "dirs (s\<lparr>page_frames := fr\<rparr>) = dirs s"
    by (auto simp: fun_eq_iff pd_of_def pde_at_def dirs_def)
  moreover have "page_busy s f \<Longrightarrow> page_busy (s\<lparr>page_frames := fr\<rparr>) f" for f using assms(3) by (auto simp: page_busy_def)
  ultimately show ?thesis using assms(1,2) unfolding as_wf_def table_wf_def by simp
qed

section \<open>Loops over a page\<close>

lemma each_append: "each f (xs @ ys) s = each f xs s \<bind> each f ys"
  by (induction xs arbitrary: s) (auto simp: bind_assoc split: Option.bind_splits)

definition fill :: "u64 \<Rightarrow> nat \<Rightarrow> (nat \<Rightarrow> u64) \<Rightarrow> vmm \<Rightarrow> vmm" where
  "fill f n w s = s\<lparr>pmem := \<lambda>l. if fst l = f \<and> snd l < n then w (snd l) else pmem s l\<rparr>"

lemma fill_simps [simp]:
  "pmem (fill f n w s) l = (if fst l = f \<and> snd l < n then w (snd l) else pmem s l)" "cr3 (fill f n w s) = cr3 s"
  "page_frames (fill f n w s) = page_frames s" "g_kernel_as (fill f n w s) = g_kernel_as s" "g_nxe_enabled (fill f n w s) = g_nxe_enabled s"
  "page_busy (fill f n w s) = page_busy s" "fill f 0 w s = s"
  by (simp_all add: fill_def page_busy_def fun_eq_iff)

lemma fill_Suc: "fill f (Suc n) w s = poke (f, n) (w n) (fill f n w s)"
  by (auto simp: fill_def poke_def fun_eq_iff less_Suc_eq)

lemma each_fill:
  assumes "\<And>i. i < n \<Longrightarrow> g i (fill f i w s) = Some (poke (f, i) (w i) (fill f i w s))"
  shows "each g [0..<n] s = Some (fill f n w s)"
  using assms by (induction n) (simp_all add: each_append fill_Suc)

lemma fill_low:
  assumes "f \<notin> dirs s as"
  shows "pd_of (fill f n w s) as i = pd_of s as i" "dirs (fill f n w s) as = dirs s as"
    "i < 4 \<Longrightarrow> pde_at (fill f n w s) as i d = pde_at s as i d"
    "i < 4 \<Longrightarrow> pte_at (fill f n w s) as i d t = (if frame_of (pde_at s as i d) = f \<and> t < n then w t else pte_at s as i d t)"
proof -
  have pd: "pd_of (fill f n w s) as = pd_of s as" using assms by (auto simp: pd_of_def fun_eq_iff dirs_def)
  then show "pd_of (fill f n w s) as i = pd_of s as i" "dirs (fill f n w s) as = dirs s as" by (auto simp: dirs_def)
  have pde: "pde_at (fill f n w s) as i d = pde_at s as i d" if "i < 4" for i d
    using assms that by (auto simp: pde_at_def pd)
  then show "i < 4 \<Longrightarrow> pde_at (fill f n w s) as i d = pde_at s as i d" .
  show "i < 4 \<Longrightarrow> pte_at (fill f n w s) as i d t = (if frame_of (pde_at s as i d) = f \<and> t < n then w t else pte_at s as i d t)"
    by (auto simp: pte_at_def pde)
qed

lemma as_wf_fill_low: "as_wf s as \<Longrightarrow> f \<notin> dirs s as \<Longrightarrow> as_wf (fill f n w s) as"
  by (induction n) (simp_all add: fill_Suc as_wf_poke_low fill_low)

text \<open>Filling a page table of the active address space through its recursive address.\<close>

lemma each_fill_table:
  assumes ok: "as_wf s (cr3 s)" and sl: "slot i d" and p: "present (pde_at s (cr3 s) i d)"
  shows "each (\<lambda>k. mem_write (pae_pt_recursive i d k) (w k)) [0..<512] s = Some (fill (frame_of (pde_at s (cr3 s) i d)) 512 w s)"
proof (rule each_fill)
  fix k :: nat
  assume k: "k < 512"
  let ?f = "frame_of (pde_at s (cr3 s) i d)"
  have f: "?f \<notin> dirs s (cr3 s)" using as_wfD(8) [OF ok sl p] by (simp add: table_wf_def)
  have ok': "as_wf (fill ?f k w s) (cr3 s)" by (rule as_wf_fill_low [OF ok f])
  have "mmu (pae_pt_recursive i d k) (fill ?f k w s) = Some (?f, k)"
    using mmu_pt [of "fill ?f k w s", OF _ sl k] ok' p slot_bounds [OF sl] by (simp add: fill_low [OF f])
  then show "mem_write (pae_pt_recursive i d k) (w k) (fill ?f k w s) = Some (poke (?f, k) (w k) (fill ?f k w s))"
    by (rule mem_write_poke)
qed

section \<open>Translation\<close>

text \<open>
  The entry of a page is 0 where its page table is missing. \<open>translate\<close> is what the machine makes of the tables for a
  user access: the frame, whether it may be written, and whether user code may use it.
\<close>

definition entry :: "vmm \<Rightarrow> u32 \<Rightarrow> nat \<Rightarrow> nat \<Rightarrow> nat \<Rightarrow> u64" where
  "entry s as i d t = (if present (pde_at s as i d) then pte_at s as i d t else 0)"

definition translate :: "vmm \<Rightarrow> u32 \<Rightarrow> u32 \<Rightarrow> (u64 \<times> bool \<times> bool) option" where
  "translate s as va =
     (let pdpte = pmem s (pdpt_slot as (pae_pdpt_index (ucast va)));
          pde = pmem s (frame_of pdpte, pae_pd_index (ucast va));
          pte = pmem s (frame_of pde, pae_pt_index (ucast va))
      in if \<not> present pdpte \<or> \<not> present pde \<or> \<not> present pte then None
         else Some (frame_of pte, pde AND X86_PTE_RW \<noteq> 0 \<and> pte AND X86_PTE_RW \<noteq> 0, pde AND X86_PTE_USER \<noteq> 0 \<and> pte AND X86_PTE_USER \<noteq> 0))"

definition page_of :: "u32 \<Rightarrow> nat \<times> nat \<times> nat" where
  "page_of va = (pae_pdpt_index (ucast va), pae_pd_index (ucast va), pae_pt_index (ucast va))"

definition perms :: "u64 \<Rightarrow> (u64 \<times> bool \<times> bool) option" where
  "perms e = (if present e then Some (frame_of e, e AND X86_PTE_RW \<noteq> 0, e AND X86_PTE_USER \<noteq> 0) else None)"

lemma translate_entry:
  assumes ok: "as_ok s as" and p: "page_of va = (i, d, t)" and sl: "slot i d"
  shows "translate s as va = perms (entry s as i d t)"
proof -
  have t: "t < 512" using p by (auto simp: page_of_def)
  have "present (pmem s (pdpt_slot as i))" using as_wfD(2) [OF as_okD(1) [OF ok]] sl by (simp add: slot_def)
  then show ?thesis
    using p t as_wfD(8) [OF as_okD(1) [OF ok] sl] as_okD(2) [OF ok sl]
    by (auto simp: translate_def page_of_def perms_def entry_def table_wf_def user_ok_def pde_at_def pd_of_def pte_at_def Let_def)
qed

lemma mmu_translate: "mmu va s = map_option (\<lambda>(f, _). (f, unat (va AND 0xFFF) div 8)) (translate s (cr3 s) va)"
  by (auto simp: mmu_def translate_def Let_def)

section \<open>Mapping a page\<close>

definition tables :: "vmm \<Rightarrow> u32 \<Rightarrow> u64 set" where
  "tables s as = dirs s as \<union> {frame_of (pde_at s as i d) |i d. slot i d \<and> present (pde_at s as i d)}"

definition unaliased :: "vmm \<Rightarrow> u32 \<Rightarrow> nat \<Rightarrow> nat \<Rightarrow> bool" where
  "unaliased s as i d \<longleftrightarrow>
     (\<forall>j k. slot j k \<longrightarrow> present (pde_at s as j k) \<longrightarrow> frame_of (pde_at s as j k) = frame_of (pde_at s as i d) \<longrightarrow> j = i \<and> k = d)"

lemma tables_pt: "slot i d \<Longrightarrow> present (pde_at s as i d) \<Longrightarrow> frame_of (pde_at s as i d) \<in> tables s as"
  unfolding tables_def by blast

lemma tables_cases:
  assumes "f \<in> tables s as"
  obtains (dir) "f \<in> dirs s as" | (pt) i d where "slot i d" "present (pde_at s as i d)" "f = frame_of (pde_at s as i d)"
  using assms unfolding tables_def by blast

lemma tables_cong:
  assumes "dirs s' as = dirs s as" "\<And>j k. slot j k \<Longrightarrow> frame_of (pde_at s' as j k) = frame_of (pde_at s as j k)"
    "\<And>j k. slot j k \<Longrightarrow> present (pde_at s' as j k) \<longleftrightarrow> present (pde_at s as j k)"
  shows "tables s' as = tables s as" "slot j k \<Longrightarrow> unaliased s' as j k \<longleftrightarrow> unaliased s as j k"
proof -
  have "{frame_of (pde_at s' as i d) |i d. slot i d \<and> present (pde_at s' as i d)} =
      {frame_of (pde_at s as i d) |i d. slot i d \<and> present (pde_at s as i d)}"
    by (rule Collect_cong) (metis assms(2,3))
  then show "tables s' as = tables s as" using assms(1) by (simp add: tables_def)
  show "slot j k \<Longrightarrow> unaliased s' as j k \<longleftrightarrow> unaliased s as j k" using assms(2,3) by (auto simp: unaliased_def)
qed

lemma tables_busy: "as_wf s as \<Longrightarrow> f \<in> tables s as \<Longrightarrow> page_busy s f"
  unfolding tables_def using as_wfD(7,8) by (fastforce simp: table_wf_def)

text \<open>
  What an operation on the entry of one page does: the entry has its new value, every other entry is as before, the
  address space stays well-formed, pages that are in use and are not page tables keep their contents, and no table moves.
\<close>

definition set_entry :: "vmm \<Rightarrow> nat \<Rightarrow> nat \<Rightarrow> nat \<Rightarrow> u64 \<Rightarrow> vmm \<Rightarrow> bool" where
  "set_entry s i d t e s' \<longleftrightarrow>
     as_ok s' (cr3 s) \<and> cr3 s' = cr3 s \<and> g_kernel_as s' = g_kernel_as s \<and> g_nxe_enabled s' = g_nxe_enabled s \<and>
     (\<forall>j k u. slot j k \<longrightarrow> u < 512 \<longrightarrow> entry s' (cr3 s) j k u = (if (j, k, u) = (i, d, t) then e else entry s (cr3 s) j k u)) \<and>
     (\<forall>f u. page_busy s f \<longrightarrow> f \<notin> tables s (cr3 s) \<longrightarrow> pmem s' (f, u) = pmem s (f, u)) \<and>
     (\<forall>j k. slot j k \<longrightarrow> present (pde_at s (cr3 s) j k) \<longrightarrow> unaliased s (cr3 s) j k \<longrightarrow>
        present (pde_at s' (cr3 s) j k) \<and> unaliased s' (cr3 s) j k) \<and>
     (\<forall>f \<in> tables s' (cr3 s). f \<in> tables s (cr3 s) \<or> \<not> page_busy s f)"

lemma poke_entry:
  assumes ok: "as_ok s (cr3 s)" and sl: "slot i d" and t: "t < 512" and p: "present (pde_at s (cr3 s) i d)"
    and un: "unaliased s (cr3 s) i d" and user: "v AND X86_PTE_USER \<noteq> 0 \<Longrightarrow> pde_at s (cr3 s) i d AND X86_PTE_USER \<noteq> 0"
  shows "set_entry s i d t v (poke (frame_of (pde_at s (cr3 s) i d), t) v s)"
proof -
  let ?f = "frame_of (pde_at s (cr3 s) i d)"
  have f: "fst (?f, t) \<notin> dirs s (cr3 s)" using as_wfD(8) [OF as_okD(1) [OF ok] sl p] by (simp add: table_wf_def)
  have pde: "pde_at (poke (?f, t) v s) (cr3 s) j k = pde_at s (cr3 s) j k" if "slot j k" for j k
    using slot_bounds [OF that] by (simp add: poke_low [OF f])
  have "as_ok (poke (?f, t) v s) (cr3 s)"
    by (rule as_ok_poke_low [OF ok f]) (use un user in \<open>auto simp: unaliased_def\<close>)
  moreover have "entry (poke (?f, t) v s) (cr3 s) j k u = (if (j, k, u) = (i, d, t) then v else entry s (cr3 s) j k u)" if "slot j k" for j k u
    using un that p slot_bounds [OF that] by (auto simp: entry_def pde poke_low [OF f] unaliased_def)
  moreover have "?f \<in> tables s (cr3 s)" using sl p by (auto simp: tables_def)
  moreover have "tables (poke (?f, t) v s) (cr3 s) = tables s (cr3 s)"
    by (rule tables_cong) (simp_all add: pde poke_low [OF f])
  moreover have "unaliased (poke (?f, t) v s) (cr3 s) j k = unaliased s (cr3 s) j k" if "slot j k" for j k
    by (rule tables_cong(2) [OF _ _ _ that]) (simp_all add: pde poke_low [OF f])
  ultimately show ?thesis using pde by (auto simp: set_entry_def)
qed

text \<open>Marking a directory entry as usable by user code.\<close>

lemma poke_user:
  fixes s i d
  defines "s1 \<equiv> poke (pd_of s (cr3 s) i, d) (pde_at s (cr3 s) i d OR X86_PTE_USER) s"
  assumes ok: "as_ok s (cr3 s)" and sl: "slot i d" and p: "present (pde_at s (cr3 s) i d)"
  shows "as_ok s1 (cr3 s)" "\<And>j k. slot j k \<Longrightarrow> frame_of (pde_at s1 (cr3 s) j k) = frame_of (pde_at s (cr3 s) j k)"
    "\<And>j k. slot j k \<Longrightarrow> present (pde_at s1 (cr3 s) j k) \<longleftrightarrow> present (pde_at s (cr3 s) j k)"
    "pde_at s1 (cr3 s) i d AND X86_PTE_USER \<noteq> 0"
    "\<And>j k u. slot j k \<Longrightarrow> entry s1 (cr3 s) j k u = entry s (cr3 s) j k u"
    "\<And>f u. f \<notin> dirs s (cr3 s) \<Longrightarrow> pmem s1 (f, u) = pmem s (f, u)" "dirs s1 (cr3 s) = dirs s (cr3 s)"
proof -
  have i: "i < 4" using sl by (simp add: slot_def)
  have user: "frame_of X86_PTE_USER = 0" by (simp add: frame_of_def)
  note wf = as_okD(1) [OF ok]
  have tab: "table_wf s (cr3 s) i d" by (rule as_wfD(8) [OF wf sl p])
  have wf1: "as_wf s1 (cr3 s)"
    unfolding s1_def by (rule as_wf_poke_pde [OF wf sl]) (use tab in \<open>auto simp: table_wf_def user and_or_distrib\<close>)
  have pde: "pde_at s1 (cr3 s) j k = (if j = i \<and> k = d then pde_at s (cr3 s) i d OR X86_PTE_USER else pde_at s (cr3 s) j k)"
    if "slot j k" for j k unfolding s1_def using poke_pde(3) [OF wf sl] slot_bounds [OF that] by simp
  show fr: "\<And>j k. slot j k \<Longrightarrow> frame_of (pde_at s1 (cr3 s) j k) = frame_of (pde_at s (cr3 s) j k)"
    "\<And>j k. slot j k \<Longrightarrow> present (pde_at s1 (cr3 s) j k) \<longleftrightarrow> present (pde_at s (cr3 s) j k)"
    "pde_at s1 (cr3 s) i d AND X86_PTE_USER \<noteq> 0"
    using pde sl by (auto simp: user and_or_distrib)
  show out: "\<And>f u. f \<notin> dirs s (cr3 s) \<Longrightarrow> pmem s1 (f, u) = pmem s (f, u)" using i by (auto simp: s1_def)
  show "dirs s1 (cr3 s) = dirs s (cr3 s)" unfolding s1_def by (rule poke_pde(2) [OF wf sl])
  have pte: "pte_at s1 (cr3 s) j k u = pte_at s (cr3 s) j k u" if "slot j k" "present (pde_at s (cr3 s) j k)" for j k u
    using as_wfD(8) [OF wf that] fr that out by (simp add: pte_at_def table_wf_def)
  then show "\<And>j k u. slot j k \<Longrightarrow> entry s1 (cr3 s) j k u = entry s (cr3 s) j k u"
    using fr by (auto simp: entry_def)
  show "as_ok s1 (cr3 s)"
    using wf1 as_okD(2) [OF ok] fr pte pde by (auto simp: as_ok_def user_ok_def and_or_distrib)
qed

lemma phys_user: "(x AND 0xFFFFF000) AND X86_PTE_USER = 0" "(x AND 0xFFFFF000) AND X86_PTE_RW = 0" "(x AND 0xFFFFF000) AND X86_PTE_PRESENT = 0"
  by (simp_all add: and.assoc)

text \<open>A step that changes no entry, followed by a step that changes one.\<close>

definition same_entries :: "vmm \<Rightarrow> vmm \<Rightarrow> bool" where
  "same_entries s s' \<longleftrightarrow>
     as_ok s' (cr3 s) \<and> cr3 s' = cr3 s \<and> g_kernel_as s' = g_kernel_as s \<and> g_nxe_enabled s' = g_nxe_enabled s \<and>
     (\<forall>j k u. slot j k \<longrightarrow> u < 512 \<longrightarrow> entry s' (cr3 s) j k u = entry s (cr3 s) j k u) \<and>
     (\<forall>f u. page_busy s f \<longrightarrow> page_busy s' f \<and> (f \<notin> tables s (cr3 s) \<longrightarrow> f \<notin> tables s' (cr3 s) \<and> pmem s' (f, u) = pmem s (f, u))) \<and>
     (\<forall>j k. slot j k \<longrightarrow> present (pde_at s (cr3 s) j k) \<longrightarrow> unaliased s (cr3 s) j k \<longrightarrow>
        present (pde_at s' (cr3 s) j k) \<and> unaliased s' (cr3 s) j k)"

lemma same_then_set:
  assumes "same_entries s s1" "set_entry s1 i d t e s'"
  shows "set_entry s i d t e s'"
proof -
  have eq: "cr3 s1 = cr3 s" using assms(1) by (simp add: same_entries_def)
  show ?thesis
    using assms unfolding same_entries_def set_entry_def eq by (elim conjE, intro conjI) (simp_all, blast+)
qed

lemma map_pte_spec:
  assumes ok: "as_ok s (cr3 s)" and ix: "pae_pdpt_index virt = i" "pae_pd_index virt = d" "pae_pt_index virt = t"
    and sl: "slot i d" and p: "present (pde_at s (cr3 s) i d)" and un: "unaliased s (cr3 s) i d"
  shows "\<exists>s'. map_pte phys virt flags s = Some s' \<and> page_frames s' = page_frames s \<and>
    set_entry s i d t ((phys AND 0xFFFFF000) OR vmm_flags_to_x86 flags s) s'"
proof -
  have b: "i < 4" "d < 512" "t < 512" using sl ix by (auto simp: slot_def)
  have rd: "mem_read (pae_pd_recursive i d) s = Some (pde_at s (cr3 s) i d)"
    using mem_read_at [OF mmu_pd [OF as_okD(1) [OF ok] b(1,2)]] by (simp add: pde_at_def)
  define s1 where "s1 = (if flags AND VMM_FLAG_USER \<noteq> 0 \<and> pde_at s (cr3 s) i d AND X86_PTE_USER = 0
    then poke (pd_of s (cr3 s) i, d) (pde_at s (cr3 s) i d OR X86_PTE_USER) s else s)"
  define e where "e = (phys AND 0xFFFFF000) OR vmm_flags_to_x86 flags s"
  note pu = poke_user [OF ok sl p]
  have s1: "as_ok s1 (cr3 s)" "cr3 s1 = cr3 s" "page_frames s1 = page_frames s" "present (pde_at s1 (cr3 s) i d)"
    "unaliased s1 (cr3 s) i d" "e AND X86_PTE_USER \<noteq> 0 \<Longrightarrow> pde_at s1 (cr3 s) i d AND X86_PTE_USER \<noteq> 0"
    "vmm_flags_to_x86 flags s1 = vmm_flags_to_x86 flags s"
    using ok p un pu sl tables_cong(2) [OF pu(7,2,3) sl]
    by (auto simp: s1_def e_def and_or_distrib phys_user flags_bits)
  have same: "same_entries s s1"
    using pu s1(1,2) tables_cong [OF pu(7,2,3)] ok by (auto simp: same_entries_def s1_def tables_def)
  have "map_pte phys virt flags s =
      mem_write (pae_pt_recursive i d t) ((phys AND 0xFFFFF000) OR vmm_flags_to_x86 flags s1) s1"
    using mem_write_poke [OF mmu_pd [OF as_okD(1) [OF ok] b(1,2)]] by (auto simp: map_pte_def ix Let_def rd s1_def)
  also have "\<dots> = Some (poke (frame_of (pde_at s1 (cr3 s1) i d), t) e s1)"
    using mem_write_poke [OF mmu_pt [OF _ sl b(3)], of s1] as_okD(1) s1 by (simp add: e_def)
  finally show ?thesis
    using same_then_set [OF same poke_entry [of s1 i d t e]] s1 sl b by (simp add: e_def)
qed

lemma ucast_page:
  assumes "(p :: u32) AND 0xFFF = 0"
  shows "frame_of (ucast p) = ucast p" "(ucast p :: u64) AND X86_PTE_PRESENT = 0" "(ucast p :: u64) AND X86_PTE_USER = 0"
proof -
  have eq: "ucast p = (ucast p AND 0xFFFFF000 :: u64)" by (rule page_mask [OF assms])
  show "frame_of (ucast p) = ucast p" by (subst (1 2) eq) simp
  show "(ucast p :: u64) AND X86_PTE_PRESENT = 0" "(ucast p :: u64) AND X86_PTE_USER = 0" by (subst eq, simp add: and.assoc)+
qed

lemma inj_ucast_page: "(ucast (p :: u32) :: u64) = ucast q \<longleftrightarrow> p = q"
  by (metis unat_ucast_u64 word_unat_eq_iff)

text \<open>Adding an empty page table: a fresh page, with a directory entry that points to it.\<close>

lemma new_table:
  fixes s i d fl fr p
  defines "s2 \<equiv> fill (ucast p) 512 (\<lambda>_. 0) (poke (pd_of s (cr3 s) i, d) (ucast p OR (X86_PTE_PRESENT OR X86_PTE_RW OR fl)) (s\<lparr>page_frames := fr\<rparr>))"
  assumes ok: "as_ok s (cr3 s)" and sl: "slot i d" and np: "\<not> present (pde_at s (cr3 s) i d)"
    and al: "pmm_alloc_page (page_frames s) = (fr, p)" "p \<noteq> 0" and fl: "fl = 0 \<or> fl = X86_PTE_USER"
  shows "each (\<lambda>k. mem_write (pae_pt_recursive i d k) 0) [0..<512]
      (poke (pd_of s (cr3 s) i, d) (ucast p OR (X86_PTE_PRESENT OR X86_PTE_RW OR fl)) (s\<lparr>page_frames := fr\<rparr>)) = Some s2"
    "same_entries s s2" "page_frames s2 = fr" "present (pde_at s2 (cr3 s) i d)" "unaliased s2 (cr3 s) i d"
proof -
  let ?as = "cr3 s"
  define e where "e = (ucast p :: u64) OR (X86_PTE_PRESENT OR X86_PTE_RW OR fl)"
  define s0 where "s0 = s\<lparr>page_frames := fr\<rparr>"
  define s1 where "s1 = poke (pd_of s ?as i, d) e s0"
  note wf = as_okD(1) [OF ok]
  note rdy = as_wfD(1) [OF wf]
  have av: "p \<in> pmm_avail (page_frames s)" "pmm_avail fr = pmm_avail (page_frames s) - {p}" "p AND 0xFFF = 0"
    using pmm_shared.al_avail [OF rdy al] pmm_shared.avail_page [OF rdy] by auto
  have nb: "\<not> page_busy s (ucast p)" using av(1) by (simp add: page_busy_def)
  have wf0: "as_wf s0 ?as"
    unfolding s0_def by (rule as_wf_frames [OF wf pmm_frames.al_inv [OF rdy al(1)]]) (use av(2) in auto)
  have view0: "pd_of s0 = pd_of s" "pde_at s0 = pde_at s" "pte_at s0 = pte_at s" "dirs s0 = dirs s" "cr3 s0 = cr3 s" "pmem s0 = pmem s"
    "page_frames s0 = fr" by (auto simp: fun_eq_iff s0_def pd_of_def pde_at_def pte_at_def dirs_def)
  have fe: "frame_of e = ucast p" using fl ucast_page [OF av(3)] by (auto simp: e_def frame_of_def and_or_distrib)
  have e: "present e" "e AND X86_PTE_RW \<noteq> 0" using fl by (auto simp: e_def and_or_distrib)
  have nd: "ucast p \<notin> dirs s ?as" "ucast p \<notin> tables s ?as" using nb tables_busy [OF wf] as_wfD(7) [OF wf] by blast+
  have b0: "page_busy s0 f \<longleftrightarrow> page_busy s f \<or> f = ucast p" for f
    using image_set_diff [of "ucast :: u32 \<Rightarrow> u64"] by (auto simp: page_busy_def view0 av(2) inj_def inj_ucast_page)
  have wf1: "as_wf s1 ?as"
    unfolding s1_def by (rule as_wf_poke_pde [OF wf0 sl, unfolded view0]) (use e nd in \<open>simp_all add: fe b0\<close>)
  have pde1: "pde_at s1 ?as j k = (if j = i \<and> k = d then e else pde_at s ?as j k)" if "slot j k" for j k
    unfolding s1_def using poke_pde(3) [OF wf0 sl, of j e k] slot_bounds [OF that] by (simp add: view0)
  have d1: "dirs s1 ?as = dirs s ?as" unfolding s1_def using poke_pde(2) [OF wf0 sl, of e] by (simp add: view0)
  have s2: "s2 = fill (ucast p) 512 (\<lambda>_. 0) s1" by (simp add: s2_def s1_def s0_def e_def)
  have cr1: "cr3 s1 = ?as" by (simp add: s1_def view0)
  have pde2: "pde_at s2 ?as j k = (if j = i \<and> k = d then e else pde_at s ?as j k)" if "slot j k" for j k
    using fill_low(3) [of "ucast p" s1 ?as j] d1 nd slot_bounds [OF that] by (simp add: s2 pde1 [OF that])
  show "each (\<lambda>k. mem_write (pae_pt_recursive i d k) 0) [0..<512]
      (poke (pd_of s (cr3 s) i, d) (ucast p OR (X86_PTE_PRESENT OR X86_PTE_RW OR fl)) (s\<lparr>page_frames := fr\<rparr>)) = Some s2"
    using each_fill_table [of s1 i d "\<lambda>_. 0"] wf1 sl e by (simp add: cr1 pde1 fe s2) (simp add: s1_def s0_def e_def)
  show "page_frames s2 = fr" by (simp add: s2 s1_def view0)
  show pr: "present (pde_at s2 ?as i d)" using pde2 [OF sl] e by simp
  have other: "frame_of (pde_at s ?as j k) \<noteq> ucast p" if "slot j k" "present (pde_at s ?as j k)" for j k
    using tables_pt [OF that] nd(2) by metis
  then show un: "unaliased s2 ?as i d" using pde2 fe sl by (auto simp: unaliased_def)
  have pm: "pmem s2 (f, u) = pmem s (f, u)" if "f \<noteq> ucast p" "f \<notin> dirs s ?as" for f u
    using that sl by (auto simp: s2 s1_def view0 slot_def)
  have tab2: "f \<in> tables s2 ?as \<Longrightarrow> f \<in> tables s ?as \<or> f = ucast p" for f
  proof (erule tables_cases)
    show "f \<in> dirs s2 ?as \<Longrightarrow> ?thesis" using fill_low(2) [of "ucast p" s1 ?as] d1 nd by (simp add: s2 tables_def)
    fix j k
    assume "slot j k" "present (pde_at s2 ?as j k)" "f = frame_of (pde_at s2 ?as j k)"
    then show ?thesis using tables_pt [of j k s ?as] by (simp add: pde2 fe split: if_splits)
  qed
  have ent: "entry s2 ?as j k u = entry s ?as j k u" if "slot j k" "u < 512" for j k u
    using pde2 that np fe other that as_wfD(8) [OF wf, of j k] pm by (auto simp: entry_def pte_at_def table_wf_def s2)
  have wf2: "as_wf s2 ?as" unfolding s2 by (rule as_wf_fill_low [OF wf1]) (simp add: d1 nd)
  have "user_ok s2 ?as j k" if "slot j k" "present (pde_at s2 ?as j k)" for j k
    using ent [OF that(1)] pde2 [OF that(1)] as_okD(2) [OF ok that(1)] np that by (auto simp: user_ok_def entry_def split: if_splits)
  then have ok2: "as_ok s2 ?as" using wf2 by (simp add: as_ok_def)
  have "unaliased s2 ?as j k" "present (pde_at s2 ?as j k)" if "slot j k" "present (pde_at s ?as j k)" "unaliased s ?as j k" for j k
  proof -
    have "\<not> (j = i \<and> k = d)" using that(2) np by auto
    then have jk: "pde_at s2 ?as j k = pde_at s ?as j k" using pde2 [OF that(1)] by auto
    show "present (pde_at s2 ?as j k)" using that(2) jk by simp
    show "unaliased s2 ?as j k" using that(3) other [OF that(1,2)] unfolding unaliased_def jk by (auto simp: pde2 fe split: if_splits)
  qed
  moreover have "page_busy s2 f \<longleftrightarrow> page_busy s0 f" for f by (simp add: s2 s1_def)
  moreover have "f \<noteq> ucast p" "f \<notin> tables s ?as \<longrightarrow> pmem s2 (f, u) = pmem s (f, u)" if "page_busy s f" for f u
    using that nb pm [of f u] by (auto simp: tables_def)
  moreover have "cr3 s2 = cr3 s" "g_kernel_as s2 = g_kernel_as s" "g_nxe_enabled s2 = g_nxe_enabled s"
    by (simp_all add: s2 s1_def s0_def)
  ultimately show "same_entries s s2"
    using ok2 ent tab2 b0 unfolding same_entries_def by (intro conjI) blast+
qed

lemma map_page_spec:
  assumes ok: "as_ok s (cr3 s)" and ix: "pae_pdpt_index virt = i" "pae_pd_index virt = d" "pae_pt_index virt = t"
    and sl: "slot i d" and un: "present (pde_at s (cr3 s) i d) \<Longrightarrow> unaliased s (cr3 s) i d"
  obtains (oom) fr where "vmm_map_page_nolock phys virt flags s = Some (s\<lparr>page_frames := fr\<rparr>)"
      "\<not> present (pde_at s (cr3 s) i d)" "pmm_avail (page_frames s) = {}" "as_ok (s\<lparr>page_frames := fr\<rparr>) (cr3 s)"
    | (set) s' where "vmm_map_page_nolock phys virt flags s = Some s'"
      "set_entry s i d t ((phys AND 0xFFFFF000) OR vmm_flags_to_x86 flags s) s'"
      "present (pde_at s (cr3 s) i d) \<Longrightarrow> page_frames s' = page_frames s"
      "\<And>p. 0 < pmm_refs (page_frames s) p \<Longrightarrow> pmm_refs (page_frames s') p = pmm_refs (page_frames s) p"
      "present (pde_at s (cr3 s) i d) \<or> pmm_avail (page_frames s) \<noteq> {}"
proof -
  have b: "i < 4" "d < 512" using sl by (auto simp: slot_def)
  note wf = as_okD(1) [OF ok]
  note pd = mmu_pd [OF wf b]
  have rd: "mem_read (pae_pd_recursive i d) s = Some (pde_at s (cr3 s) i d)"
    using mem_read_at [OF pd] by (simp add: pde_at_def)
  show thesis
  proof (cases "present (pde_at s (cr3 s) i d)")
    case True
    then show thesis
      using map_pte_spec [OF ok ix sl True un [OF True], of phys flags] set by (auto simp: vmm_map_page_nolock_def ix Let_def rd)
  next
    case False
    obtain fr p where al: "pmm_alloc_page (page_frames s) = (fr, p)" by (cases "pmm_alloc_page (page_frames s)")
    note rdy = as_wfD(1) [OF wf]
    show thesis
    proof (cases "p = 0")
      case True
      then have av: "pmm_avail (page_frames s) = {}" "pmm_avail fr = {}" using pmm_shared.al_none [OF rdy] al by auto
      have "as_wf (s\<lparr>page_frames := fr\<rparr>) (cr3 s)" by (rule as_wf_frames [OF wf pmm_frames.al_inv [OF rdy al]]) (simp add: av)
      then have "as_ok (s\<lparr>page_frames := fr\<rparr>) (cr3 s)"
        using ok by (simp add: as_ok_def user_ok_def pde_at_def pte_at_def pd_of_def)
      moreover have "vmm_map_page_nolock phys virt flags s = Some (s\<lparr>page_frames := fr\<rparr>)"
        using False True al by (simp add: vmm_map_page_nolock_def ix Let_def rd)
      ultimately show thesis using oom False av by blast
    next
      case p: False
      define fl where "fl = (if flags AND VMM_FLAG_USER \<noteq> 0 then X86_PTE_USER else 0)"
      have "fl = 0 \<or> fl = X86_PTE_USER" by (simp add: fl_def)
      note nt = new_table [OF ok sl False al p this]
      let ?s2 = "fill (ucast p) 512 (\<lambda>_. 0) (poke (pd_of s (cr3 s) i, d) (ucast p OR (X86_PTE_PRESENT OR X86_PTE_RW OR fl)) (s\<lparr>page_frames := fr\<rparr>))"
      have c2: "cr3 ?s2 = cr3 s" "as_ok ?s2 (cr3 s)" using nt(2) by (auto simp: same_entries_def)
      have "mmu (pae_pd_recursive i d) (s\<lparr>page_frames := fr\<rparr>) = Some (pd_of s (cr3 s) i, d)" using pd by (simp add: mmu_def)
      from mem_write_poke [OF this]
      have run: "vmm_map_page_nolock phys virt flags s = map_pte phys virt flags ?s2"
        using False p al nt(1) by (simp add: vmm_map_page_nolock_def ix Let_def rd flip: fl_def)
      obtain s' where s': "map_pte phys virt flags ?s2 = Some s'" "page_frames s' = page_frames ?s2"
        "set_entry ?s2 i d t ((phys AND 0xFFFFF000) OR vmm_flags_to_x86 flags ?s2) s'"
        using map_pte_spec [of ?s2, OF _ ix sl, of phys flags] nt(4,5) c2 by auto
      have "vmm_flags_to_x86 flags ?s2 = vmm_flags_to_x86 flags s" by (simp add: vmm_flags_to_x86_def)
      moreover have "pmm_refs (page_frames s') q = pmm_refs (page_frames s) q" if "0 < pmm_refs (page_frames s) q" for q
        using pmm_frames.al_page [OF rdy al p] that s'(2) nt(3) by auto
      moreover have "pmm_avail (page_frames s) \<noteq> {}" using pmm_shared.al_avail [OF rdy al p] by auto
      ultimately show thesis using set [of s'] same_then_set [OF nt(2) s'(3)] run s'(1) False by simp
    qed
  qed
qed

lemma set_entry_translate:
  assumes ok: "as_ok s (cr3 s)" and se: "set_entry s i d t e s'" and va: "page_of va = (j, k, u)" "slot j k"
  shows "translate s' (cr3 s) va = (if page_of va = (i, d, t) then perms e else translate s (cr3 s) va)"
proof -
  have u: "u < 512" using va(1) by (auto simp: page_of_def)
  have "translate s' (cr3 s) va = perms (entry s' (cr3 s) j k u)"
    using se va by (intro translate_entry) (auto simp: set_entry_def)
  also have "entry s' (cr3 s) j k u = (if (j, k, u) = (i, d, t) then e else entry s (cr3 s) j k u)"
    using se va(2) u by (simp add: set_entry_def)
  finally show ?thesis using translate_entry [OF ok va] va(1) by auto
qed

text \<open>Addresses outside the window of the recursive entries.\<close>

definition ordinary :: "u32 \<Rightarrow> bool" where
  "ordinary va \<longleftrightarrow> slot (pae_pdpt_index (ucast va)) (pae_pd_index (ucast va))"

text \<open>
  C32. Mapping a page in a well-formed address space whose page table for the address, if there is one, is not shared with
  another range: the kernel does not fault, and either no page was left for a missing page table and nothing is mapped, or
  afterwards the address translates to the given frame with exactly the permissions asked for. Every other page outside
  the window of the recursive entries translates as before, the address space stays well-formed, and no page in use other
  than the page tables changes.
\<close>

theorem vmm_map_page_correct:
  assumes ok: "as_ok s (cr3 s)" and virt: "page_of virt = (i, d, t)" "ordinary virt"
    and un: "present (pde_at s (cr3 s) i d) \<longrightarrow> unaliased s (cr3 s) i d" and flags: "flags AND VMM_FLAG_PRESENT \<noteq> 0"
  shows "\<exists>s'. vmm_map_page_nolock phys (ucast virt) flags s = Some s' \<and> as_ok s' (cr3 s) \<and>
    (if \<not> present (pde_at s (cr3 s) i d) \<and> pmm_avail (page_frames s) = {}
     then \<forall>va. translate s' (cr3 s) va = translate s (cr3 s) va
     else translate s' (cr3 s) virt = Some (phys AND 0xFFFFF000, flags AND VMM_FLAG_RW \<noteq> 0, flags AND VMM_FLAG_USER \<noteq> 0) \<and>
       (\<forall>va. ordinary va \<and> page_of va \<noteq> page_of virt \<longrightarrow> translate s' (cr3 s) va = translate s (cr3 s) va) \<and>
       (\<forall>f u. page_busy s f \<and> f \<notin> tables s (cr3 s) \<longrightarrow> pmem s' (f, u) = pmem s (f, u)))"
proof -
  have ix: "pae_pdpt_index (ucast virt) = i" "pae_pd_index (ucast virt) = d" "pae_pt_index (ucast virt) = t" and sl: "slot i d"
    using virt by (auto simp: page_of_def ordinary_def)
  have perms: "perms ((phys AND 0xFFFFF000) OR vmm_flags_to_x86 flags s) =
      Some (phys AND 0xFFFFF000, flags AND VMM_FLAG_RW \<noteq> 0, flags AND VMM_FLAG_USER \<noteq> 0)"
    using flags by (simp add: perms_def and_or_distrib phys_user flags_bits) (simp add: frame_of_def)
  show ?thesis
  proof (cases rule: map_page_spec [OF ok ix sl un [rule_format], of phys flags, consumes 0, case_names p oom set])
    case (oom fr)
    then show ?thesis by (simp add: translate_def)
  next
    case (set s')
    then show ?thesis
      using set set_entry_translate [OF ok set(2)] perms virt sl by (auto simp: set_entry_def ordinary_def page_of_def)
  qed
qed

section \<open>Other operations on one page\<close>

lemma read_pde: "as_ok s (cr3 s) \<Longrightarrow> slot i d \<Longrightarrow> mem_read (pae_pd_recursive i d) s = Some (pde_at s (cr3 s) i d)"
  using mem_read_at [OF mmu_pd] as_okD(1) slot_bounds by (simp add: pde_at_def)

lemma read_pte:
  "as_ok s (cr3 s) \<Longrightarrow> slot i d \<Longrightarrow> k < 512 \<Longrightarrow> present (pde_at s (cr3 s) i d) \<Longrightarrow>
   mem_read (pae_pt_recursive i d k) s = Some (pte_at s (cr3 s) i d k)"
  using mem_read_at [OF mmu_pt] as_okD(1) by (simp add: pte_at_def)

lemma write_pte:
  "as_ok s (cr3 s) \<Longrightarrow> slot i d \<Longrightarrow> k < 512 \<Longrightarrow> present (pde_at s (cr3 s) i d) \<Longrightarrow>
   mem_write (pae_pt_recursive i d k) v s = Some (poke (frame_of (pde_at s (cr3 s) i d), k) v s)"
  using mem_write_poke [OF mmu_pt] as_okD(1) by simp

lemma set_entry_refl:
  assumes "as_ok s (cr3 s)" "entry s (cr3 s) i d t = e"
  shows "set_entry s i d t e s"
  using assms by (auto simp: set_entry_def)

lemma unmap_page_spec:
  assumes ok: "as_ok s (cr3 s)" and ix: "pae_pdpt_index virt = i" "pae_pd_index virt = d" "pae_pt_index virt = t"
    and sl: "slot i d" and un: "present (pde_at s (cr3 s) i d) \<Longrightarrow> unaliased s (cr3 s) i d"
  shows "\<exists>s'. vmm_unmap_page_nolock virt s = Some s' \<and> page_frames s' = page_frames s \<and> set_entry s i d t 0 s'"
proof (cases "present (pde_at s (cr3 s) i d)")
  case True
  have t: "t < 512" using ix by auto
  then show ?thesis
    using poke_entry [OF ok sl t True un [OF True], of 0] True
    by (simp add: vmm_unmap_page_nolock_def Let_def ix read_pde [OF ok sl] write_pte [OF ok sl t True])
next
  case False
  then show ?thesis
    using set_entry_refl [OF ok, of i d t 0] by (simp add: vmm_unmap_page_nolock_def Let_def ix read_pde [OF ok sl] entry_def)
qed

lemma set_flags_spec:
  assumes ok: "as_ok s (cr3 s)" and ix: "pae_pdpt_index virt = i" "pae_pd_index virt = d" "pae_pt_index virt = t"
    and sl: "slot i d" and un: "present (pde_at s (cr3 s) i d) \<Longrightarrow> unaliased s (cr3 s) i d"
    and user: "flags AND VMM_FLAG_USER \<noteq> 0 \<Longrightarrow> present (entry s (cr3 s) i d t) \<Longrightarrow> pde_at s (cr3 s) i d AND X86_PTE_USER \<noteq> 0"
  shows "\<exists>s'. vmm_set_page_flags_nolock virt flags s = Some s' \<and> page_frames s' = page_frames s \<and>
    set_entry s i d t (if present (entry s (cr3 s) i d t)
      then frame_of (entry s (cr3 s) i d t) OR vmm_flags_to_x86 flags s else entry s (cr3 s) i d t) s'"
proof (cases "present (entry s (cr3 s) i d t)")
  case True
  have t: "t < 512" using ix by auto
  have p: "present (pde_at s (cr3 s) i d)" and e: "entry s (cr3 s) i d t = pte_at s (cr3 s) i d t"
    using True by (auto simp: entry_def split: if_splits)
  have "frame_of x AND X86_PTE_USER = 0" for x by (simp add: frame_of_def and.assoc)
  then show ?thesis
    using poke_entry [OF ok sl t p un [OF p], of "frame_of (pte_at s (cr3 s) i d t) OR vmm_flags_to_x86 flags s"] True p user
    by (simp add: vmm_set_page_flags_nolock_def Let_def ix read_pde [OF ok sl] read_pte [OF ok sl t p] write_pte [OF ok sl t p] e
        and_or_distrib flags_bits flip: frame_of_def)
next
  case False
  have t: "t < 512" using ix by auto
  have "vmm_set_page_flags_nolock virt flags s = Some s"
    using False read_pte [OF ok sl t] by (auto simp: vmm_set_page_flags_nolock_def Let_def ix read_pde [OF ok sl] entry_def)
  then show ?thesis using set_entry_refl [OF ok refl] False by auto
qed

lemma virt_to_phys_spec:
  assumes ok: "as_ok s (cr3 s)" and virt: "page_of virt = (i, d, t)" "slot i d"
  shows "vmm_virt_to_phys (ucast virt) s =
    Some (if present (entry s (cr3 s) i d t) then ucast (entry s (cr3 s) i d t AND NOT 0xFFF) else 0)"
proof -
  have ix: "pae_pdpt_index (ucast virt) = i" "pae_pd_index (ucast virt) = d" "pae_pt_index (ucast virt) = t" "t < 512"
    using virt by (auto simp: page_of_def)
  then show ?thesis
    using read_pte [OF ok virt(2) ix(4)] by (auto simp: vmm_virt_to_phys_def Let_def read_pde [OF ok virt(2)] entry_def)
qed

section \<open>Copying a page\<close>

lemma frames_view [simp]:
  "pd_of (s\<lparr>page_frames := fr\<rparr>) as i = pd_of s as i" "pde_at (s\<lparr>page_frames := fr\<rparr>) as i d = pde_at s as i d"
  "pte_at (s\<lparr>page_frames := fr\<rparr>) as i d t = pte_at s as i d t" "dirs (s\<lparr>page_frames := fr\<rparr>) as = dirs s as"
  "entry (s\<lparr>page_frames := fr\<rparr>) as i d t = entry s as i d t" "tables (s\<lparr>page_frames := fr\<rparr>) as = tables s as"
  "unaliased (s\<lparr>page_frames := fr\<rparr>) as i d = unaliased s as i d" "translate (s\<lparr>page_frames := fr\<rparr>) as va = translate s as va"
  by (simp_all add: pd_of_def pde_at_def pte_at_def dirs_def entry_def tables_def unaliased_def translate_def)

lemma as_ok_frames:
  assumes "as_ok s as" "pmm_ready fr" "pmm_avail fr \<subseteq> pmm_avail (page_frames s)"
  shows "as_ok (s\<lparr>page_frames := fr\<rparr>) as"
  using assms as_wf_frames [of s as fr] by (simp add: as_ok_def user_ok_def)

lemma fill_data:
  assumes ok: "as_ok s as" and f: "f \<notin> tables s as"
  shows "as_ok (fill f n w s) as" "slot j k \<Longrightarrow> pde_at (fill f n w s) as j k = pde_at s as j k"
    "slot j k \<Longrightarrow> entry (fill f n w s) as j k u = entry s as j k u" "tables (fill f n w s) as = tables s as"
    "slot j k \<Longrightarrow> unaliased (fill f n w s) as j k = unaliased s as j k"
proof -
  have fd: "f \<notin> dirs s as" using f by (simp add: tables_def)
  have pde: "pde_at (fill f n w s) as j k = pde_at s as j k" if "slot j k" for j k
    using fill_low(3) [OF fd] slot_bounds [OF that] by simp
  then show "slot j k \<Longrightarrow> pde_at (fill f n w s) as j k = pde_at s as j k" .
  have pte: "pte_at (fill f n w s) as j k u = pte_at s as j k u" if "slot j k" "present (pde_at s as j k)" for j k u
    using fill_low(4) [OF fd] slot_bounds [OF that(1)] tables_pt [OF that] f by auto
  then show ent: "slot j k \<Longrightarrow> entry (fill f n w s) as j k u = entry s as j k u" for j k u by (simp add: entry_def pde)
  show "as_ok (fill f n w s) as"
    using as_wf_fill_low [OF as_okD(1) [OF ok] fd] ok pde pte by (auto simp: as_ok_def user_ok_def)
  show "tables (fill f n w s) as = tables s as" "slot j k \<Longrightarrow> unaliased (fill f n w s) as j k = unaliased s as j k"
    by (rule tables_cong; simp add: pde fill_low(2) [OF fd])+
qed

lemma fill_data_translate:
  assumes ok: "as_ok s as" and f: "f \<notin> tables s as" and va: "ordinary va"
  shows "translate (fill f n w s) as va = translate s as va"
proof -
  obtain i d t where p: "page_of va = (i, d, t)" by (cases "page_of va")
  then have sl: "slot i d" using va by (simp add: ordinary_def page_of_def)
  show ?thesis
    using translate_entry [OF fill_data(1) [OF ok f] p sl] translate_entry [OF ok p sl] fill_data(3) [OF ok f sl] by simp
qed

lemma unat_in_page:
  assumes "(va :: u32) AND 0xFFF = 0" "i < 512"
  shows "unat (va + of_nat (8 * i)) = unat va + 8 * i"
proof -
  have m: "unat va mod 4096 = 0" using assms(1) page_offset [of va] by simp
  then obtain q where "unat va = 4096 * q" by (auto elim: dvdE simp: mod_eq_0_iff_dvd)
  moreover have "unat va < 2 ^ 32" using unsigned_less [of va] by simp
  ultimately have "unat va + 8 * i < 2 ^ 32" using assms(2) by simp
  then show ?thesis by (simp add: unat_word_ariths unat_of_nat take_bit_nat_eq_self)
qed

lemma mmu_page:
  assumes al: "va AND 0xFFF = 0" and i: "i < 512"
  shows "mmu (va + of_nat (8 * i)) s = map_option (\<lambda>(f, _). (f, i)) (translate s (cr3 s) va)"
proof -
  obtain q where q: "unat va = 4096 * q" using al page_offset [of va] by (auto elim: dvdE simp: mod_eq_0_iff_dvd)
  have d: "(4096 * q + 8 * i) div 2 ^ 12 = q" using i by (intro div_nat_eqI) simp_all
  have dd: "x div 2 ^ 21 = x div 2 ^ 12 div 512" "x div 2 ^ 30 = x div 2 ^ 12 div 2 ^ 18" for x :: nat
    by (simp_all add: div_mult2_eq [symmetric])
  have ix: "pae_pdpt_index (ucast (va + of_nat (8 * i))) = pae_pdpt_index (ucast va)"
    "pae_pd_index (ucast (va + of_nat (8 * i))) = pae_pd_index (ucast va)"
    "pae_pt_index (ucast (va + of_nat (8 * i))) = pae_pt_index (ucast va)"
    unfolding pae_index_nat unat_ucast_u64 unat_in_page [OF al i] dd q d by simp_all
  have off: "unat ((va + of_nat (8 * i)) AND 0xFFF) div 8 = i"
    unfolding page_offset unat_in_page [OF al i] q using i by simp
  have "translate s (cr3 s) (va + of_nat (8 * i)) = translate s (cr3 s) va" unfolding translate_def ix ..
  then show ?thesis unfolding mmu_translate off by simp
qed

lemma copy_page_spec:
  assumes ok: "as_ok s (cr3 s)" and al: "src AND 0xFFF = 0" "dst AND 0xFFF = 0" and va: "ordinary src" "ordinary dst"
    and tr: "translate s (cr3 s) src = Some (f, rw, us)" "translate s (cr3 s) dst = Some (g, rw', us')"
    and g: "g \<notin> tables s (cr3 s)" "g \<noteq> f"
  shows "copy_page dst src s = Some (fill g 512 (\<lambda>i. pmem s (f, i)) s)"
  unfolding copy_page_def
proof (rule each_fill)
  fix i :: nat
  assume i: "i < 512"
  let ?s = "fill g i (\<lambda>i. pmem s (f, i)) s"
  have m: "mmu (src + of_nat (8 * i)) ?s = Some (f, i)" "mmu (dst + of_nat (8 * i)) ?s = Some (g, i)"
    using mmu_page [OF al(1) i, of ?s] mmu_page [OF al(2) i, of ?s] tr by (simp_all add: fill_data_translate [OF ok g(1)] va)
  show "mem_read (src + of_nat (8 * i)) ?s \<bind> (\<lambda>w. mem_write (dst + of_nat (8 * i)) w ?s) = Some (poke (g, i) (pmem s (f, i)) ?s)"
    using mem_read_at [OF m(1)] mem_write_poke [OF m(2)] g(2) by simp
qed

section \<open>Copy on write\<close>

lemma get_refcount_refs: "0 < pmm_refs s p \<Longrightarrow> unat (pmm_get_refcount p s) = pmm_refs s p"
  by (auto simp: pmm_refs_def pmm_get_refcount_def Let_def split: if_splits)

lemma refs_busy: "as_ok s as \<Longrightarrow> 0 < pmm_refs (page_frames s) p \<Longrightarrow> page_busy s (ucast p)"
proof -
  assume ok: "as_ok s as" and pos: "0 < pmm_refs (page_frames s) p"
  have inv: "pmm_inv (page_frames s)" using as_wfD(1) [OF as_okD(1) [OF ok]] by (simp add: pmm_ready_def)
  have "unat p div PAGE_SIZE < max_frames (page_frames s)" "frame_refcount (page_frames s) ! (unat p div PAGE_SIZE) \<noteq> 0"
    using pos by (auto simp: pmm_refs_def Let_def split: if_splits)
  then have "p \<notin> pmm_avail (page_frames s)" using pmm_invD(6) [OF inv] by (simp add: pmm_avail_def)
  then show ?thesis by (auto simp: page_busy_def image_iff inj_ucast_page)
qed

lemma TMP_page: "page_of TMP_COW_VA = (2, 511, 509)" "page_of TMP_VA = (2, 511, 510)" "TMP_COW_VA AND 0xFFF = 0" "TMP_VA AND 0xFFF = 0"
  by (simp_all add: page_of_def pae_index_nat)

lemma user_slot: "i < 3 \<Longrightarrow> d < 512 \<Longrightarrow> slot i d"
  by (simp add: slot_def)

text \<open>The copy: a new frame is filled through the temporary mapping, which is gone afterwards.\<close>

lemma cow_copy:
  assumes ok: "as_ok s (cr3 s)" and va: "va AND 0xFFF = 0" "ordinary va" "page_of va \<noteq> page_of TMP_COW_VA"
    and src: "translate s (cr3 s) va = Some (f, rw, us)" "page_busy s f" "f \<notin> tables s (cr3 s)"
    and new: "(new :: u32) AND 0xFFF = 0" "page_busy s (ucast new)" "ucast new \<notin> tables s (cr3 s)" "ucast new \<noteq> f"
    and tmp: "present (pde_at s (cr3 s) 2 511)" "unaliased s (cr3 s) 2 511"
  obtains s1 s3 where
    "vmm_map_page_nolock (ucast new) (ucast TMP_COW_VA) (VMM_FLAG_PRESENT OR VMM_FLAG_RW) s = Some s1"
    "copy_page TMP_COW_VA va s1 \<bind> vmm_unmap_page_nolock (ucast TMP_COW_VA) = Some s3"
    "as_ok s3 (cr3 s)" "cr3 s3 = cr3 s" "page_frames s3 = page_frames s" "g_nxe_enabled s3 = g_nxe_enabled s"
    "\<And>k. k < 512 \<Longrightarrow> pmem s3 (ucast new, k) = pmem s (f, k)"
    "\<And>g k. page_busy s g \<Longrightarrow> g \<notin> tables s (cr3 s) \<Longrightarrow> g \<noteq> ucast new \<Longrightarrow> pmem s3 (g, k) = pmem s (g, k)"
    "\<And>j k u. slot j k \<Longrightarrow> u < 512 \<Longrightarrow> entry s3 (cr3 s) j k u = (if (j, k, u) = (2, 511, 509) then 0 else entry s (cr3 s) j k u)"
    "\<And>j k. slot j k \<Longrightarrow> present (pde_at s (cr3 s) j k) \<Longrightarrow> unaliased s (cr3 s) j k \<Longrightarrow>
       present (pde_at s3 (cr3 s) j k) \<and> unaliased s3 (cr3 s) j k"
    "\<And>g. page_busy s g \<Longrightarrow> g \<notin> tables s (cr3 s) \<Longrightarrow> g \<notin> tables s3 (cr3 s)"
proof -
  have sl: "slot 2 511" by (simp add: slot_def)
  have ix: "pae_pdpt_index (ucast TMP_COW_VA) = 2" "pae_pd_index (ucast TMP_COW_VA) = 511" "pae_pt_index (ucast TMP_COW_VA) = 509"
    using TMP_page(1) by (auto simp: page_of_def)
  define e where "e = ((ucast new :: u64) AND 0xFFFFF000) OR vmm_flags_to_x86 (VMM_FLAG_PRESENT OR VMM_FLAG_RW) s"
  have pe: "perms e = Some (ucast new, True, False)"
    unfolding e_def page_mask [OF new(1), symmetric] using ucast_page [OF new(1)]
    by (simp add: perms_def and_or_distrib flags_bits VMM_FLAG_PRESENT_def VMM_FLAG_RW_def VMM_FLAG_USER_def)
       (simp add: frame_of_def)
  obtain s1 where s1: "vmm_map_page_nolock (ucast new) (ucast TMP_COW_VA) (VMM_FLAG_PRESENT OR VMM_FLAG_RW) s = Some s1"
    "set_entry s 2 511 509 e s1" "page_frames s1 = page_frames s"
    by (rule map_page_spec [OF ok ix sl tmp(2), of "ucast new" "VMM_FLAG_PRESENT OR VMM_FLAG_RW"]) (use tmp(1) in \<open>auto simp: e_def\<close>)
  have ok1: "as_ok s1 (cr3 s1)" and c1: "cr3 s1 = cr3 s" using s1(2) by (auto simp: set_entry_def)
  have nt: "g \<notin> tables s1 (cr3 s)" if "page_busy s g" "g \<notin> tables s (cr3 s)" for g using s1(2) that by (auto simp: set_entry_def)
  have tmpo: "ordinary TMP_COW_VA" using sl ix by (simp add: ordinary_def)
  obtain i d t where p: "page_of va = (i, d, t)" by (cases "page_of va")
  then have vsl: "slot i d" using va(2) by (simp add: ordinary_def page_of_def)
  have tr1: "translate s1 (cr3 s1) va = Some (f, rw, us)" "translate s1 (cr3 s1) TMP_COW_VA = Some (ucast new, True, False)"
    using set_entry_translate [OF ok s1(2) p vsl] set_entry_translate [OF ok s1(2) TMP_page(1) sl] src(1) va(3) pe TMP_page(1)
    by (simp_all add: c1)
  define s2 where "s2 = fill (ucast new) 512 (\<lambda>i. pmem s1 (f, i)) s1"
  have cp: "copy_page TMP_COW_VA va s1 = Some s2"
    unfolding s2_def using nt [OF new(2,3)] by (intro copy_page_spec [OF ok1 va(1) TMP_page(3) va(2) tmpo tr1]) (simp_all add: c1 new)
  note fd = fill_data [OF ok1, where f = "ucast new" and n = 512 and w = "\<lambda>i. pmem s1 (f, i)", folded s2_def, unfolded c1, OF nt [OF new(2,3)]]
  have c2: "cr3 s2 = cr3 s" "page_frames s2 = page_frames s" "g_nxe_enabled s2 = g_nxe_enabled s1" by (simp_all add: s2_def c1 s1(3))
  have tmp2: "present (pde_at s2 (cr3 s) 2 511)" "unaliased s2 (cr3 s) 2 511"
    using s1(2) tmp sl fd(2,5) by (auto simp: set_entry_def)
  obtain s3 where s3: "vmm_unmap_page_nolock (ucast TMP_COW_VA) s2 = Some s3" "page_frames s3 = page_frames s2" "set_entry s2 2 511 509 0 s3"
    using unmap_page_spec [of s2, OF _ ix sl] fd(1) tmp2 c2 by auto
  have nb2: "page_busy s2 g \<longleftrightarrow> page_busy s g" for g by (simp add: page_busy_def c2)
  have pm: "pmem s3 (g, k) = pmem s2 (g, k)" "pmem s1 (g, k) = pmem s (g, k)" if "page_busy s g" "g \<notin> tables s (cr3 s)" for g k
    using s3(3) s1(2) nt [OF that] that by (auto simp: set_entry_def nb2 c2 fd(4))
  show thesis
  proof (rule that [OF s1(1)])
    show "copy_page TMP_COW_VA va s1 \<bind> vmm_unmap_page_nolock (ucast TMP_COW_VA) = Some s3" using s3(1) by (simp add: cp)
    show "as_ok s3 (cr3 s)" "cr3 s3 = cr3 s" "page_frames s3 = page_frames s" "g_nxe_enabled s3 = g_nxe_enabled s"
      using s3 s1(2) by (auto simp: set_entry_def c2)
    show "pmem s3 (ucast new, k) = pmem s (f, k)" if "k < 512" for k
      using pm(1) [OF new(2,3)] pm(2) [OF src(2,3)] that by (simp add: s2_def)
    show "pmem s3 (g, k) = pmem s (g, k)" if "page_busy s g" "g \<notin> tables s (cr3 s)" "g \<noteq> ucast new" for g k
      using pm [OF that(1,2)] that(3) by (simp add: s2_def)
    show "entry s3 (cr3 s) j k u = (if (j, k, u) = (2, 511, 509) then 0 else entry s (cr3 s) j k u)" if "slot j k" "u < 512" for j k u
      using s3(3) s1(2) fd(3) [OF that(1)] that by (auto simp: set_entry_def c2)
    show "present (pde_at s3 (cr3 s) j k) \<and> unaliased s3 (cr3 s) j k"
      if "slot j k" "present (pde_at s (cr3 s) j k)" "unaliased s (cr3 s) j k" for j k
      using s3(3) s1(2) fd(2,5) [OF that(1)] that by (auto simp: set_entry_def c2)
    show "g \<notin> tables s3 (cr3 s)" if "page_busy s g" "g \<notin> tables s (cr3 s)" for g
      using s3(3) nt [OF that] that(1) by (auto simp: set_entry_def nb2 c2 fd(4))
  qed
qed

lemma refs_aligned: "0 < pmm_refs s p \<Longrightarrow> p AND 0xFFF = 0"
  by (auto simp: pmm_refs_def page_aligned_unat Let_def split: if_splits) (metis mod_mult_self2_is_0)

lemma old_frame: "frame_of e = ucast old \<Longrightarrow> old AND 0xFFF = 0 \<Longrightarrow> e AND 0xFFFFF000 = ucast (old :: u32)"
proof -
  assume e: "frame_of e = ucast old" and al: "old AND 0xFFF = 0"
  have "e AND 0xFFFFF000 = frame_of e AND 0xFFFFF000" by (simp add: frame_of_def and.assoc)
  then show ?thesis using page_mask [OF al] e by simp
qed

lemma ucast_back: "(ucast (ucast (p :: u32) :: u64) :: u32) = p"
  by (rule bit_word_eqI) (auto simp: bit_ucast_iff dest: bit_imp_le_length)

lemma unat_rc: "(ucast (w :: u32) :: u16) \<le> 1 \<longleftrightarrow> unat w mod 2 ^ 16 \<le> 1"
  by (simp add: word_le_nat_alt unsigned_ucast_eq take_bit_eq_mod)

abbreviation cow_entry :: "u32 \<Rightarrow> u64 \<Rightarrow> u64" where
  "cow_entry p e \<equiv> ucast p OR X86_PTE_PRESENT OR X86_PTE_RW OR X86_PTE_USER OR (e AND X86_PTE_NX)"

lemma perms_cow_entry: "p AND 0xFFF = 0 \<Longrightarrow> perms (cow_entry p e) = Some (ucast p, True, True)"
  using ucast_page [of p] by (simp add: perms_def and_or_distrib and.assoc) (simp add: frame_of_def and_or_distrib and.assoc)

lemma cow_fault_run:
  assumes ok: "as_ok s (cr3 s)" and va: "va = fault_addr AND NOT 0xFFF" "page_of va = (i, d, t)" "i < 3"
    and e: "e = entry s (cr3 s) i d t" "present e" "e AND X86_PTE_COW \<noteq> 0" "frame_of e = ucast old"
    and refs: "0 < pmm_refs (page_frames s) old"
  shows "vmm_handle_cow_fault fault_addr s =
    (if pmm_refs (page_frames s) old mod 2 ^ 16 \<le> 1
     then Some (poke (frame_of (pde_at s (cr3 s) i d), t) (cow_entry old e) s, True)
     else let (fr, new) = pmm_alloc_page (page_frames s); s = s\<lparr>page_frames := fr\<rparr> in
       if new = 0 then Some (s, False)
       else do {
         s \<leftarrow> vmm_map_page_nolock (ucast new) (ucast TMP_COW_VA) (VMM_FLAG_PRESENT OR VMM_FLAG_RW) s;
         s \<leftarrow> copy_page TMP_COW_VA va s;
         s \<leftarrow> vmm_unmap_page_nolock (ucast TMP_COW_VA) s;
         s \<leftarrow> mem_write (pae_pt_recursive i d t) (cow_entry new e) (s\<lparr>page_frames := fst (pmm_decref old (page_frames s))\<rparr>);
         Some (s, True)
       })"
proof -
  have ix: "pae_pdpt_index (ucast va) = i" "pae_pd_index (ucast va) = d" "pae_pt_index (ucast va) = t" and b: "d < 512" "t < 512"
    using va(2) by (auto simp: page_of_def)
  have sl: "slot i d" using va(3) b by (simp add: user_slot)
  have p: "present (pde_at s (cr3 s) i d)" and pte: "pte_at s (cr3 s) i d t = e" using e(1,2) by (auto simp: entry_def split: if_splits)
  have oe: "e AND 0xFFFFF000 = ucast old" by (rule old_frame [OF e(4) refs_aligned [OF refs]])
  show ?thesis
    unfolding vmm_handle_cow_fault_def va(1) [symmetric] Let_def ix read_pde [OF ok sl]
    using va(3) p e(2,3)
    by (simp add: read_pte [OF ok sl b(2) p] write_pte [OF ok sl b(2) p] pte oe ucast_back unat_rc get_refcount_refs [OF refs] case_prod_beta)
qed

lemma page_ordinary: "page_of va = (i, d, t) \<Longrightarrow> ordinary va \<longleftrightarrow> slot i d"
  by (auto simp: page_of_def ordinary_def)

lemma entries_translate:
  assumes "as_ok s as" "as_ok s' as" "page_of va = (i, d, t)" "slot i d" "entry s' as i d t = entry s as i d t"
  shows "translate s' as va = translate s as va"
  using translate_entry [OF assms(1,3,4)] translate_entry [OF assms(2,3,4)] assms(5) by simp

lemma cow_fault_copy:
  assumes ok: "as_ok s (cr3 s)" and va: "va = fault_addr AND NOT 0xFFF" "page_of va = (i, d, t)" "i < 3" "(i, d, t) \<noteq> (2, 511, 509)"
    and e: "e = entry s (cr3 s) i d t" "present e" "e AND X86_PTE_USER \<noteq> 0" "e AND X86_PTE_COW \<noteq> 0"
      "frame_of e = ucast old" "ucast old \<notin> tables s (cr3 s)"
    and un: "unaliased s (cr3 s) i d" and tmp: "present (pde_at s (cr3 s) 2 511)" "unaliased s (cr3 s) 2 511"
    and refs: "1 < pmm_refs (page_frames s) old mod 2 ^ 16" and al: "pmm_alloc_page (page_frames s) = (fr, new)" "new \<noteq> 0"
  shows "\<exists>s'. vmm_handle_cow_fault fault_addr s = Some (s', True) \<and> as_ok s' (cr3 s) \<and>
    (\<forall>k < 512. pmem s' (ucast new, k) = pmem s (ucast old, k) \<and> pmem s' (ucast old, k) = pmem s (ucast old, k)) \<and>
    pmm_refs (page_frames s') = (pmm_refs (page_frames s))(new := 1, old := pmm_refs (page_frames s) old - 1) \<and>
    (\<forall>j k u. slot j k \<longrightarrow> u < 512 \<longrightarrow> entry s' (cr3 s) j k u =
       (if (j, k, u) = (i, d, t) then cow_entry new e else if (j, k, u) = (2, 511, 509) then 0 else entry s (cr3 s) j k u))"
proof -
  note wf = as_okD(1) [OF ok]
  note rdy = as_wfD(1) [OF wf]
  have b: "d < 512" "t < 512" using va(2) by (auto simp: page_of_def)
  have sl: "slot i d" using va(3) b by (simp add: user_slot)
  have r1: "1 < pmm_refs (page_frames s) old" using refs by (metis less_le_trans mod_less_eq_dividend)
  have av: "new \<in> pmm_avail (page_frames s)" "pmm_avail fr = pmm_avail (page_frames s) - {new}" "new AND 0xFFF = 0"
    using pmm_shared.al_avail [OF rdy al] pmm_shared.avail_page [OF rdy] by auto
  have rfr: "pmm_refs fr = (pmm_refs (page_frames s))(new := 1)" "pmm_refs (page_frames s) new = 0"
    using pmm_frames.al_page [OF rdy al] by auto
  have no: "new \<noteq> old" using rfr(2) r1 by auto
  have rdy0: "pmm_ready fr" by (rule pmm_frames.al_inv [OF rdy al(1)])
  let ?s0 = "s\<lparr>page_frames := fr\<rparr>"
  have ok0: "as_ok ?s0 (cr3 ?s0)" using as_ok_frames [OF ok rdy0] av(2) by auto
  have nb: "\<not> page_busy s (ucast new)" using av(1) by (simp add: page_busy_def)
  have bsub: "page_busy ?s0 f" if "page_busy s f" for f using that av(2) by (auto simp: page_busy_def)
  have ob: "page_busy s (ucast old)" using refs_busy [OF ok] r1 by simp
  have new0: "page_busy ?s0 (ucast new)" using av(2) by (auto simp: page_busy_def inj_ucast_page image_iff)
  have newt: "ucast new \<notin> tables s (cr3 s)" using nb tables_busy [OF wf] by blast
  have al0: "va AND 0xFFF = 0" by (simp add: va(1) and.assoc)
  have ord: "ordinary va" "page_of va \<noteq> page_of TMP_COW_VA" using page_ordinary [OF va(2)] sl va(2,4) TMP_page(1) by auto
  have tr: "translate ?s0 (cr3 ?s0) va = Some (ucast old, e AND X86_PTE_RW \<noteq> 0, e AND X86_PTE_USER \<noteq> 0)"
    using translate_entry [OF ok va(2) sl] e by (simp add: perms_def)
  have side: "ucast old \<notin> tables ?s0 (cr3 ?s0)" "ucast new \<notin> tables ?s0 (cr3 ?s0)" "ucast new \<noteq> (ucast old :: u64)"
    "present (pde_at ?s0 (cr3 ?s0) 2 511)" "unaliased ?s0 (cr3 ?s0) 2 511"
    using e(6) newt tmp no by (simp_all add: inj_ucast_page)
  obtain s1 s3 where
    run: "vmm_map_page_nolock (ucast new) (ucast TMP_COW_VA) (VMM_FLAG_PRESENT OR VMM_FLAG_RW) ?s0 = Some s1"
    "copy_page TMP_COW_VA va s1 \<bind> vmm_unmap_page_nolock (ucast TMP_COW_VA) = Some s3"
    and s3: "as_ok s3 (cr3 ?s0)" "cr3 s3 = cr3 ?s0" "page_frames s3 = page_frames ?s0" "g_nxe_enabled s3 = g_nxe_enabled ?s0"
    "\<And>k. k < 512 \<Longrightarrow> pmem s3 (ucast new, k) = pmem ?s0 (ucast old, k)"
    "\<And>g k. page_busy ?s0 g \<Longrightarrow> g \<notin> tables ?s0 (cr3 ?s0) \<Longrightarrow> g \<noteq> ucast new \<Longrightarrow> pmem s3 (g, k) = pmem ?s0 (g, k)"
    "\<And>j k u. slot j k \<Longrightarrow> u < 512 \<Longrightarrow> entry s3 (cr3 ?s0) j k u = (if (j, k, u) = (2, 511, 509) then 0 else entry ?s0 (cr3 ?s0) j k u)"
    "\<And>j k. slot j k \<Longrightarrow> present (pde_at ?s0 (cr3 ?s0) j k) \<Longrightarrow> unaliased ?s0 (cr3 ?s0) j k \<Longrightarrow>
       present (pde_at s3 (cr3 ?s0) j k) \<and> unaliased s3 (cr3 ?s0) j k"
    "\<And>g. page_busy ?s0 g \<Longrightarrow> g \<notin> tables ?s0 (cr3 ?s0) \<Longrightarrow> g \<notin> tables s3 (cr3 ?s0)"
    by (rule cow_copy [OF ok0 al0 ord tr bsub [OF ob] side(1) av(3) new0 side(2-5)], rule that)
  define fr4 where "fr4 = fst (pmm_decref old fr)"
  have dec: "pmm_ready fr4" "pmm_refs fr4 = (pmm_refs fr)(old := pmm_refs fr old - 1)" "pmm_avail fr4 = pmm_avail fr"
    using pmm_shared.dec_ref [OF rdy0, of old] r1 no by (auto simp: fr4_def rfr)
  let ?s4 = "s3\<lparr>page_frames := fr4\<rparr>"
  have ok4: "as_ok ?s4 (cr3 ?s4)" using as_ok_frames [OF s3(1) dec(1)] s3 dec by auto
  have p: "present (pde_at s (cr3 s) i d)" using e(1,2) by (auto simp: entry_def split: if_splits)
  have pu4: "present (pde_at ?s4 (cr3 ?s4) i d)" "unaliased ?s4 (cr3 ?s4) i d" using s3(8) [OF sl] p un s3(2) by auto
  have ent4: "entry ?s4 (cr3 ?s4) i d t = e" using s3(7) [OF sl b(2)] s3(2) va(4) e(1) by auto
  have user: "pde_at ?s4 (cr3 ?s4) i d AND X86_PTE_USER \<noteq> 0"
    using as_okD(2) [OF ok4 sl pu4(1)] ent4 pu4(1) e(3) b(2) by (auto simp: user_ok_def entry_def)
  define s5 where "s5 = poke (frame_of (pde_at ?s4 (cr3 ?s4) i d), t) (cow_entry new e) ?s4"
  have se: "set_entry ?s4 i d t (cow_entry new e) s5"
    unfolding s5_def using user by (intro poke_entry [OF ok4 sl b(2) pu4])
  have "vmm_handle_cow_fault fault_addr s = Some (s5, True)"
    using cow_fault_run [OF ok va(1-3) e(1,2,4,5)] r1 refs al run s3(3) write_pte [OF ok4 sl b(2) pu4(1)]
    by (auto simp: fr4_def s5_def split: Option.bind_splits)
  moreover have "as_ok s5 (cr3 s)" using se s3(2) by (simp add: set_entry_def)
  moreover have "page_frames s5 = fr4" by (simp add: s5_def)
  moreover have "pmem s5 (g, k) = pmem s3 (g, k)" if "page_busy ?s0 g" "g \<notin> tables s (cr3 s)" for g k
    using se s3(9) [of g] that s3(2) by (auto simp: set_entry_def page_busy_def dec(3))
  moreover have "pmm_refs (page_frames s5) = (pmm_refs (page_frames s))(new := 1, old := pmm_refs (page_frames s) old - 1)"
    using no by (simp add: s5_def dec(2) rfr fun_upd_twist)
  moreover have "entry s5 (cr3 s) j k u =
      (if (j, k, u) = (i, d, t) then cow_entry new e else if (j, k, u) = (2, 511, 509) then 0 else entry s (cr3 s) j k u)"
    if "slot j k" "u < 512" for j k u
    using se s3(7) [OF that] that s3(2) by (auto simp: set_entry_def)
  ultimately show ?thesis
    using s3(5) s3(6) [OF bsub [OF ob] side(1)] side(3) new0 newt bsub [OF ob] e(6) by (intro exI [of _ s5]) (simp add: inj_ucast_page)
qed


section \<open>Free areas\<close>

definition page_addr :: "nat \<Rightarrow> u32" where
  "page_addr p = of_nat (0x1000 * p)"

lemma unat_page_addr: "p < 2 ^ 20 \<Longrightarrow> unat (page_addr p) = 0x1000 * p"
  unfolding page_addr_def unat_of_nat by (simp add: take_bit_nat_eq_self)

lemma and_not_mask_word: "(w :: u32) AND NOT (mask k) = push_bit k (drop_bit k w)"
  by (rule bit_word_eqI) (auto simp: bit_and_iff bit_not_iff bit_mask_iff bit_push_bit_iff bit_drop_bit_eq possible_bit_def)

lemma page_start: "start AND NOT 0xFFF = page_addr (unat start div 0x1000)"
proof -
  have "(0xFFF :: u32) = mask 12" by (simp add: mask_eq_exp_minus_1)
  then have "start AND NOT 0xFFF = push_bit 12 (drop_bit 12 start)" by (simp only: and_not_mask_word)
  also have "\<dots> = 0x1000 * of_nat (unat (drop_bit 12 start))" by (simp add: push_bit_eq_mult mult.commute)
  also have "unat (drop_bit 12 start) = unat start div 0x1000" by (simp add: drop_bit_eq_div unat_div_distrib)
  finally show ?thesis by (simp add: page_addr_def)
qed

lemma page_addr_Suc: "page_addr p + 0x1000 = page_addr (Suc p)"
  by (simp add: page_addr_def)

definition free_area :: "vmm \<Rightarrow> nat \<Rightarrow> nat \<Rightarrow> nat \<Rightarrow> nat \<Rightarrow> bool" where
  "free_area s first lim n b \<longleftrightarrow>
     first \<le> b \<and> b + n \<le> lim \<and> (\<forall>k < n. translate s (cr3 s) (page_addr (b + k)) = None)"

lemma page_mapped_translate:
  assumes ok: "as_ok s (cr3 s)" and va: "ordinary va"
  shows "page_mapped va s = Some (translate s (cr3 s) va \<noteq> None)"
proof -
  obtain i d t where p: "page_of va = (i, d, t)" by (cases "page_of va")
  have sl: "slot i d" and ix: "pae_pdpt_index (ucast va) = i" "pae_pd_index (ucast va) = d" "pae_pt_index (ucast va) = t" "t < 512"
    using p va by (auto simp: page_of_def ordinary_def)
  show ?thesis
    using read_pte [OF ok sl ix(4)] translate_entry [OF ok p sl]
    by (auto simp: page_mapped_def Let_def ix read_pde [OF ok sl] entry_def perms_def)
qed

lemma low_ordinary: "unat va < 0xC0000000 \<Longrightarrow> ordinary va"
  by (simp add: ordinary_def slot_def pae_index_nat)

lemma find_area_step:
  assumes ok: "as_ok s (cr3 s)" and e: "unat end_va \<le> 0xC0000000" "lim = (unat end_va + 0xFFF) div 0x1000"
    and n: "0 < n" "n < 2 ^ 20" and L: "L \<le> p" "L < n" "first + L \<le> p" "p \<le> lim"
    and run: "\<And>q. p - L \<le> q \<Longrightarrow> q < p \<Longrightarrow> translate s (cr3 s) (page_addr q) = None"
    and none: "\<And>b. b < p - L \<Longrightarrow> \<not> free_area s first lim n b"
    and rs: "L \<noteq> 0 \<Longrightarrow> run_start = page_addr (p - L)"
  shows "find_area_loop end_va (of_nat n) s (page_addr p) run_start (of_nat L) =
    Some (if \<exists>b. free_area s first lim n b then page_addr (LEAST b. free_area s first lim n b) else 0)"
  using L run none rs
proof (induction "lim - p" arbitrary: p L run_start)
  case 0
  have "\<not> free_area s first lim n b" for b
    using 0 by (cases "b < p - L") (auto simp: free_area_def)
  moreover have "\<not> (page_addr p) < end_va"
  proof -
    have "p = lim" using 0 by simp
    then have "unat end_va \<le> 0x1000 * p" "0x1000 * p < 2 ^ 32" using e by auto
    then show ?thesis by (simp add: word_less_nat_alt unat_page_addr)
  qed
  ultimately show ?case by (subst find_area_loop.simps) auto
next
  case (Suc x)
  have p: "p < lim" using Suc.hyps(2) by simp
  then have pe: "0x1000 * p < unat end_va" using e(2) by linarith
  then have up: "unat (page_addr p) = 0x1000 * p" using e(1) by (simp add: unat_page_addr)
  have lt: "(page_addr p) < end_va" using pe by (simp only: word_less_nat_alt up)
  have pm: "page_mapped (page_addr p) s = Some (translate s (cr3 s) (page_addr p) \<noteq> None)"
    by (rule page_mapped_translate [OF ok low_ordinary]) (use pe e(1) up in simp)
  have nx: "(page_addr p) + 0x1000 = page_addr (Suc p)" by (rule page_addr_Suc)
  have le: "(of_nat n :: u32) \<le> of_nat L + 1 \<longleftrightarrow> n \<le> L + 1"
  proof -
    have "unat (of_nat L + 1 :: u32) = L + 1" "unat (of_nat n :: u32) = n"
      using n Suc.prems(2) by (simp_all add: unat_word_ariths unat_of_nat take_bit_nat_eq_self)
    then show ?thesis by (simp add: word_le_nat_alt)
  qed
  have L0: "(of_nat L :: u32) = 0 \<longleftrightarrow> L = 0" using n Suc.prems(2) by (simp add: word_unat_eq_iff unat_of_nat take_bit_nat_eq_self)
  show ?case
  proof (cases "translate s (cr3 s) (page_addr p)")
    case (Some m)
    have "\<not> free_area s first lim n b" if "b < Suc p" for b
    proof (cases "b < p - L")
      case False
      then have "p - b < n" "b + (p - b) = p" using that Suc.prems(1,2) by auto
      then show ?thesis using Some unfolding free_area_def by (metis option.distinct(1))
    qed (use Suc.prems in auto)
    then have "find_area_loop end_va (of_nat n) s (page_addr (Suc p)) run_start (of_nat 0) =
        Some (if \<exists>b. free_area s first lim n b then page_addr (LEAST b. free_area s first lim n b) else 0)"
      using Suc.hyps(2) Suc.prems n by (intro Suc.hyps(1)) auto
    then show ?thesis using lt pm Some by (subst find_area_loop.simps) (simp add: nx)
  next
    case None
    have run': "translate s (cr3 s) (page_addr q) = None" if "p - L \<le> q" "q < Suc p" for q
      using that Suc.prems(5) [of q] None by (cases "q = p") auto
    have rs': "(if L = 0 then page_addr p else run_start) = page_addr (p - L)" using Suc.prems(7) by auto
    show ?thesis
    proof (cases "n \<le> L + 1")
      case True
      then have nl: "n = L + 1" using Suc.prems(2) by simp
      have "free_area s first lim n (p - L)"
        using run' Suc.prems(1,3) p nl by (auto simp: free_area_def)
      moreover from this have "(LEAST b. free_area s first lim n b) = p - L"
        using Suc.prems(6) by (intro Least_equality) (auto simp: not_less [symmetric])
      ultimately show ?thesis using lt pm None True rs' by (subst find_area_loop.simps) (auto simp: le L0)
    next
      case False
      have "find_area_loop end_va (of_nat n) s (page_addr (Suc p)) (page_addr (p - L)) (of_nat (Suc L)) =
          Some (if \<exists>b. free_area s first lim n b then page_addr (LEAST b. free_area s first lim n b) else 0)"
        using Suc.hyps(2) Suc.prems False run' by (intro Suc.hyps(1)) auto
      moreover have "(of_nat (Suc L) :: u32) = of_nat L + 1" by simp
      ultimately show ?thesis using lt pm None False rs' by (subst find_area_loop.simps) (simp add: nx le L0 del: of_nat_Suc)
    qed
  qed
qed

text \<open>
  C34. The search for unmapped addresses below the kernel: for every length that does not wrap around when it is rounded up,
  it returns, and with the lowest page from the start on at which enough pages in a row are unmapped and lie below the
  end, or with 0 when there is none.
\<close>

theorem vmm_find_free_area_correct:
  assumes ok: "as_ok s (cr3 s)" and e: "unat end_va \<le> 0xC0000000" "start \<le> end_va" and len: "len \<noteq> 0" "unat len + 0xFFF < 2 ^ 32"
  shows "vmm_find_free_area start end_va len s =
    (let fits = free_area s (unat start div 0x1000) ((unat end_va + 0xFFF) div 0x1000) ((unat len + 0xFFF) div 0x1000) in
     Some (if \<exists>b. fits b then page_addr (LEAST b. fits b) else 0))"
proof -
  define n where "n = (unat len + 0xFFF) div 0x1000"
  define p where "p = unat start div 0x1000"
  have n: "0 < n" "n < 2 ^ 20" using len by (auto simp: n_def Suc_le_eq unat_gt_0 div_greater_zero_iff less_mult_imp_div_less)
  have "unat start \<le> unat end_va" using e(2) by (simp add: word_le_nat_alt)
  then have p: "p \<le> (unat end_va + 0xFFF) div 0x1000" unfolding p_def by (intro div_le_mono) simp
  have "unat (len + 0xFFF) = unat len + 0xFFF" using len(2) by (simp add: unat_word_ariths)
  then have "unat (drop_bit 12 (len + 0xFFF)) = n" by (simp add: n_def drop_bit_eq_div unat_div_distrib)
  then have dn: "drop_bit 12 (len + 0xFFF) = of_nat n" by (metis of_nat_unat ucast_id)
  have dp: "start AND NOT 0xFFF = page_addr p" unfolding p_def by (rule page_start)
  let ?fits = "free_area s p ((unat end_va + 0xFFF) div 0x1000) n"
  have "find_area_loop end_va (of_nat n) s (page_addr p) (page_addr p) (of_nat 0) =
      Some (if \<exists>b. ?fits b then page_addr (LEAST b. ?fits b) else 0)"
    by (rule find_area_step [OF ok e(1) refl n]) (use p n in \<open>auto simp: free_area_def\<close>)
  then show ?thesis
    using len(1) unfolding vmm_find_free_area_def dn dp Let_def n_def [symmetric] p_def [symmetric] by simp
qed

section \<open>A concrete address space\<close>

text \<open>
  An address space with a page table for the first two megabytes, in which the page at \<open>0x5000\<close> is shared with another
  owner, and one for the temporary mappings.
\<close>

definition demo_mem :: "u64 \<times> nat \<Rightarrow> u64" where
  "demo_mem l =
     (if fst l = 0x5000 \<and> snd l < 4 then of_nat (0x6001 + 0x1000 * snd l)
      else if fst l = 0x9000 \<and> 508 \<le> snd l \<and> snd l < 512 then of_nat (0x6003 + 0x1000 * (snd l - 508))
      else if l = (0x6000, 0) then 0xA007
      else if l = (0x8000, 511) then 0xB003
      else if l = (0xA000, 5) then 0x2205
      else if l = (0x2000, 1) then 42 else 0)"

definition demo_frames :: pmm where
  "demo_frames = pmm_incref 0x2000 (fst (pmm_alloc_page pmm_demo))"

definition demo_vmm :: vmm where
  "demo_vmm = \<lparr>pmem = demo_mem, cr3 = 0x5000, g_kernel_as = 0x1000, g_nxe_enabled = True, page_frames = demo_frames\<rparr>"

lemma less4: "i < 4 \<longleftrightarrow> i = 0 \<or> i = 1 \<or> i = 2 \<or> i = (3 :: nat)"
  by arith

lemma demo_frames:
  "pmm_ready demo_frames" "pmm_refs demo_frames 0x2000 = 2" "pmm_avail demo_frames \<subseteq> {0x3000, 0x4000}" "0x3000 \<in> pmm_avail demo_frames"
proof -
  have rdy: "pmm_ready pmm_demo" by (simp add: pmm_ready_def pmm_demo_inv pmm_demo_max)
  define fr where "fr = fst (pmm_alloc_page pmm_demo)"
  have al: "pmm_alloc_page pmm_demo = (fr, 0x2000)" using pmm_demo_alloc(1) by (simp add: fr_def prod_eq_iff)
  have r: "pmm_ready fr" "pmm_refs fr 0x2000 = 1" "pmm_avail fr = pmm_avail pmm_demo - {0x2000}"
    using pmm_frames.al_inv [OF rdy al] pmm_frames.al_page [OF rdy al] pmm_shared.al_avail [OF rdy al] by auto
  have inc: "pmm_ready demo_frames" "pmm_refs demo_frames 0x2000 = 2" "pmm_avail demo_frames = pmm_avail fr"
    using pmm_shared.inc_ref [OF r(1), of "0x2000"] r(2) by (auto simp: demo_frames_def fr_def)
  then show "pmm_ready demo_frames" "pmm_refs demo_frames 0x2000 = 2" by auto
  have "p = 0x2000 \<or> p = 0x3000 \<or> p = 0x4000" if "p \<in> pmm_avail pmm_demo" for p
  proof -
    have f: "unat p div PAGE_SIZE < 4096" "\<not> used_frame pmm_demo (unat p div PAGE_SIZE)" "unat p mod PAGE_SIZE = 0"
      using that by (auto simp: pmm_avail_def pmm_demo_max page_aligned_unat)
    then have "unat p div PAGE_SIZE \<in> {2, 3, 4}" using pmm_demo_used [OF f(1)] by auto
    then have "unat p = 0x2000 \<or> unat p = 0x3000 \<or> unat p = 0x4000" using f(3) by (auto simp: PAGE_SIZE_def)
    then show ?thesis by (simp add: word_unat_eq_iff)
  qed
  then show "pmm_avail demo_frames \<subseteq> {0x3000, 0x4000}" using inc(3) r(3) by auto
  show "0x3000 \<in> pmm_avail demo_frames"
    unfolding inc(3) r(3) using pmm_demo_used [of 3] by (simp add: pmm_avail_def pmm_demo_max PAGE_SIZE_def)
qed

lemma demo_simps [simp]: "cr3 demo_vmm = 0x5000" "page_frames demo_vmm = demo_frames" "pmem demo_vmm = demo_mem"
  by (simp_all add: demo_vmm_def)

lemma demo_dirs: "i < 4 \<Longrightarrow> pd_of demo_vmm 0x5000 i = of_nat (0x6000 + 0x1000 * i)" "dirs demo_vmm 0x5000 = {0x5000, 0x6000, 0x7000, 0x8000, 0x9000}"
proof -
  show pd: "pd_of demo_vmm 0x5000 i = of_nat (0x6000 + 0x1000 * i)" if "i < 4" for i
    using that unfolding less4 by (auto simp: pd_of_def demo_mem_def pdpt_slot_def frame_of_def)
  have "{..<4 :: nat} = {0, 1, 2, 3}" by (auto simp: less4)
  then show "dirs demo_vmm 0x5000 = {0x5000, 0x6000, 0x7000, 0x8000, 0x9000}"
    by (simp add: dirs_def pd pdpt_frame_def)
qed

lemma demo_pde: "slot i d \<Longrightarrow> pde_at demo_vmm 0x5000 i d = (if i = 0 \<and> d = 0 then 0xA007 else if i = 2 \<and> d = 511 then 0xB003 else 0)"
  unfolding slot_def less4 by (elim conjE disjE; simp add: pde_at_def demo_dirs demo_mem_def)

lemma demo_pte: "pte_at demo_vmm 0x5000 0 0 t = (if t = 5 then 0x2205 else 0)" "pte_at demo_vmm 0x5000 2 511 t = 0"
  using demo_pde [of 0 0] demo_pde [of 2 511] by (auto simp: pte_at_def slot_def frame_of_def demo_mem_def)

lemma demo_busy: "f \<noteq> 0x3000 \<Longrightarrow> f \<noteq> 0x4000 \<Longrightarrow> page_busy demo_vmm f"
  using demo_frames(3) by (auto simp: page_busy_def)

lemma demo_ok: "as_ok demo_vmm 0x5000"
proof -
  have "present (pmem demo_vmm (pdpt_slot 0x5000 i))" if "i < 4" for i
    using that unfolding less4 by (auto simp: demo_mem_def pdpt_slot_def)
  moreover have "present (pde_at demo_vmm 0x5000 3 (508 + i)) \<and> frame_of (pde_at demo_vmm 0x5000 3 (508 + i)) = pd_of demo_vmm 0x5000 i"
    if "i < 4" for i
    using that unfolding less4 by (auto simp: pde_at_def demo_dirs demo_mem_def frame_of_def)
  moreover have "inj_on (pd_of demo_vmm 0x5000) {..<4}"
    by (auto simp: inj_on_def less4 demo_dirs)
  moreover have "pdpt_frame 0x5000 \<notin> pd_of demo_vmm 0x5000 ` {..<4}"
    by (auto simp: less4 demo_dirs pdpt_frame_def)
  moreover have "table_wf demo_vmm 0x5000 i d \<and> user_ok demo_vmm 0x5000 i d" if "slot i d" "present (pde_at demo_vmm 0x5000 i d)" for i d
    using that(2) demo_pde [OF that(1)]
    by (auto simp: table_wf_def user_ok_def demo_dirs demo_busy frame_of_def demo_pte split: if_splits)
  ultimately show ?thesis
    using demo_frames(1) by (auto simp: as_ok_def as_wf_def demo_dirs demo_busy)
qed

lemma demo_unaliased: "unaliased demo_vmm 0x5000 0 0" "unaliased demo_vmm 0x5000 2 511"
  using demo_pde [of 0 0] demo_pde [of 2 511] by (auto simp: unaliased_def demo_pde slot_def frame_of_def split: if_splits)

lemma demo_tables: "0x2000 \<notin> tables demo_vmm 0x5000"
proof
  assume "0x2000 \<in> tables demo_vmm 0x5000"
  then show False
    by (cases rule: tables_cases) (auto simp: demo_dirs demo_pde frame_of_def split: if_splits)
qed

text \<open>Mapping the frame \<open>0x7000000\<close> at \<open>0x6000\<close>, in a page table that exists.\<close>

theorem vmm_map_page_correct_witness:
  "as_ok demo_vmm 0x5000 \<and>
   (\<exists>s'. vmm_map_page_nolock 0x7000000 0x6000 5 demo_vmm = Some s' \<and> translate s' 0x5000 0x6000 = Some (0x7000000, False, True))"
proof -
  have pg: "page_of 0x6000 = (0, 0, 6)" by (simp add: page_of_def pae_index_nat)
  have p: "present (pde_at demo_vmm 0x5000 0 0)" using demo_pde [of 0 0] by (simp add: slot_def)
  have "\<exists>s'. vmm_map_page_nolock 0x7000000 (ucast (0x6000 :: u32)) 5 demo_vmm = Some s' \<and>
      translate s' 0x5000 0x6000 = Some (0x7000000, False, True)"
    using vmm_map_page_correct [of demo_vmm "0x6000" 0 0 6 5 "0x7000000"] demo_ok demo_unaliased pg p page_ordinary [OF pg]
    by (auto simp: slot_def VMM_FLAG_PRESENT_def VMM_FLAG_RW_def VMM_FLAG_USER_def)
  then show ?thesis using demo_ok by simp
qed


text \<open>The page \<open>0x5000\<close> is mapped: two free pages from \<open>0x4000\<close> on start at \<open>0x6000\<close>.\<close>

theorem vmm_find_free_area_correct_witness:
  "as_ok demo_vmm 0x5000 \<and> vmm_find_free_area 0x4000 0x10000 0x1001 demo_vmm = Some 0x6000"
proof -
  have pg: "page_of (page_addr b) = (0, 0, b)" if "b < 16" for b
    using that by (simp add: page_of_def pae_index_nat unat_page_addr)
  have tr: "translate demo_vmm 0x5000 (page_addr b) = None \<longleftrightarrow> b \<noteq> 5" if "b < 16" for b
    using translate_entry [OF demo_ok pg [OF that]] demo_pde [of 0 0] by (auto simp: entry_def demo_pte slot_def perms_def)
  have "6 \<le> b" if "free_area demo_vmm 4 16 2 b" for b
  proof -
    from that have b: "4 \<le> b" "b + 2 \<le> 16" "\<And>k. k < 2 \<Longrightarrow> translate demo_vmm 0x5000 (page_addr (b + k)) = None"
      by (auto simp: free_area_def)
    show ?thesis using b(1,2) b(3) [of 0] b(3) [of 1] tr [of b] tr [of "b + 1"] by fastforce
  qed
  moreover have f6: "free_area demo_vmm 4 16 2 6" by (simp add: free_area_def tr)
  ultimately have "(LEAST b. free_area demo_vmm 4 16 2 b) = 6" "\<exists>b. free_area demo_vmm 4 16 2 b"
    by (auto intro!: Least_equality)
  then show ?thesis
    using vmm_find_free_area_correct [of demo_vmm "0x10000" "0x4000" "0x1001"] demo_ok
    by (simp add: Let_def page_addr_def word_le_nat_alt)
qed

end
