(* ===== verification/Dll.thy ===== *)
theory Dll
  imports Kernel_Prelude
begin

text \<open>
  Doubly linked lists as the kernel builds them: two pointer functions, \<open>nx\<close> and \<open>pv\<close>, over a type
  of nodes. \<open>seg nx pv a xs b\<close> says that following \<open>nx\<close> from \<open>a\<close> visits exactly \<open>xs\<close> and ends at \<open>b\<close>, and
  that every \<open>pv\<close> pointer on the way goes back. A circular list with a sentinel, as in
  \<^verbatim>\<open>src/mm/heap.c\<close>, is \<open>ring nx pv s xs\<close>. A list with a head and a tail pointer that ends in
  null, as the runqueues of \<^verbatim>\<open>src/kernel/scheduler.c\<close>, is the same structure with the null
  pointer in the place of the sentinel: \<open>nx\<close> of null is the head, \<open>pv\<close> of null is the tail.
\<close>

fun seg :: "('p \<Rightarrow> 'p) \<Rightarrow> ('p \<Rightarrow> 'p) \<Rightarrow> 'p \<Rightarrow> 'p list \<Rightarrow> 'p \<Rightarrow> bool" where
  "seg nx pv a [] b = (nx a = b \<and> pv b = a)"
| "seg nx pv a (x # xs) b = (nx a = x \<and> pv x = a \<and> seg nx pv x xs b)"

definition ring :: "('p \<Rightarrow> 'p) \<Rightarrow> ('p \<Rightarrow> 'p) \<Rightarrow> 'p \<Rightarrow> 'p list \<Rightarrow> bool" where
  "ring nx pv s xs \<longleftrightarrow> distinct (s # xs) \<and> seg nx pv s xs s"

lemma seg_append: "seg nx pv a (xs @ x # ys) b = (seg nx pv a xs x \<and> seg nx pv x ys b)"
  by (induction xs arbitrary: a) auto

lemma seg_first: "seg nx pv a xs b \<Longrightarrow> nx a = hd (xs @ [b])"
  by (cases xs) auto

lemma seg_last: "seg nx pv a xs b \<Longrightarrow> pv b = last (a # xs)"
  by (induction xs arbitrary: a) auto

text \<open>A segment depends only on the forward pointers of its nodes and the backward pointers into it.\<close>

lemma seg_cong:
  assumes "\<And>x. x \<in> set (a # xs) \<Longrightarrow> nx' x = nx x" "\<And>x. x \<in> set (xs @ [b]) \<Longrightarrow> pv' x = pv x"
  shows "seg nx' pv' a xs b = seg nx pv a xs b"
  using assms by (induction xs arbitrary: a) auto

lemma ring_cong:
  assumes "\<And>x. x \<in> set (s # xs) \<Longrightarrow> nx' x = nx x \<and> pv' x = pv x"
  shows "ring nx' pv' s xs = ring nx pv s xs"
  unfolding ring_def using seg_cong [of s xs nx' nx s pv' pv] assms by auto

lemma ring_empty_iff: "ring nx pv s xs \<Longrightarrow> (nx s = s) = (xs = [])"
  by (cases xs) (auto simp: ring_def)

lemma ring_first: "ring nx pv s (x # xs) \<Longrightarrow> nx s = x"
  by (simp add: ring_def)

subsection \<open>Inserting after a node and unlinking a node\<close>

text \<open>The four pointer writes of \<^verbatim>\<open>fl_add\<close>, in their order, and the two of \<^verbatim>\<open>fl_del\<close>.\<close>

definition link_after :: "'p \<Rightarrow> 'p \<Rightarrow> ('p \<Rightarrow> 'p) \<times> ('p \<Rightarrow> 'p) \<Rightarrow> ('p \<Rightarrow> 'p) \<times> ('p \<Rightarrow> 'p)" where
  "link_after s n = (\<lambda>(nx, pv).
     let nx = nx(n := nx s);
         pv = pv(n := s);
         pv = pv(nx s := n);
         nx = nx(s := n)
     in (nx, pv))"

definition unlink :: "'p \<Rightarrow> ('p \<Rightarrow> 'p) \<times> ('p \<Rightarrow> 'p) \<Rightarrow> ('p \<Rightarrow> 'p) \<times> ('p \<Rightarrow> 'p)" where
  "unlink n = (\<lambda>(nx, pv).
     let nx = nx(pv n := nx n);
         pv = pv(nx n := pv n)
     in (nx, pv))"

lemma link_after_ring:
  assumes ring: "ring nx pv s xs" and n: "n \<notin> set (s # xs)" and l: "link_after s n (nx, pv) = (nx', pv')"
  shows "ring nx' pv' s (n # xs)"
proof -
  have eq: "nx' = nx(n := nx s, s := n)" "pv' = pv(n := s, nx s := n)"
    using l n by (auto simp: link_after_def Let_def)
  have d: "distinct (s # xs)" and sg: "seg nx pv s xs s" using ring by (auto simp: ring_def)
  show ?thesis
  proof (cases xs)
    case Nil
    with sg n show ?thesis by (auto simp: ring_def eq)
  next
    case (Cons x ys)
    with sg have x: "nx s = x" and rest: "seg nx pv x ys s" by auto
    have "seg nx' pv' x ys s = seg nx pv x ys s"
      by (rule seg_cong) (use Cons d n x in \<open>auto simp: eq\<close>)
    with Cons d n x rest show ?thesis by (auto simp: ring_def eq)
  qed
qed

lemma unlink_seg:
  assumes "seg nx pv a as n" "seg nx pv n bs b" "distinct (a # as @ n # bs)" "b \<notin> set (as @ n # bs)"
  shows "seg (nx(last (a # as) := hd (bs @ [b]))) (pv(hd (bs @ [b]) := last (a # as))) a (as @ bs) b"
  using assms
proof (induction as arbitrary: a)
  case Nil
  show ?case
  proof (cases bs)
    case (Cons x ys)
    have "seg (nx(a := x)) (pv(x := a)) x ys b = seg nx pv x ys b"
      by (rule seg_cong) (use Nil Cons in auto)
    moreover have "nx n = x" "seg nx pv x ys b" using Nil.prems(2) Cons by auto
    ultimately show ?thesis using Cons by (simp del: fun_upd_apply) simp
  qed simp
next
  case (Cons a1 as)
  have q: "hd (bs @ [b]) \<noteq> a1" using Cons.prems by (cases bs) auto
  have "last (a1 # as) \<noteq> a" using Cons.prems(3) last_in_set [of "a1 # as"] by auto
  with Cons.IH [of a1] Cons.prems q show ?case by auto
qed

lemma unlink_ring:
  assumes ring: "ring nx pv s (as @ n # bs)" and l: "unlink n (nx, pv) = (nx', pv')"
  shows "ring nx' pv' s (as @ bs)"
proof -
  have d: "distinct (s # as @ n # bs)" and sg: "seg nx pv s as n" "seg nx pv n bs s"
    using ring by (auto simp: ring_def seg_append)
  have p: "pv n = last (s # as)" by (rule seg_last [OF sg(1)])
  have q: "nx n = hd (bs @ [s])" by (rule seg_first [OF sg(2)])
  have "pv n \<noteq> n" unfolding p using d last_in_set [of "s # as"] by (auto split: if_splits)
  then have eq: "nx' = nx(last (s # as) := hd (bs @ [s]))" "pv' = pv(hd (bs @ [s]) := last (s # as))"
    using l unfolding unlink_def p [symmetric] q [symmetric] by (auto simp: Let_def)
  have "seg nx' pv' s (as @ bs) s"
    unfolding eq by (rule unlink_seg [OF sg]) (use d in auto)
  with d show ?thesis by (auto simp: ring_def)
qed

text \<open>Neither operation touches a ring that shares no node with the one it works on.\<close>

lemma link_after_other:
  assumes "ring nx pv s xs" "link_after s n (nx, pv) = (nx', pv')"
    "set (t # ys) \<inter> set (n # s # xs) = {}"
  shows "ring nx' pv' t ys = ring nx pv t ys"
proof -
  have "nx s \<in> set (s # xs)" using seg_first [of nx pv s xs s] assms(1) by (cases xs) (auto simp: ring_def)
  then show ?thesis
    using assms(2,3) by (intro ring_cong) (auto simp: link_after_def Let_def split: if_splits)
qed

lemma unlink_other:
  assumes "ring nx pv s (as @ n # bs)" "unlink n (nx, pv) = (nx', pv')"
    "set (t # ys) \<inter> set (s # as @ n # bs) = {}"
  shows "ring nx' pv' t ys = ring nx pv t ys"
proof -
  have sg: "seg nx pv s as n" "seg nx pv n bs s" using assms(1) by (auto simp: ring_def seg_append)
  have "pv n \<in> set (s # as)" "nx n \<in> set (bs @ [s])"
    using seg_last [OF sg(1)] seg_first [OF sg(2)] last_in_set [of "s # as"]
      hd_in_set [of "bs @ [s]"] by auto
  moreover have "pv n \<noteq> n"
    using calculation(1) assms(1) by (auto simp: ring_def)
  ultimately show ?thesis
    using assms(2,3) by (intro ring_cong) (auto simp: unlink_def Let_def split: if_splits)
qed

subsection \<open>Reading the list backwards\<close>

lemma seg_snoc: "seg nx pv a (xs @ [x]) b = (seg nx pv a xs x \<and> nx x = b \<and> pv b = x)"
  by (simp add: seg_append)

lemma seg_rev: "seg pv nx b (rev xs) a = seg nx pv a xs b"
  by (induction xs arbitrary: a) (auto simp: seg_snoc)

lemma ring_rev: "ring pv nx s (rev xs) = ring nx pv s xs"
  by (simp add: ring_def seg_rev)

text \<open>Inserting in front of the sentinel is inserting behind it, seen from the other side.\<close>

lemma link_before_ring:
  assumes ring: "ring nx pv s xs" and n: "n \<notin> set (s # xs)" and l: "link_after s n (pv, nx) = (pv', nx')"
  shows "ring nx' pv' s (xs @ [n])"
proof -
  have "ring pv' nx' s (n # rev xs)"
    by (rule link_after_ring [OF _ _ l]) (use ring n in \<open>simp_all add: ring_rev\<close>)
  then show ?thesis using ring_rev [of nx' pv' s "n # rev xs"] by simp
qed

end
