(* ===== verification/Runqueue.thy ===== *)
theory Runqueue
  imports Dll
begin

unbundle bit_operations_syntax

text \<open>
  The runqueues of \<^verbatim>\<open>src/kernel/scheduler.c\<close>: for each of the 32 priorities a doubly linked list of
  processes, threaded through the fields \<^verbatim>\<open>rq_next\<close> and \<^verbatim>\<open>rq_prev\<close> of the processes, and a bitmap with
  one bit per priority. Every CPU has two of them. A process is its number; \<open>qhead\<close>, \<open>qtail\<close> and
  \<open>rq_map\<close> are indexed by the number of the runqueue. The refinement is to a list of processes per
  runqueue and priority.
\<close>

section \<open>The code\<close>

definition SCHED_NUM_PRIOS :: nat where "SCHED_NUM_PRIOS = 32"

record rqs =
  rq_next :: "nat \<Rightarrow> nat option"
  rq_prev :: "nat \<Rightarrow> nat option"
  qhead :: "nat \<Rightarrow> nat \<Rightarrow> nat option"
  qtail :: "nat \<Rightarrow> nat \<Rightarrow> nat option"
  rq_map :: "nat \<Rightarrow> u32"

text \<open>\<^verbatim>\<open>__builtin_ctz\<close>: the number of the lowest set bit; the code calls it on non-zero words only.\<close>

definition bsf32 :: "u32 \<Rightarrow> nat" where
  "bsf32 v = (case find (bit v) [0..<32] of Some i \<Rightarrow> i | None \<Rightarrow> 32)"

definition set_head :: "nat \<Rightarrow> nat \<Rightarrow> nat option \<Rightarrow> rqs \<Rightarrow> rqs" where
  "set_head r k x s = s\<lparr>qhead := (qhead s)(r := (qhead s r)(k := x))\<rparr>"

definition set_tail :: "nat \<Rightarrow> nat \<Rightarrow> nat option \<Rightarrow> rqs \<Rightarrow> rqs" where
  "set_tail r k x s = s\<lparr>qtail := (qtail s)(r := (qtail s r)(k := x))\<rparr>"

definition set_next :: "nat \<Rightarrow> nat option \<Rightarrow> rqs \<Rightarrow> rqs" where
  "set_next p x s = s\<lparr>rq_next := (rq_next s)(p := x)\<rparr>"

definition set_prev :: "nat \<Rightarrow> nat option \<Rightarrow> rqs \<Rightarrow> rqs" where
  "set_prev p x s = s\<lparr>rq_prev := (rq_prev s)(p := x)\<rparr>"

text \<open>\<open>k\<close> is the priority of the process \<open>p\<close>, read from its \<^verbatim>\<open>priority\<close> field.\<close>

definition rq_enqueue :: "nat \<Rightarrow> nat \<Rightarrow> nat \<Rightarrow> rqs \<Rightarrow> rqs" where
  "rq_enqueue r k p s =
     (let s = set_next p None s;
          s = set_prev p (qtail s r k) s;
          s = (case qtail s r k of Some t \<Rightarrow> set_next t (Some p) s | None \<Rightarrow> set_head r k (Some p) s);
          s = set_tail r k (Some p) s
      in s\<lparr>rq_map := (rq_map s)(r := rq_map s r OR push_bit k 1)\<rparr>)"

definition rq_dequeue :: "nat \<Rightarrow> nat \<Rightarrow> nat \<Rightarrow> rqs \<Rightarrow> rqs" where
  "rq_dequeue r k p s =
     (let s = (case rq_prev s p of Some q \<Rightarrow> set_next q (rq_next s p) s | None \<Rightarrow> set_head r k (rq_next s p) s);
          s = (case rq_next s p of Some q \<Rightarrow> set_prev q (rq_prev s p) s | None \<Rightarrow> set_tail r k (rq_prev s p) s);
          s = set_next p None s;
          s = set_prev p None s
      in if qhead s r k = None then s\<lparr>rq_map := (rq_map s)(r := rq_map s r AND NOT (push_bit k 1))\<rparr> else s)"

text \<open>The scan of \<^verbatim>\<open>rq_remove_if_queued\<close> along one list; the fuel bounds the length of the list.\<close>

fun on_list :: "nat \<Rightarrow> rqs \<Rightarrow> nat option \<Rightarrow> nat \<Rightarrow> bool" where
  "on_list 0 s it p = False"
| "on_list (Suc n) s None p = False"
| "on_list (Suc n) s (Some q) p = (if q = p then True else on_list n s (rq_next s q) p)"

section \<open>The queues as lists\<close>

definition nxv :: "rqs \<Rightarrow> nat \<Rightarrow> nat \<Rightarrow> nat option \<Rightarrow> nat option" where
  "nxv s r k x = (case x of None \<Rightarrow> qhead s r k | Some p \<Rightarrow> rq_next s p)"

definition pvv :: "rqs \<Rightarrow> nat \<Rightarrow> nat \<Rightarrow> nat option \<Rightarrow> nat option" where
  "pvv s r k x = (case x of None \<Rightarrow> qtail s r k | Some p \<Rightarrow> rq_prev s p)"

definition queue_rep :: "rqs \<Rightarrow> nat \<Rightarrow> nat \<Rightarrow> nat list \<Rightarrow> bool" where
  "queue_rep s r k xs \<longleftrightarrow> ring (nxv s r k) (pvv s r k) None (map Some xs)"

text \<open>
  All queues together: \<open>Q r k\<close> is the list of the processes of priority \<open>k\<close> in runqueue \<open>r\<close>. No process
  is queued twice, and the bitmap shows which lists are not empty.
\<close>

definition rq_ok :: "rqs \<Rightarrow> (nat \<Rightarrow> nat \<Rightarrow> nat list) \<Rightarrow> bool" where
  "rq_ok s Q \<longleftrightarrow>
     (\<forall>r k. k < 32 \<longrightarrow> queue_rep s r k (Q r k)) \<and>
     (\<forall>r k. 32 \<le> k \<longrightarrow> Q r k = []) \<and>
     (\<forall>r k r' k'. (r, k) \<noteq> (r', k') \<longrightarrow> set (Q r k) \<inter> set (Q r' k') = {}) \<and>
     (\<forall>r k. k < 32 \<longrightarrow> bit (rq_map s r) k = (Q r k \<noteq> []))"

definition set_queue :: "nat \<Rightarrow> nat \<Rightarrow> nat list \<Rightarrow> (nat \<Rightarrow> nat \<Rightarrow> nat list) \<Rightarrow> nat \<Rightarrow> nat \<Rightarrow> nat list" where
  "set_queue r k xs Q = Q(r := (Q r)(k := xs))"

definition queued :: "(nat \<Rightarrow> nat \<Rightarrow> nat list) \<Rightarrow> nat \<Rightarrow> bool" where
  "queued Q p \<longleftrightarrow> (\<exists>r k. p \<in> set (Q r k))"

lemma set_queue_apply: "set_queue r k xs Q r' k' = (if r' = r \<and> k' = k then xs else Q r' k')"
  by (simp add: set_queue_def)

lemma rq_okD:
  assumes "rq_ok s Q"
  shows "k < 32 \<Longrightarrow> queue_rep s r k (Q r k)" "32 \<le> k \<Longrightarrow> Q r k = []"
    "(r, k) \<noteq> (r', k') \<Longrightarrow> set (Q r k) \<inter> set (Q r' k') = {}"
    "k < 32 \<Longrightarrow> bit (rq_map s r) k = (Q r k \<noteq> [])"
  using assms unfolding rq_ok_def by blast+

lemma queue_distinct: "queue_rep s r k xs \<Longrightarrow> distinct xs"
  by (simp add: queue_rep_def ring_def distinct_map)

lemma queue_head: "queue_rep s r k xs \<Longrightarrow> qhead s r k = (case xs of [] \<Rightarrow> None | x # _ \<Rightarrow> Some x)"
  by (cases xs) (auto simp: queue_rep_def ring_def nxv_def)

text \<open>Both operations, as the pointer updates of the list library.\<close>

lemma rq_enqueue_link:
  assumes p: "qtail s r k \<noteq> Some p" and s': "s' = rq_enqueue r k p s"
  shows "link_after None (Some p) (pvv s r k, nxv s r k) = (pvv s' r k, nxv s' r k)"
    and "rq_map s' = (rq_map s)(r := rq_map s r OR push_bit k 1)"
    and "(r', k') \<noteq> (r, k) \<Longrightarrow> qhead s' r' k' = qhead s r' k' \<and> qtail s' r' k' = qtail s r' k'"
    and "q \<noteq> p \<Longrightarrow> Some q \<noteq> qtail s r k \<Longrightarrow> rq_next s' q = rq_next s q"
    and "q \<noteq> p \<Longrightarrow> rq_prev s' q = rq_prev s q"
proof -
  show "link_after None (Some p) (pvv s r k, nxv s r k) = (pvv s' r k, nxv s' r k)"
    unfolding s' link_after_def rq_enqueue_def Let_def
    using p by (auto simp: fun_eq_iff pvv_def nxv_def set_next_def set_prev_def set_head_def set_tail_def
        split: option.splits)
qed (auto simp: s' rq_enqueue_def Let_def set_next_def set_prev_def set_head_def set_tail_def split: option.splits)

lemma rq_dequeue_unlink:
  assumes p: "rq_next s p \<noteq> Some p" "rq_prev s p \<noteq> Some p" and s': "s' = rq_dequeue r k p s"
    and u: "unlink (Some p) (nxv s r k, pvv s r k) = (nx, pv)"
  shows "\<And>x. x \<noteq> Some p \<Longrightarrow> nxv s' r k x = nx x" "\<And>x. x \<noteq> Some p \<Longrightarrow> pvv s' r k x = pv x"
    and "rq_map s' = (if qhead s' r k = None then (rq_map s)(r := rq_map s r AND NOT (push_bit k 1)) else rq_map s)"
    and "(r', k') \<noteq> (r, k) \<Longrightarrow> qhead s' r' k' = qhead s r' k' \<and> qtail s' r' k' = qtail s r' k'"
    and "q \<noteq> p \<Longrightarrow> Some q \<noteq> rq_prev s p \<Longrightarrow> rq_next s' q = rq_next s q"
    and "q \<noteq> p \<Longrightarrow> Some q \<noteq> rq_next s p \<Longrightarrow> rq_prev s' q = rq_prev s q"
proof -
  note defs = rq_dequeue_def Let_def set_next_def set_prev_def set_head_def set_tail_def
  show "nxv s' r k x = nx x" if "x \<noteq> Some p" for x
    using u p that unfolding s' unlink_def by (auto simp: defs nxv_def pvv_def split: option.splits if_splits)
  show "pvv s' r k x = pv x" if "x \<noteq> Some p" for x
    using u p that unfolding s' unlink_def by (auto simp: defs nxv_def pvv_def split: option.splits if_splits)
  show "rq_map s' = (if qhead s' r k = None then (rq_map s)(r := rq_map s r AND NOT (push_bit k 1)) else rq_map s)"
    unfolding s' by (auto simp: defs split: option.splits)
qed (use p in \<open>auto simp: s' rq_dequeue_def Let_def set_next_def set_prev_def set_head_def set_tail_def split: option.splits\<close>)

section \<open>The operations keep the queues\<close>

lemma queue_rep_cong:
  assumes "qhead s' r k = qhead s r k" "qtail s' r k = qtail s r k"
    "\<And>p. p \<in> set xs \<Longrightarrow> rq_next s' p = rq_next s p \<and> rq_prev s' p = rq_prev s p"
  shows "queue_rep s' r k xs = queue_rep s r k xs"
  unfolding queue_rep_def using assms by (intro ring_cong) (auto simp: nxv_def pvv_def)

lemma queue_tail_in:
  assumes "queue_rep s r k xs" "qtail s r k = Some t"
  shows "t \<in> set xs"
proof -
  have sg: "seg (nxv s r k) (pvv s r k) None (map Some xs) None" using assms(1) by (simp add: queue_rep_def ring_def)
  have "pvv s r k None \<in> set (None # map Some xs)"
    using seg_last [OF sg] last_in_set [of "None # map Some xs"] by simp
  then show ?thesis using assms(2) by (auto simp: pvv_def)
qed

lemma queue_links_in:
  assumes rep: "queue_rep s r k xs" and p: "p \<in> set xs"
  shows "rq_next s p = Some q \<Longrightarrow> q \<in> set xs" "rq_prev s p = Some q \<Longrightarrow> q \<in> set xs"
    "rq_next s p \<noteq> Some p" "rq_prev s p \<noteq> Some p"
proof -
  obtain ys zs where xs: "xs = ys @ p # zs" using p by (metis split_list)
  have sg: "seg (nxv s r k) (pvv s r k) None (map Some ys) (Some p)"
      "seg (nxv s r k) (pvv s r k) (Some p) (map Some zs) None"
    and d: "distinct xs"
    using rep unfolding queue_rep_def ring_def xs by (auto simp: seg_append distinct_map)
  have n: "rq_next s p = hd (map Some zs @ [None])" using seg_first [OF sg(2)] by (simp add: nxv_def)
  have v: "rq_prev s p = last (None # map Some ys)" using seg_last [OF sg(1)] by (simp add: pvv_def)
  have n': "rq_next s p \<in> set (map Some zs @ [None])" unfolding n by (rule hd_in_set) simp
  have v': "rq_prev s p \<in> set (None # map Some ys)" unfolding v by (rule last_in_set) simp
  show "rq_next s p = Some q \<Longrightarrow> q \<in> set xs" using n' xs by auto
  show "rq_prev s p = Some q \<Longrightarrow> q \<in> set xs" using v' xs by auto
  show "rq_next s p \<noteq> Some p" using n' d xs by auto
  show "rq_prev s p \<noteq> Some p" using v' d xs by auto
qed

lemma rq_enqueue_ok:
  assumes ok: "rq_ok s Q" and k: "k < 32" and p: "\<not> queued Q p"
  shows "rq_ok (rq_enqueue r k p s) (set_queue r k (Q r k @ [p]) Q)"
proof -
  define s' where s': "s' = rq_enqueue r k p s"
  have fresh: "p \<notin> set (Q r' k')" for r' k' using p by (auto simp: queued_def)
  have rep: "queue_rep s r k (Q r k)" using rq_okD(1) [OF ok k] .
  have t: "qtail s r k \<noteq> Some p" using queue_tail_in [OF rep] fresh by blast
  note L = rq_enqueue_link [OF t s']
  have own: "queue_rep s' r k (Q r k @ [p])"
    using link_before_ring [OF rep [unfolded queue_rep_def] _ L(1)] fresh by (simp add: queue_rep_def image_iff)
  have other: "queue_rep s' r' k' (Q r' k')" if "(r', k') \<noteq> (r, k)" and k': "k' < 32" for r' k'
  proof -
    have d: "set (Q r' k') \<inter> set (Q r k) = {}" using rq_okD(3) [OF ok that(1)] .
    have "queue_rep s' r' k' (Q r' k') = queue_rep s r' k' (Q r' k')"
    proof (rule queue_rep_cong)
      fix q assume q: "q \<in> set (Q r' k')"
      then have "q \<noteq> p" "Some q \<noteq> qtail s r k" using fresh queue_tail_in [OF rep] d by (auto dest: sym)
      then show "rq_next s' q = rq_next s q \<and> rq_prev s' q = rq_prev s q" using L(4,5) by blast
    qed (use L(3) [OF that(1)] in auto)
    then show ?thesis using rq_okD(1) [OF ok k'] by simp
  qed
  have bits: "bit (rq_map s' r') k' = (set_queue r k (Q r k @ [p]) Q r' k' \<noteq> [])" if "k' < 32" for r' k'
    using rq_okD(4) [OF ok that, of r'] that k
    by (auto simp: L(2) set_queue_apply bit_or_iff bit_exp_iff)
  show ?thesis unfolding rq_ok_def s' [symmetric]
  proof (intro conjI allI impI)
    fix r1 k1 r2 k2 :: nat assume "(r1, k1) \<noteq> (r2, k2)"
    then show "set (set_queue r k (Q r k @ [p]) Q r1 k1) \<inter> set (set_queue r k (Q r k @ [p]) Q r2 k2) = {}"
      using rq_okD(3) [OF ok, of r1 k1 r2 k2] fresh by (auto simp: set_queue_apply)
  next
    fix r' k' :: nat assume "32 \<le> k'"
    then show "set_queue r k (Q r k @ [p]) Q r' k' = []" using rq_okD(2) [OF ok] k by (auto simp: set_queue_apply)
  next
    fix r' k' :: nat assume "k' < 32"
    then show "queue_rep s' r' k' (set_queue r k (Q r k @ [p]) Q r' k')"
      using own other by (auto simp: set_queue_apply)
  qed (use bits in auto)
qed

lemma rq_dequeue_ok:
  assumes ok: "rq_ok s Q" and k: "k < 32" and p: "p \<in> set (Q r k)"
  shows "rq_ok (rq_dequeue r k p s) (set_queue r k (remove1 p (Q r k)) Q)"
proof -
  define s' where s': "s' = rq_dequeue r k p s"
  have rep: "queue_rep s r k (Q r k)" using rq_okD(1) [OF ok k] .
  note dist = queue_distinct [OF rep]
  obtain ys zs where xs: "Q r k = ys @ p # zs" using p by (metis split_list)
  have rem: "remove1 p (Q r k) = ys @ zs" using dist xs by (simp add: remove1_append)
  note links = queue_links_in [OF rep p]
  obtain nx pv where u: "unlink (Some p) (nxv s r k, pvv s r k) = (nx, pv)" by fastforce
  note L = rq_dequeue_unlink [OF links(3,4) s' u]
  have "ring nx pv None (map Some ys @ map Some zs)"
    using unlink_ring [OF _ u, of None "map Some ys" "map Some zs"] rep by (simp add: queue_rep_def xs)
  moreover have "ring (nxv s' r k) (pvv s' r k) None (map Some (ys @ zs)) = ring nx pv None (map Some (ys @ zs))"
  proof (rule ring_cong)
    fix x assume "x \<in> set (None # map Some (ys @ zs))"
    then have "x \<noteq> Some p" using dist xs by auto
    then show "nxv s' r k x = nx x \<and> pvv s' r k x = pv x" using L(1,2) by blast
  qed
  ultimately have own: "queue_rep s' r k (ys @ zs)" by (simp add: queue_rep_def)
  have other: "queue_rep s' r' k' (Q r' k')" if "(r', k') \<noteq> (r, k)" and k': "k' < 32" for r' k'
  proof -
    have d: "set (Q r' k') \<inter> set (Q r k) = {}" using rq_okD(3) [OF ok that(1)] .
    have "queue_rep s' r' k' (Q r' k') = queue_rep s r' k' (Q r' k')"
    proof (rule queue_rep_cong)
      fix q assume q: "q \<in> set (Q r' k')"
      then have "q \<noteq> p" "Some q \<noteq> rq_next s p" "Some q \<noteq> rq_prev s p"
        using d p links(1,2) by (auto dest: sym)
      then show "rq_next s' q = rq_next s q \<and> rq_prev s' q = rq_prev s q" using L(5,6) by blast
    qed (use L(4) [OF that(1)] in auto)
    then show ?thesis using rq_okD(1) [OF ok k'] by simp
  qed
  have empty: "(qhead s' r k = None) = (ys @ zs = [])"
    using queue_head [OF own] by (cases "ys @ zs") simp_all
  have bits: "bit (rq_map s' r') k' = (set_queue r k (ys @ zs) Q r' k' \<noteq> [])" if "k' < 32" for r' k'
    using rq_okD(4) [OF ok that, of r'] that k
    by (auto simp: L(3) empty set_queue_apply bit_and_iff bit_not_iff bit_exp_iff xs)
  show ?thesis unfolding rq_ok_def s' [symmetric] rem
  proof (intro conjI allI impI)
    fix r1 k1 r2 k2 :: nat assume "(r1, k1) \<noteq> (r2, k2)"
    then show "set (set_queue r k (ys @ zs) Q r1 k1) \<inter> set (set_queue r k (ys @ zs) Q r2 k2) = {}"
      using rq_okD(3) [OF ok, of r1 k1 r2 k2] xs by (auto simp: set_queue_apply)
  next
    fix r' k' :: nat assume "32 \<le> k'"
    then show "set_queue r k (ys @ zs) Q r' k' = []" using rq_okD(2) [OF ok] k by (auto simp: set_queue_apply)
  next
    fix r' k' :: nat assume "k' < 32"
    then show "queue_rep s' r' k' (set_queue r k (ys @ zs) Q r' k')"
      using own other by (auto simp: set_queue_apply)
  qed (use bits in auto)
qed

text \<open>The lowest set bit of the bitmap is the most urgent priority with a process.\<close>

lemma bsf32_least:
  assumes "v \<noteq> 0"
  shows "bsf32 v < 32" "bit v (bsf32 v)" "i < bsf32 v \<Longrightarrow> \<not> bit v i"
proof -
  obtain j where j: "bit v j" using assms by (auto simp: bit_eq_iff)
  then have "j < 32" using bit_imp_le_length [OF j] by simp
  then obtain m where m: "find (bit v) [0..<32] = Some m"
    using j by (cases "find (bit v) [0..<32]") (auto simp: find_None_iff)
  then have eq: "bsf32 v = m" by (simp add: bsf32_def)
  have "m < 32 \<and> bit v m \<and> (\<forall>j<m. \<not> bit v j)" using m unfolding find_upt_Some .
  then show "bsf32 v < 32" "bit v (bsf32 v)" "i < bsf32 v \<Longrightarrow> \<not> bit v i" by (auto simp: eq)
qed

lemma rq_map_zero: "rq_ok s Q \<Longrightarrow> (rq_map s r = 0) = (\<forall>k. Q r k = [])"
proof -
  assume ok: "rq_ok s Q"
  have "(rq_map s r = 0) = (\<forall>k<32. \<not> bit (rq_map s r) k)"
    by (auto simp: bit_eq_iff dest: bit_imp_le_length)
  also have "\<dots> = (\<forall>k. Q r k = [])" using rq_okD(2,4) [OF ok] by (meson not_le)
  finally show ?thesis .
qed

lemma rq_first:
  assumes ok: "rq_ok s Q" and ne: "rq_map s r \<noteq> 0"
  defines "k \<equiv> bsf32 (rq_map s r)"
  shows "k < 32" "Q r k \<noteq> []" "qhead s r k = Some (hd (Q r k))" "j < k \<Longrightarrow> Q r j = []"
proof -
  note b = bsf32_least [OF ne, folded k_def]
  show k: "k < 32" by (rule b(1))
  show q: "Q r k \<noteq> []" using rq_okD(4) [OF ok k] b(2) by simp
  show "qhead s r k = Some (hd (Q r k))"
    using queue_head [OF rq_okD(1) [OF ok k], of r] q by (simp split: list.splits)
  show "j < k \<Longrightarrow> Q r j = []" using rq_okD(4) [OF ok, of j r] b(3) [of j] k by simp
qed

lemma on_list_seg:
  assumes "queue_rep s r k xs" "length xs < n"
  shows "on_list n s (qhead s r k) p = (p \<in> set xs)"
proof -
  have gen: "on_list m s (case ys of [] \<Rightarrow> None | y # _ \<Rightarrow> Some y) p = (p \<in> set ys)"
    if "seg (nxv s r k) (pvv s r k) a (map Some ys) None" "length ys < m" for m ys a
    using that
  proof (induction ys arbitrary: m a)
    case Nil
    then show ?case by (cases m) auto
  next
    case (Cons y ys)
    then obtain m' where m: "m = Suc m'" by (cases m) auto
    have "rq_next s y = (case ys of [] \<Rightarrow> None | y # _ \<Rightarrow> Some y)"
      using Cons.prems(1) by (cases ys) (auto simp: nxv_def)
    with Cons.IH [of "Some y" m'] Cons.prems m show ?case by auto
  qed
  show ?thesis using gen [of None xs n] assms queue_head [OF assms(1)] by (simp add: queue_rep_def ring_def)
qed

end
