(* ===== verification/Timer_Queue.thy ===== *)
theory Timer_Queue
  imports Dll
begin

text \<open>
  The two timer queues of \<^verbatim>\<open>src/kernel/scheduler.c\<close>: the sleeping processes sorted by \<^verbatim>\<open>wake_at_tick\<close>
  and the processes with an alarm sorted by \<^verbatim>\<open>alarm_tick\<close>. The source has the two functions of each
  queue twice, word for word, with the names of the fields changed; here they are one pair of
  functions over a record of the fields, with the sort key as an argument, and the four functions of
  the code are the two instances. The lemmas show that the queue is a sorted list in which every
  process stands at most once.
\<close>

section \<open>The code\<close>

record tqueue =
  tq_next :: "nat \<Rightarrow> nat option"
  tq_prev :: "nat \<Rightarrow> nat option"
  tq_head :: "nat option"
  tq_in :: "nat \<Rightarrow> bool"

text \<open>
  The walk of the insertion: from \<open>cur\<close> to the last process whose successor does not have a smaller
  key. The fuel bounds the number of processes in the queue.
\<close>

fun tq_walk :: "nat \<Rightarrow> (nat \<Rightarrow> u32) \<Rightarrow> tqueue \<Rightarrow> u32 \<Rightarrow> nat \<Rightarrow> nat" where
  "tq_walk 0 key q t cur = cur"
| "tq_walk (Suc n) key q t cur =
     (case tq_next q cur of
        None \<Rightarrow> cur
      | Some x \<Rightarrow> if key x < t then tq_walk n key q t x else cur)"

definition tq_set_next :: "nat \<Rightarrow> nat option \<Rightarrow> tqueue \<Rightarrow> tqueue" where
  "tq_set_next p x q = q\<lparr>tq_next := (tq_next q)(p := x)\<rparr>"

definition tq_set_prev :: "nat \<Rightarrow> nat option \<Rightarrow> tqueue \<Rightarrow> tqueue" where
  "tq_set_prev p x q = q\<lparr>tq_prev := (tq_prev q)(p := x)\<rparr>"

definition tq_insert :: "nat \<Rightarrow> (nat \<Rightarrow> u32) \<Rightarrow> nat \<Rightarrow> tqueue \<Rightarrow> tqueue" where
  "tq_insert fuel key p q =
     (let q = q\<lparr>tq_in := (tq_in q)(p := True)\<rparr> in
      case tq_head q of
        None \<Rightarrow> (tq_set_next p None (tq_set_prev p None q))\<lparr>tq_head := Some p\<rparr>
      | Some h \<Rightarrow>
          if key p \<le> key h
          then (let q = tq_set_prev p None q;
                    q = tq_set_next p (Some h) q;
                    q = tq_set_prev h (Some p) q
                in q\<lparr>tq_head := Some p\<rparr>)
          else (let cur = tq_walk fuel key q (key p) h;
                    q = tq_set_next p (tq_next q cur) q;
                    q = tq_set_prev p (Some cur) q;
                    q = (case tq_next q cur of None \<Rightarrow> q | Some x \<Rightarrow> tq_set_prev x (Some p) q)
                in tq_set_next cur (Some p) q))"

definition tq_remove :: "nat \<Rightarrow> tqueue \<Rightarrow> tqueue" where
  "tq_remove p q =
     (if \<not> tq_in q p then q
      else let q = (case tq_prev q p of Some x \<Rightarrow> tq_set_next x (tq_next q p) q
                                      | None \<Rightarrow> q\<lparr>tq_head := tq_next q p\<rparr>);
               q = (case tq_next q p of Some x \<Rightarrow> tq_set_prev x (tq_prev q p) q | None \<Rightarrow> q);
               q = tq_set_prev p None q;
               q = tq_set_next p None q
           in q\<lparr>tq_in := (tq_in q)(p := False)\<rparr>)"

definition sleep_queue_insert :: "nat \<Rightarrow> (nat \<Rightarrow> u32) \<Rightarrow> nat \<Rightarrow> tqueue \<Rightarrow> tqueue" where
  "sleep_queue_insert fuel wake_at p q = tq_insert fuel wake_at p q"

definition sleep_queue_remove :: "nat \<Rightarrow> tqueue \<Rightarrow> tqueue" where
  "sleep_queue_remove p q = tq_remove p q"

definition alarm_queue_insert :: "nat \<Rightarrow> (nat \<Rightarrow> u32) \<Rightarrow> nat \<Rightarrow> tqueue \<Rightarrow> tqueue" where
  "alarm_queue_insert fuel alarm_at p q = tq_insert fuel alarm_at p q"

definition alarm_queue_remove :: "nat \<Rightarrow> tqueue \<Rightarrow> tqueue" where
  "alarm_queue_remove p q = tq_remove p q"

lemmas timer_queue_defs = sleep_queue_insert_def sleep_queue_remove_def alarm_queue_insert_def alarm_queue_remove_def

section \<open>The queue as a list\<close>

text \<open>The queue has no tail pointer; \<open>tnx\<close> and \<open>tpv\<close> complete it to a ring through the null pointer.\<close>

definition tnx :: "tqueue \<Rightarrow> nat option \<Rightarrow> nat option" where
  "tnx q x = (case x of None \<Rightarrow> tq_head q | Some p \<Rightarrow> tq_next q p)"

definition tpv :: "tqueue \<Rightarrow> nat option \<Rightarrow> nat option \<Rightarrow> nat option" where
  "tpv q l x = (case x of None \<Rightarrow> l | Some p \<Rightarrow> tq_prev q p)"

lemma tnx_simps: "tnx q None = tq_head q" "tnx q (Some p) = tq_next q p"
  by (simp_all add: tnx_def)

definition tq_rep :: "tqueue \<Rightarrow> nat list \<Rightarrow> bool" where
  "tq_rep q xs \<longleftrightarrow> ring (tnx q) (tpv q (last (None # map Some xs))) None (map Some xs) \<and> (\<forall>p. tq_in q p = (p \<in> set xs))"

text \<open>Inserting behind an inner node of a segment.\<close>

lemma link_seg:
  assumes "seg nx pv a (as @ bs) b" "distinct (a # as @ bs)" "b \<notin> set (as @ bs)" "n \<notin> set (a # as @ bs)" "n \<noteq> b"
  shows "seg (nx(n := hd (bs @ [b]), last (a # as) := n)) (pv(n := last (a # as), hd (bs @ [b]) := n)) a (as @ n # bs) b"
  using assms
proof (induction as arbitrary: a)
  case Nil
  show ?case
  proof (cases bs)
    case (Cons x ys)
    define f g where f: "f = nx(n := x, a := n)" and g: "g = pv(n := a, x := n)"
    have "seg f g x ys b = seg nx pv x ys b"
      unfolding f g by (rule seg_cong) (use Nil Cons in auto)
    moreover have "f a = n" "g n = a" "f n = x" "g x = n" using Nil Cons by (auto simp: f g)
    ultimately have "seg f g a (n # bs) b" using Nil Cons by simp
    then show ?thesis using Cons by (simp add: f g del: fun_upd_apply)
  qed (use Nil in auto)
next
  case (Cons a1 as)
  have q: "hd (bs @ [b]) \<noteq> a1" using Cons.prems by (cases bs) auto
  have "last (a1 # as) \<noteq> a" using Cons.prems(2) last_in_set [of "a1 # as"] by auto
  with Cons.IH [of a1] Cons.prems q show ?case by (auto split: if_splits)
qed

fun insort_before :: "(nat \<Rightarrow> u32) \<Rightarrow> nat \<Rightarrow> nat list \<Rightarrow> nat list" where
  "insort_before key p [] = [p]"
| "insort_before key p (x # xs) = (if key x < key p then x # insort_before key p xs else p # x # xs)"

lemma insort_before_split:
  "insort_before key p xs = takeWhile (\<lambda>x. key x < key p) xs @ p # dropWhile (\<lambda>x. key x < key p) xs"
  by (induction xs) auto

lemma set_insort_before [simp]: "set (insort_before key p xs) = insert p (set xs)"
  by (induction xs) auto

lemma sorted_insort_before: "sorted (map key xs) \<Longrightarrow> sorted (map key (insort_before key p xs))"
  by (induction xs) (auto simp: less_imp_le)

lemma distinct_insort_before: "distinct xs \<Longrightarrow> p \<notin> set xs \<Longrightarrow> distinct (insort_before key p xs)"
  by (induction xs) auto

lemma tq_walk_last:
  assumes "seg (tnx q) pv (Some cur) (map Some xs) None" "length xs \<le> n"
  shows "tq_walk n key q t cur = last (cur # takeWhile (\<lambda>x. key x < t) xs)"
  using assms
proof (induction xs arbitrary: cur n)
  case Nil
  then show ?case by (cases n) (auto simp: tnx_simps)
next
  case (Cons x xs)
  then obtain m where m: "n = Suc m" by (cases n) auto
  with Cons.prems have "tq_next q cur = Some x" "seg (tnx q) pv (Some x) (map Some xs) None" by (auto simp: tnx_simps)
  with Cons.IH [of x m] Cons.prems m show ?case by simp
qed

text \<open>Inserting is inserting into the list in front of the first process whose key is not smaller.\<close>

lemma tq_head_rep: "tq_rep q xs \<Longrightarrow> tq_head q = (case xs of [] \<Rightarrow> None | x # _ \<Rightarrow> Some x)"
  by (cases xs) (auto simp: tq_rep_def ring_def tnx_def)

lemma last_opt: "ys \<noteq> [] \<Longrightarrow> last (None # map Some ys) = Some (last ys)"
  by (simp add: last_map)

lemma tq_insert_rep:
  assumes rep: "tq_rep q xs" and p: "p \<notin> set xs" and fuel: "length xs \<le> n"
  shows "tq_rep (tq_insert n key p q) (insort_before key p xs)"
proof -
  define as where as: "as = takeWhile (\<lambda>x. key x < key p) xs"
  define bs where bs: "bs = dropWhile (\<lambda>x. key x < key p) xs"
  have xs: "xs = as @ bs" and ins: "insort_before key p xs = as @ p # bs"
    by (simp_all add: as bs insort_before_split)
  define q' where q': "q' = tq_insert n key p q"
  define l where l: "l = last (None # map Some xs)"
  have sg: "seg (tnx q) (tpv q l) None (map Some as @ map Some bs) None" and d: "distinct (as @ bs)"
    and inq: "\<And>x. tq_in q x = (x \<in> set xs)"
    using rep by (auto simp: tq_rep_def ring_def xs l distinct_map)
  define a where a: "a = last (None # map Some as)"
  define b where b: "b = hd (map Some bs @ [None])"
  have ab: "tnx q a = b"
  proof (cases bs)
    case Nil
    show ?thesis
    proof (cases as rule: rev_cases)
      case Nil
      with \<open>bs = []\<close> sg show ?thesis by (simp add: a b)
    qed (use sg Nil in \<open>auto simp: a b seg_append\<close>)
  next
    case (Cons y ys)
    with sg have "seg (tnx q) (tpv q l) None (map Some as) (Some y)" by (simp add: seg_append)
    then show ?thesis by (cases as rule: rev_cases) (auto simp: a b Cons seg_append)
  qed
  have new: "seg ((tnx q)(Some p := b, a := Some p)) ((tpv q l)(Some p := a, b := Some p))
      None (map Some as @ Some p # map Some bs) None"
    unfolding a b by (rule link_seg [OF sg]) (use d p xs in \<open>auto simp: distinct_map\<close>)
  have l': "last (None # map Some (as @ p # bs)) = (if bs = [] then Some p else l)"
    by (auto simp: l xs last_map)
  have fresh: "a \<noteq> Some p" "b \<noteq> Some p"
    using p xs last_in_set [of "None # map Some as"] hd_in_set [of "map Some bs @ [None]"] by (auto simp: a b)
  have eq: "tnx q' = (tnx q)(Some p := b, a := Some p) \<and>
      tpv q' (if bs = [] then Some p else l) = (tpv q l)(Some p := a, b := Some p) \<and>
      tq_in q' = (tq_in q)(p := True)"
  proof (cases as)
    case Nil
    show ?thesis
    proof (cases bs)
      case Nil' : Nil
      then have "tq_head q = None" using tq_head_rep [OF rep] Nil xs by simp
      then show ?thesis using Nil Nil'
        by (auto simp: q' tq_insert_def fun_eq_iff tnx_def tpv_def a b tq_set_next_def tq_set_prev_def split: option.splits)
    next
      case (Cons y ys)
      then have h: "tq_head q = Some y" using tq_head_rep [OF rep] Nil xs by simp
      have "\<not> key y < key p" using Cons bs dropWhile_eq_Cons_conv [of "\<lambda>x. key x < key p" xs y ys] by simp
      then show ?thesis using Nil Cons h fresh
        by (auto simp: q' tq_insert_def Let_def fun_eq_iff tnx_def tpv_def a b tq_set_next_def tq_set_prev_def
            split: option.splits)
    qed
  next
    case (Cons y ys)
    have h: "tq_head q = Some y" using tq_head_rep [OF rep] Cons xs by simp
    have all: "key x < key p" if "x \<in> set as" for x using that set_takeWhileD unfolding as by fastforce
    then have y: "key y < key p" using Cons by simp
    have "takeWhile (\<lambda>x. key x < key p) bs = []"
      unfolding bs by (metis dropWhile_idem dropWhile_eq_self_iff takeWhile_eq_Nil_iff)
    then have ys: "takeWhile (\<lambda>x. key x < key p) (ys @ bs) = ys"
      using all Cons by (simp add: takeWhile_append2)
    have walk: "tq_walk n key (q\<lparr>tq_in := (tq_in q)(p := True)\<rparr>) (key p) y = last as"
    proof -
      have "tnx (q\<lparr>tq_in := (tq_in q)(p := True)\<rparr>) = tnx q" by (simp add: fun_eq_iff tnx_def split: option.splits)
      then show ?thesis
        using tq_walk_last [of "q\<lparr>tq_in := (tq_in q)(p := True)\<rparr>" "tpv q l" y "ys @ bs" n key "key p"] sg Cons fuel xs
          ys by simp
    qed
    have a': "a = Some (last as)" using Cons by (simp add: a last_map)
    then have nx: "tq_next q (last as) = b" using ab by (simp add: tnx_def)
    have bc: "b = None \<longleftrightarrow> bs = []" by (cases bs) (auto simp: b)
    define c where c: "c = last as"
    have cp: "c \<noteq> p" using fresh a' c by simp
    define q2 where q2: "q2 = tq_set_prev p (Some c) (tq_set_next p b (q\<lparr>tq_in := (tq_in q)(p := True)\<rparr>))"
    have n2: "tq_next q2 c = b" and n1: "tq_next q c = b" using cp nx c by (simp_all add: q2 tq_set_next_def tq_set_prev_def)
    have w: "tq_walk n key (q\<lparr>tq_in := (tq_in q)(p := True)\<rparr>) (key p) y = c" using walk c by simp
    have q'': "q' = tq_set_next c (Some p) (case b of None \<Rightarrow> q2 | Some x \<Rightarrow> tq_set_prev x (Some p) q2)"
      using y n1 n2 by (cases b) (simp_all add: q' tq_insert_def Let_def h w q2 not_le [symmetric])
    have b': "bs = [] \<longleftrightarrow> b = None" using bc by simp
    show ?thesis unfolding b' q'' a' c [symmetric] using cp fresh(2)
      by (cases b) (auto simp: q2 fun_eq_iff tnx_def tpv_def tq_set_next_def tq_set_prev_def split: option.splits)
  qed
  show ?thesis unfolding q' [symmetric] tq_rep_def ins l' ring_def
    using new eq inq d p xs by (auto simp: distinct_map)
qed

text \<open>Removing a process takes it out of the list; a process that is not in the queue is left alone.\<close>

lemma tq_remove_rep:
  assumes rep: "tq_rep q xs"
  shows "tq_rep (tq_remove p q) (remove1 p xs)"
proof (cases "p \<in> set xs")
  case False
  then have "\<not> tq_in q p" using rep by (simp add: tq_rep_def)
  then show ?thesis using rep False by (simp add: tq_remove_def remove1_idem)
next
  case True
  then obtain as bs where xs: "xs = as @ p # bs" by (metis split_list)
  define l where l: "l = last (None # map Some xs)"
  have d: "distinct xs" and inq: "\<And>x. tq_in q x = (x \<in> set xs)"
    and ring: "ring (tnx q) (tpv q l) None (map Some as @ Some p # map Some bs)"
    using rep by (auto simp: tq_rep_def l ring_def distinct_map xs)
  have rem: "remove1 p xs = as @ bs" using d xs by (simp add: remove1_append)
  obtain nx pv where u: "unlink (Some p) (tnx q, tpv q l) = (nx, pv)" by fastforce
  have new: "ring nx pv None (map Some as @ map Some bs)" using unlink_ring [OF ring u] .
  have sg: "seg (tnx q) (tpv q l) None (map Some as) (Some p)" "seg (tnx q) (tpv q l) (Some p) (map Some bs) None"
    using ring by (auto simp: ring_def seg_append)
  have prev: "tq_prev q p = last (None # map Some as)" using seg_last [OF sg(1)] by (simp add: tpv_def)
  have nxt: "tq_next q p = hd (map Some bs @ [None])" using seg_first [OF sg(2)] by (simp add: tnx_def)
  have np: "tq_prev q p \<noteq> Some p" "tq_next q p \<noteq> Some p"
    using d xs last_in_set [of "None # map Some as"] hd_in_set [of "map Some bs @ [None]"] by (auto simp: prev nxt)
  have l': "last (None # map Some (as @ bs)) = (if bs = [] then tq_prev q p else l)"
    by (auto simp: l xs prev last_map)
  have bc: "tq_next q p = None \<longleftrightarrow> bs = []" by (cases bs) (auto simp: nxt)
  define q' where q': "q' = tq_remove p q"
  have eq: "tnx q' x = nx x \<and> tpv q' (if bs = [] then tq_prev q p else l) x = pv x" if "x \<noteq> Some p" for x
    using u np bc that True inq unfolding q' unlink_def
    by (auto simp: tq_remove_def Let_def tnx_def tpv_def tq_set_next_def tq_set_prev_def split: option.splits if_splits)
  have "tq_in q' = (tq_in q)(p := False)"
    using True inq by (auto simp: q' tq_remove_def Let_def tq_set_next_def tq_set_prev_def split: option.splits)
  moreover have "ring (tnx q') (tpv q' (if bs = [] then tq_prev q p else l)) None (map Some (as @ bs)) =
      ring nx pv None (map Some (as @ bs))"
  proof (rule ring_cong)
    fix x assume "x \<in> set (None # map Some (as @ bs))"
    then have "x \<noteq> Some p" using d xs by auto
    then show "tnx q' x = nx x \<and> tpv q' (if bs = [] then tq_prev q p else l) x = pv x" by (rule eq)
  qed
  ultimately show ?thesis unfolding q' [symmetric] tq_rep_def rem l' using new inq d xs by auto
qed

end
