(* ===== verification/Process.thy ===== *)
theory Process
  imports Runqueue Timer_Queue
begin

text \<open>
  The state of the scheduler: the process of \<^verbatim>\<open>include/process.h\<close> as a record, the process list, the
  runqueues and timer queues, the per-CPU load counters of \<^verbatim>\<open>src/kernel/sched_pcpu.c\<close>, the reference
  counts of shared address spaces and the kernel stack slots of \<^verbatim>\<open>src/kernel/scheduler.c\<close>. A process
  is its number (its address in the kernel). The link fields of the runqueues and of the timer
  queues are in the queues' own records; the circular list of all processes is the list from
  \<^verbatim>\<open>ready_queue_head\<close> to \<^verbatim>\<open>ready_queue_tail\<close>. Calls that leave the scheduler (interprocessor
  interrupts, page tables, mounts, the heap) are recorded as events, in order.
\<close>

section \<open>Processes\<close>

definition SCHED_DEFAULT_PRIO :: nat where "SCHED_DEFAULT_PRIO = 16"
definition SCHED_TIME_SLICE :: nat where "SCHED_TIME_SLICE = 2"
definition SCHED_MAX_CPUS :: nat where "SCHED_MAX_CPUS = 16"
definition SCHED_PCPU_MAX :: nat where "SCHED_PCPU_MAX = 16"
definition PROCESS_MAX_FILES :: nat where "PROCESS_MAX_FILES = 64"
definition PROCESS_MAX_SIG :: int where "PROCESS_MAX_SIG = 32"
definition PROCESS_MAX_MMAPS :: nat where "PROCESS_MAX_MMAPS = 32"
definition AS_REFCOUNT_MAX :: nat where "AS_REFCOUNT_MAX = 64"
definition PROCESS_FLAG_THREAD :: u32 where "PROCESS_FLAG_THREAD = 1"
definition CLONE_VM :: u32 where "CLONE_VM = 0x100"
definition CLONE_THREAD :: u32 where "CLONE_THREAD = 0x10000"
definition CLONE_SETTLS :: u32 where "CLONE_SETTLS = 0x80000"

record process =
  pid :: u32
  parent_pid :: u32
  session_id :: u32
  pgrp_id :: u32
  uid :: u32
  gid :: u32
  euid :: u32
  egid :: u32
  suid :: u32
  sgid :: u32
  addr_space :: u32
  kernel_stack :: u32
  priority :: nat
  nice :: int
  time_slice :: nat
  state :: process_state
  wake_at :: u32
  alarm_tick :: u32
  alarm_interval :: u32
  utime :: u32
  itimer_virt_value :: u32
  itimer_virt_interval :: u32
  itimer_prof_value :: u32
  itimer_prof_interval :: u32
  exit_status :: int
  user_regs :: "u32 list option"
  sigactions :: "u32 list"
  sig_blocked_mask :: u32
  sig_pending_mask :: u32
  mmaps :: "(u32 \<times> u32 \<times> int) list"
  heap_start :: u32
  heap_break :: u32
  rlimits :: "(u32 \<times> u32) list"
  cwd :: string
  waiting :: bool
  wait_pid :: int
  wait_result_pid :: int
  wait_result_status :: int
  files :: "nat option list"
  fd_flags :: "u8 list"
  tgid :: u32
  pflags :: u32
  tls_base :: u32
  cpu_id :: nat
  fpu_state :: "u8 list"

text \<open>The process after \<^verbatim>\<open>memset(proc, 0, sizeof(*proc))\<close>; the state 0 is \<^verbatim>\<open>PROCESS_READY\<close>.\<close>

definition zero_process :: process where
  "zero_process = \<lparr>pid = 0, parent_pid = 0, session_id = 0, pgrp_id = 0, uid = 0, gid = 0, euid = 0, egid = 0,
     suid = 0, sgid = 0, addr_space = 0, kernel_stack = 0, priority = 0, nice = 0, time_slice = 0,
     state = PROCESS_READY, wake_at = 0, alarm_tick = 0, alarm_interval = 0, utime = 0,
     itimer_virt_value = 0, itimer_virt_interval = 0, itimer_prof_value = 0, itimer_prof_interval = 0,
     exit_status = 0, user_regs = None, sigactions = replicate 32 0, sig_blocked_mask = 0, sig_pending_mask = 0,
     mmaps = replicate 32 (0, 0, 0), heap_start = 0, heap_break = 0, rlimits = replicate 8 (0, 0), cwd = [],
     waiting = False, wait_pid = 0, wait_result_pid = 0, wait_result_status = 0,
     files = replicate 64 None, fd_flags = replicate 64 0, tgid = 0, pflags = 0, tls_base = 0, cpu_id = 0,
     fpu_state = []\<rparr>"

datatype event =
    Ipi nat
  | Map_page u32 u32
  | Unmap_page u32
  | As_destroy u32
  | Set_as u32
  | Set_kstack u32
  | Mount_ref string
  | Mount_unref string
  | File_close nat
  | Free_process nat

record kstacks =
  next_slot :: nat
  free_slots :: "nat list"

record sched =
  procs :: "nat \<Rightarrow> process"
  plist :: "nat list"
  rqs :: rqs
  active_store :: "nat \<Rightarrow> nat"
  idle_of :: "nat \<Rightarrow> nat option"
  current :: "nat \<Rightarrow> nat option"
  sleepq :: tqueue
  alarmq :: tqueue
  pcpu_load :: "u32 list"
  pcpu_count :: nat
  next_pid :: u32
  init_pid :: u32
  kernel_as :: u32
  as_refcnt :: "(u32 \<times> u32) list"
  kstk :: kstacks
  file_refs :: "nat \<Rightarrow> u32"
  events :: "event list"

definition upd :: "nat \<Rightarrow> (process \<Rightarrow> process) \<Rightarrow> sched \<Rightarrow> sched" where
  "upd p f s = s\<lparr>procs := (procs s)(p := f (procs s p))\<rparr>"

definition emit :: "event \<Rightarrow> sched \<Rightarrow> sched" where
  "emit e s = s\<lparr>events := events s @ [e]\<rparr>"

text \<open>Number of the runqueue a CPU has as \<^verbatim>\<open>active\<close> or \<^verbatim>\<open>expired\<close>: \<^verbatim>\<open>&pcpu_rq[cpu].stores[i]\<close> is \<open>2 * cpu + i\<close>.\<close>

definition active_rq :: "sched \<Rightarrow> nat \<Rightarrow> nat" where
  "active_rq s c = 2 * c + active_store s c"

definition expired_rq :: "sched \<Rightarrow> nat \<Rightarrow> nat" where
  "expired_rq s c = 2 * c + (1 - active_store s c)"

definition clamp_cpu :: "nat \<Rightarrow> nat" where
  "clamp_cpu c = (if c < SCHED_MAX_CPUS then c else 0)"

section \<open>Load counters\<close>

definition sched_pcpu_init :: "nat \<Rightarrow> sched \<Rightarrow> sched" where
  "sched_pcpu_init ncpus s =
     (let ncpus = (if SCHED_PCPU_MAX < ncpus then SCHED_PCPU_MAX else ncpus)
      in s\<lparr>pcpu_count := ncpus, pcpu_load := replicate SCHED_PCPU_MAX 0\<rparr>)"

definition sched_pcpu_count :: "sched \<Rightarrow> nat" where
  "sched_pcpu_count s = pcpu_count s"

definition sched_pcpu_get_load :: "nat \<Rightarrow> sched \<Rightarrow> u32" where
  "sched_pcpu_get_load c s = (if pcpu_count s \<le> c then 0 else pcpu_load s ! c)"

definition sched_pcpu_least_loaded :: "sched \<Rightarrow> nat" where
  "sched_pcpu_least_loaded s =
     fst (foldl (\<lambda>(best, best_load) i.
            let l = pcpu_load s ! i in if l < best_load then (i, l) else (best, best_load))
          (0, pcpu_load s ! 0) [1..<pcpu_count s])"

definition sched_pcpu_inc_load :: "nat \<Rightarrow> sched \<Rightarrow> sched" where
  "sched_pcpu_inc_load c s =
     (if pcpu_count s \<le> c then s else s\<lparr>pcpu_load := (pcpu_load s)[c := pcpu_load s ! c + 1]\<rparr>)"

definition sched_pcpu_dec_load :: "nat \<Rightarrow> sched \<Rightarrow> sched" where
  "sched_pcpu_dec_load c s =
     (if pcpu_count s \<le> c then s
      else if 0 < pcpu_load s ! c then s\<lparr>pcpu_load := (pcpu_load s)[c := pcpu_load s ! c - 1]\<rparr> else s)"

lemma pick_min:
  fixes f :: "nat \<Rightarrow> u32"
  assumes "foldl (\<lambda>(b, l) i. if f i < l then (i, f i) else (b, l)) (b0, f b0) xs = (b, l)"
  shows "b \<in> insert b0 (set xs) \<and> l = f b \<and> (\<forall>i \<in> insert b0 (set xs). f b \<le> f i)"
  using assms
proof (induction xs arbitrary: b l rule: rev_induct)
  case (snoc x xs)
  obtain b' l' where e: "foldl (\<lambda>(b, l) i. if f i < l then (i, f i) else (b, l)) (b0, f b0) xs = (b', l')"
    by fastforce
  from snoc.IH [OF e] snoc.prems e show ?case by (auto split: if_splits)
qed simp

text \<open>New processes go to a CPU with the least load.\<close>

lemma sched_pcpu_least_loaded_min:
  assumes "0 < pcpu_count s"
  shows "sched_pcpu_least_loaded s < pcpu_count s"
    and "c < pcpu_count s \<Longrightarrow> pcpu_load s ! sched_pcpu_least_loaded s \<le> pcpu_load s ! c"
proof -
  obtain b l where e: "foldl (\<lambda>(b, l) i. if pcpu_load s ! i < l then (i, pcpu_load s ! i) else (b, l))
      (0, pcpu_load s ! 0) [1..<pcpu_count s] = (b, l)" by fastforce
  then have b: "sched_pcpu_least_loaded s = b"
    by (simp add: sched_pcpu_least_loaded_def Let_def)
  note m = pick_min [where f = "\<lambda>i. pcpu_load s ! i" and ?b0.0 = 0, OF e]
  show "sched_pcpu_least_loaded s < pcpu_count s" using m assms by (auto simp: b)
  show "pcpu_load s ! sched_pcpu_least_loaded s \<le> pcpu_load s ! c" if "c < pcpu_count s"
  proof -
    have "c \<in> insert 0 (set [1..<pcpu_count s])" using that by auto
    then show ?thesis using m by (auto simp: b)
  qed
qed

section \<open>Reference counts of shared address spaces\<close>

definition as_slot :: "(u32 \<times> u32) list \<Rightarrow> u32 \<Rightarrow> nat option" where
  "as_slot t a = find (\<lambda>i. fst (t ! i) = a) [0..<AS_REFCOUNT_MAX]"

definition as_refcount_inc :: "u32 \<Rightarrow> (u32 \<times> u32) list \<Rightarrow> (u32 \<times> u32) list" where
  "as_refcount_inc a t =
     (if a = 0 then t
      else case as_slot t a of
          Some i \<Rightarrow> t[i := (a, snd (t ! i) + 1)]
        | None \<Rightarrow> (case as_slot t 0 of Some i \<Rightarrow> t[i := (a, 1)] | None \<Rightarrow> t))"

definition as_refcount_get :: "u32 \<Rightarrow> (u32 \<times> u32) list \<Rightarrow> u32" where
  "as_refcount_get a t =
     (if a = 0 then 0 else case as_slot t a of Some i \<Rightarrow> snd (t ! i) | None \<Rightarrow> 0)"

definition as_refcount_dec :: "u32 \<Rightarrow> (u32 \<times> u32) list \<Rightarrow> (u32 \<times> u32) list \<times> u32" where
  "as_refcount_dec a t =
     (if a = 0 then (t, 0)
      else case as_slot t a of
          None \<Rightarrow> (t, 0)
        | Some i \<Rightarrow>
            let r = (if 0 < snd (t ! i) then snd (t ! i) - 1 else snd (t ! i))
            in (t[i := (if r = 0 then 0 else a, r)], r))"

text \<open>The table has one row per address space.\<close>

definition as_table_ok :: "(u32 \<times> u32) list \<Rightarrow> bool" where
  "as_table_ok t \<longleftrightarrow> length t = AS_REFCOUNT_MAX \<and>
     (\<forall>i j. i < AS_REFCOUNT_MAX \<and> j < AS_REFCOUNT_MAX \<and> fst (t ! i) = fst (t ! j) \<and> fst (t ! i) \<noteq> 0 \<longrightarrow> i = j)"

lemma as_tableD:
  "as_table_ok t \<Longrightarrow> i < AS_REFCOUNT_MAX \<Longrightarrow> j < AS_REFCOUNT_MAX \<Longrightarrow> fst (t ! i) = fst (t ! j) \<Longrightarrow> fst (t ! j) \<noteq> 0 \<Longrightarrow> i = j"
  by (simp add: as_table_ok_def)

lemma as_slot_Some: "as_slot t a = Some i \<Longrightarrow> i < AS_REFCOUNT_MAX \<and> fst (t ! i) = a"
  by (simp add: as_slot_def find_upt_Some)

lemma as_slot_None: "as_slot t a = None \<longleftrightarrow> (\<forall>i < AS_REFCOUNT_MAX. fst (t ! i) \<noteq> a)"
  by (simp add: as_slot_def find_upt_None)

lemma as_slot_unique:
  assumes "as_table_ok t" "a \<noteq> 0" "i < AS_REFCOUNT_MAX" "fst (t ! i) = a"
  shows "as_slot t a = Some i"
proof (cases "as_slot t a")
  case None
  then show ?thesis using assms by (simp add: as_slot_None)
next
  case (Some j)
  then show ?thesis using as_tableD [OF assms(1), of j i] as_slot_Some [OF Some] assms(2-4) by simp
qed

text \<open>Writing a row keeps the table if its address space has no other row.\<close>

lemma as_table_write:
  assumes ok: "as_table_ok t" and i: "i < AS_REFCOUNT_MAX"
    and new: "\<And>j. a \<noteq> 0 \<Longrightarrow> j < AS_REFCOUNT_MAX \<Longrightarrow> j \<noteq> i \<Longrightarrow> fst (t ! j) \<noteq> a"
  shows "as_table_ok (t[i := (a, r)])"
proof -
  have len: "length t = AS_REFCOUNT_MAX" using ok by (simp add: as_table_ok_def)
  have "x = y" if "x < AS_REFCOUNT_MAX" "y < AS_REFCOUNT_MAX" "fst (t[i := (a, r)] ! x) = fst (t[i := (a, r)] ! y)"
    "fst (t[i := (a, r)] ! x) \<noteq> 0" for x y
    using that as_tableD [OF ok, of x y] new [of x] new [of y] i len
    by (cases "x = i"; cases "y = i") (simp_all add: nth_list_update)
  then show ?thesis using len unfolding as_table_ok_def by auto
qed

lemma as_refcount_inc_ok:
  assumes ok: "as_table_ok t"
  shows "as_table_ok (as_refcount_inc a t)"
proof (cases "as_slot t a")
  case None
  show ?thesis
  proof (cases "as_slot t 0")
    case (Some i)
    then show ?thesis using as_table_write [OF ok, of i a 1] as_slot_Some [OF Some] None ok
      by (simp add: as_refcount_inc_def as_slot_None [symmetric]) (simp add: as_slot_None)
  qed (use None ok in \<open>simp add: as_refcount_inc_def\<close>)
next
  case (Some i)
  have "j = i" if "a \<noteq> 0" "j < AS_REFCOUNT_MAX" "fst (t ! j) = a" for j
    using as_tableD [OF ok, of j i] as_slot_Some [OF Some] that by simp
  then show ?thesis using ok as_table_write [OF ok, of i a] as_slot_Some [OF Some]
    by (auto simp: as_refcount_inc_def Some)
qed

lemma as_refcount_dec_ok:
  assumes ok: "as_table_ok t"
  shows "as_table_ok (fst (as_refcount_dec a t))"
proof (cases "as_slot t a")
  case None
  then show ?thesis using ok by (simp add: as_refcount_dec_def)
next
  case (Some i)
  have "j = i" if "a \<noteq> 0" "j < AS_REFCOUNT_MAX" "fst (t ! j) = a" for j
    using as_tableD [OF ok, of j i] as_slot_Some [OF Some] that by simp
  then show ?thesis
    using ok as_table_write [OF ok, of i a] as_table_write [OF ok, of i 0] as_slot_Some [OF Some]
    by (auto simp: as_refcount_dec_def Let_def Some)
qed

text \<open>Incrementing counts, for an address space in the table or with a free row left.\<close>

lemma as_refcount_inc_get:
  assumes ok: "as_table_ok t" and a: "a \<noteq> 0" and room: "as_slot t a \<noteq> None \<or> as_slot t 0 \<noteq> None"
  shows "as_refcount_get a (as_refcount_inc a t) = as_refcount_get a t + 1"
proof -
  define t' where t': "t' = as_refcount_inc a t"
  have len: "length t = AS_REFCOUNT_MAX" using ok by (simp add: as_table_ok_def)
  obtain i where i: "i < AS_REFCOUNT_MAX" "t' = t[i := (a, as_refcount_get a t + 1)]"
  proof (cases "as_slot t a")
    case (Some i)
    then show ?thesis using that [of i] as_slot_Some [OF Some] a by (simp add: t' as_refcount_inc_def as_refcount_get_def)
  next
    case None
    then obtain i where "as_slot t 0 = Some i" using room by auto
    then show ?thesis using that [of i] as_slot_Some [of t 0 i] None a
      by (simp add: t' as_refcount_inc_def as_refcount_get_def)
  qed
  have "as_slot t' a = Some i"
    using as_slot_unique [of t' a i] as_refcount_inc_ok [OF ok, of a] i a len by (simp add: t')
  then show ?thesis using i a len by (simp add: as_refcount_get_def t' [symmetric])
qed

end
