(* ===== verification/User_Memory.thy ===== *)
theory User_Memory
  imports Address_Space Process
begin

unbundle bit_operations_syntax

text \<open>
  The memory of user processes: \<^verbatim>\<open>mmap\<close>, \<^verbatim>\<open>munmap\<close> and \<^verbatim>\<open>brk\<close> of \<^verbatim>\<open>src/kernel/syscall.c\<close> and the shared memory
  segments of \<^verbatim>\<open>src/kernel/shm.c\<close>, on top of the page allocator (\<open>Pmm\<close>) and the page tables (\<open>Vmm\<close>). The calls
  are made by a process that exists, in its own address space. \<^term>\<open>None\<close> is a page fault in the kernel. Addresses and
  error codes are returned in the same 32-bit word, as in the source.
\<close>

section \<open>Anonymous memory\<close>

record uvm =
  vm :: vmm
  proc :: process

definition errno :: "int \<Rightarrow> u32" where
  "errno e = of_int (- e)"

definition round_page :: "u32 \<Rightarrow> u32" where
  "round_page len = (len + 0xFFF) AND NOT 0xFFF"

definition free_mmap_slot :: "process \<Rightarrow> nat option" where
  "free_mmap_slot p = find (\<lambda>i. fst (snd (mmaps p ! i)) = 0) [0..<32]"

definition unmap_free :: "u32 \<Rightarrow> vmm \<Rightarrow> vmm option" where
  "unmap_free va s = do {
     phys \<leftarrow> vmm_virt_to_phys (ucast va) s;
     s \<leftarrow> vmm_unmap_page_nolock (ucast va) s;
     Some (if phys \<noteq> 0 then s\<lparr>page_frames := pmm_free_page phys (page_frames s)\<rparr> else s)
   }"

text \<open>
  The loop that \<^verbatim>\<open>mmap\<close> and \<^verbatim>\<open>brk\<close> share: a zeroed page at each address. At most 1024 addresses are remembered for
  the way back when the memory runs out.
\<close>

fun map_zeroed :: "(u32 \<Rightarrow> u32 \<Rightarrow> vmm \<Rightarrow> vmm option) \<Rightarrow> u32 list \<Rightarrow> u32 list \<Rightarrow> vmm \<Rightarrow> (vmm \<times> bool) option" where
  "map_zeroed mapf [] mapped_va s = Some (s, True)"
| "map_zeroed mapf (va # vas) mapped_va s =
     (let (fr, frame) = pmm_alloc_page (page_frames s);
          s = s\<lparr>page_frames := fr\<rparr>
      in if frame = 0 then each unmap_free mapped_va s \<bind> (\<lambda>s. Some (s, False))
         else do {
           s \<leftarrow> mapf frame va s;
           s \<leftarrow> fill_page va (\<lambda>_. 0) s;
           map_zeroed mapf vas (if length mapped_va < 1024 then mapped_va @ [va] else mapped_va) s
         })"

definition pages_from :: "u32 \<Rightarrow> u32 \<Rightarrow> u32 list" where
  "pages_from base len = map (\<lambda>k. base + of_nat (0x1000 * k)) [0..<unat len div 0x1000]"

datatype fd_mmap = Bad_fd | No_mmap | Dev_mmap "u32 \<Rightarrow> u32 \<Rightarrow> u32 \<Rightarrow> u32 \<Rightarrow> vmm \<Rightarrow> (vmm \<times> u32) option"

definition mmap_find_free :: "u32 \<Rightarrow> vmm \<Rightarrow> u32 option" where
  "mmap_find_free len s = vmm_find_free_area 0x40000000 0x7FF00000 len s"

abbreviation MAP_FIXED :: u32 where "MAP_FIXED \<equiv> 0x10"
abbreviation MAP_ANONYMOUS :: u32 where "MAP_ANONYMOUS \<equiv> 0x20"
abbreviation PROT_WRITE :: u32 where "PROT_WRITE \<equiv> 0x2"
abbreviation PROT_EXEC :: u32 where "PROT_EXEC \<equiv> 0x4"
abbreviation KERN_BASE :: u32 where "KERN_BASE \<equiv> 0xC0000000"

text \<open>Where the mapping goes: an error (\<^const>\<open>Inl\<close>) or the base.\<close>

definition mmap_base :: "u32 \<Rightarrow> u32 \<Rightarrow> u32 \<Rightarrow> vmm \<Rightarrow> (u32 + u32) option" where
  "mmap_base addr aligned_len flags s =
     (if flags AND MAP_FIXED \<noteq> 0 then
        Some (if addr = 0 \<or> addr AND 0xFFF \<noteq> 0 then Inl (errno EINVAL)
              else if KERN_BASE \<le> addr then Inl (errno EINVAL)
              else if addr + aligned_len < addr then Inl (errno EINVAL)
              else if KERN_BASE < addr + aligned_len then Inl (errno EINVAL)
              else Inr addr)
      else do {
        base \<leftarrow> mmap_find_free aligned_len s;
        Some (if base = 0 then Inl (errno ENOMEM) else Inr base)
      })"

definition mmap_flags :: "u32 \<Rightarrow> u32" where
  "mmap_flags prot =
     VMM_FLAG_PRESENT OR VMM_FLAG_USER OR (if prot AND PROT_WRITE \<noteq> 0 then VMM_FLAG_RW else 0) OR
     (if prot AND PROT_EXEC = 0 then VMM_FLAG_NX else 0)"

definition record_mmap :: "nat \<Rightarrow> u32 \<Rightarrow> u32 \<Rightarrow> int \<Rightarrow> uvm \<Rightarrow> uvm" where
  "record_mmap sl base len shmid u = u\<lparr>proc := (proc u)\<lparr>mmaps := (mmaps (proc u))[sl := (base, len, shmid)]\<rparr>\<rparr>"

definition syscall_mmap_impl :: "(int \<Rightarrow> fd_mmap) \<Rightarrow> u32 \<Rightarrow> u32 \<Rightarrow> u32 \<Rightarrow> u32 \<Rightarrow> int \<Rightarrow> u32 \<Rightarrow> uvm \<Rightarrow> (uvm \<times> u32) option" where
  "syscall_mmap_impl fds addr len prot flags fd offset u =
     (let anon = flags AND MAP_ANONYMOUS \<noteq> 0;
          aligned_len = round_page len
      in if len = 0 then Some (u, errno EINVAL)
         else if \<not> anon \<and> (fd < 0 \<or> fds fd = Bad_fd) then Some (u, errno EBADF)
         else if \<not> anon \<and> fds fd = No_mmap then Some (u, errno ENOSYS)
         else do {
           b \<leftarrow> mmap_base addr aligned_len flags (vm u);
           (case b of
              Inl e \<Rightarrow> Some (u, e)
            | Inr base \<Rightarrow>
                (case free_mmap_slot (proc u) of
                   None \<Rightarrow> Some (u, errno ENOMEM)
                 | Some sl \<Rightarrow>
                     if anon then do {
                       (s, ok) \<leftarrow> map_zeroed (\<lambda>frame va. vmm_map_page_nolock (ucast frame) (ucast va) (mmap_flags prot))
                                    (pages_from base aligned_len) [] (vm u);
                       Some (if ok then (record_mmap sl base aligned_len (-1) (u\<lparr>vm := s\<rparr>), base)
                             else (u\<lparr>vm := s\<rparr>, errno ENOMEM))
                     }
                     else (case fds fd of
                             Dev_mmap fn_mmap \<Rightarrow> do {
                               (s, result) \<leftarrow> fn_mmap base aligned_len prot offset (vm u);
                               Some (if result = 0 then (u\<lparr>vm := s\<rparr>, errno ENOMEM)
                                     else (record_mmap sl result aligned_len (-1) (u\<lparr>vm := s\<rparr>), result))
                             }
                           | _ \<Rightarrow> Some (u, errno ENOSYS))))
         })"

definition syscall_munmap_impl :: "u32 \<Rightarrow> u32 \<Rightarrow> uvm \<Rightarrow> (uvm \<times> int) option" where
  "syscall_munmap_impl addr len u =
     (let aligned_len = round_page len in
      if addr = 0 \<or> addr AND 0xFFF \<noteq> 0 then Some (u, - EINVAL)
      else if len = 0 then Some (u, - EINVAL)
      else case find (\<lambda>i. fst (mmaps (proc u) ! i) = addr \<and> fst (snd (mmaps (proc u) ! i)) = aligned_len) [0..<32] of
             None \<Rightarrow> Some (u, - EINVAL)
           | Some found \<Rightarrow> do {
               s \<leftarrow> each (if snd (snd (mmaps (proc u) ! found)) = -1 then unmap_free else (\<lambda>va. vmm_unmap_page_nolock (ucast va)))
                      (pages_from addr aligned_len) (vm u);
               Some (record_mmap found 0 0 (-1) (u\<lparr>vm := s\<rparr>), 0)
             })"

definition syscall_brk_impl :: "u32 \<Rightarrow> uvm \<Rightarrow> (uvm \<times> u32) option" where
  "syscall_brk_impl addr u =
     (let brk = heap_break (proc u) in
      if addr = 0 then Some (u, brk)
      else if addr < heap_start (proc u) \<or> 0x40000000 \<le> addr \<or> KERN_BASE \<le> addr then Some (u, brk)
      else
        let new_brk = round_page addr;
            old_brk_page = round_page brk
        in do {
          (s, ok) \<leftarrow>
            (if old_brk_page < new_brk
             then map_zeroed (\<lambda>frame va. vmm_as_map_page_nolock (addr_space (proc u)) (ucast frame) (ucast va)
                    (VMM_FLAG_PRESENT OR VMM_FLAG_RW OR VMM_FLAG_USER OR VMM_FLAG_NX))
                    (pages_from old_brk_page (new_brk - old_brk_page)) [] (vm u)
             else map_option (\<lambda>s. (s, True)) (each unmap_free (pages_from new_brk (old_brk_page - new_brk)) (vm u)));
          Some (if ok then (u\<lparr>vm := s, proc := (proc u)\<lparr>heap_break := addr\<rparr>\<rparr>, addr) else (u\<lparr>vm := s\<rparr>, brk))
        })"

section \<open>Shared memory segments\<close>

abbreviation SHM_MAX_SEGMENTS :: nat where "SHM_MAX_SEGMENTS \<equiv> 32"
abbreviation SHM_MAX_PAGES :: nat where "SHM_MAX_PAGES \<equiv> 16"
abbreviation IPC_CREAT :: u32 where "IPC_CREAT \<equiv> 0x200"
abbreviation IPC_EXCL :: u32 where "IPC_EXCL \<equiv> 0x400"
abbreviation SHM_RDONLY :: u32 where "SHM_RDONLY \<equiv> 0x1000"
abbreviation (input) IPC_PRIVATE :: u32 where "IPC_PRIVATE \<equiv> 0"

text \<open>The list of pages has \<open>npages\<close> elements; the rest of the array is not used.\<close>

record shm_segment =
  seg_used :: bool
  seg_key :: u32
  seg_size :: u32
  seg_pages :: "u32 list"
  nattch :: u32
  marked_rm :: bool
  seg_uid :: u32
  seg_gid :: u32
  seg_mode :: u32

definition zero_segment :: shm_segment where
  "zero_segment = \<lparr>seg_used = False, seg_key = 0, seg_size = 0, seg_pages = [], nattch = 0, marked_rm = False,
     seg_uid = 0, seg_gid = 0, seg_mode = 0\<rparr>"

definition shm_init :: "shm_segment list" where
  "shm_init = replicate SHM_MAX_SEGMENTS zero_segment"

definition shm_destroy :: "nat \<Rightarrow> shm_segment list \<times> pmm \<Rightarrow> shm_segment list \<times> pmm" where
  "shm_destroy i = (\<lambda>(segs, fr).
     (segs[i := zero_segment], free_pages pmm_free_page (filter (\<lambda>p. p \<noteq> 0) (seg_pages (segs ! i))) fr))"

definition shm_perm_check :: "shm_segment \<Rightarrow> u32 \<Rightarrow> process \<Rightarrow> bool" where
  "shm_perm_check sg perm p =
     (if euid p = 0 then True
      else if uid p = seg_uid sg \<or> euid p = seg_uid sg then seg_mode sg AND push_bit 6 perm \<noteq> 0
      else if gid p = seg_gid sg \<or> egid p = seg_gid sg then seg_mode sg AND push_bit 3 perm \<noteq> 0
      else seg_mode sg AND perm \<noteq> 0)"

definition shm_create :: "u32 \<Rightarrow> u32 \<Rightarrow> u32 \<Rightarrow> nat \<Rightarrow> process \<Rightarrow> shm_segment list \<times> pmm \<Rightarrow> (shm_segment list \<times> pmm) \<times> int" where
  "shm_create key sz npages sl p = (\<lambda>(segs, fr).
     let sg = \<lparr>seg_used = True, seg_key = key, seg_size = sz, seg_pages = [], nattch = 0, marked_rm = False,
                seg_uid = uid p, seg_gid = gid p, seg_mode = 0x180\<rparr>
     in case take_pages pmm_alloc_page pmm_free_page (unat npages) [] fr of
          (fr, None) \<Rightarrow> ((segs[sl := sg\<lparr>seg_used := False\<rparr>], fr), - ENOMEM)
        | (fr, Some ps) \<Rightarrow> ((segs[sl := sg\<lparr>seg_pages := ps\<rparr>], fr), int sl))"

definition shm_get :: "u32 \<Rightarrow> u32 \<Rightarrow> u32 \<Rightarrow> process \<Rightarrow> shm_segment list \<times> pmm \<Rightarrow> (shm_segment list \<times> pmm) \<times> int" where
  "shm_get key sz flags p = (\<lambda>(segs, fr).
     let npages = (sz + 0xFFF) div 0x1000;
         known = (if key = IPC_PRIVATE then None
                  else find (\<lambda>i. seg_used (segs ! i) \<and> seg_key (segs ! i) = key \<and> \<not> marked_rm (segs ! i)) [0..<SHM_MAX_SEGMENTS])
     in if sz = 0 then ((segs, fr), - EINVAL)
        else if of_nat SHM_MAX_PAGES < npages then ((segs, fr), - EINVAL)
        else case known of
          Some i \<Rightarrow> if flags AND IPC_CREAT \<noteq> 0 \<and> flags AND IPC_EXCL \<noteq> 0 then ((segs, fr), - EEXIST) else ((segs, fr), int i)
        | None \<Rightarrow>
            if key \<noteq> IPC_PRIVATE \<and> flags AND IPC_CREAT = 0 then ((segs, fr), - ENOENT)
            else case find (\<lambda>i. \<not> seg_used (segs ! i)) [0..<SHM_MAX_SEGMENTS] of
              None \<Rightarrow> ((segs, fr), - ENOSPC)
            | Some sl \<Rightarrow> shm_create key sz npages sl p (segs, fr))"

text \<open>Attaching and detaching change the page tables of the process too.\<close>

definition shm_vaddr :: "u32 \<Rightarrow> u32 \<Rightarrow> vmm \<Rightarrow> (u32 + u32) option" where
  "shm_vaddr shmaddr map_len s =
     (if shmaddr \<noteq> 0 then
        Some (if shmaddr AND 0xFFF \<noteq> 0 then Inl (errno EINVAL)
              else if KERN_BASE \<le> shmaddr \<or> KERN_BASE < shmaddr + map_len \<or> shmaddr + map_len < shmaddr then Inl (errno EINVAL)
              else Inr shmaddr)
      else do {
        vaddr \<leftarrow> vmm_find_free_area 0x40000000 0x7FF00000 map_len s;
        Some (if vaddr = 0 then Inl (errno ENOMEM) else Inr vaddr)
      })"

definition shm_map :: "u32 \<Rightarrow> u32 \<Rightarrow> u32 list \<Rightarrow> vmm \<Rightarrow> vmm option" where
  "shm_map flags vaddr pages s =
     each (\<lambda>k. vmm_map_page_nolock (ucast (pages ! k)) (ucast (vaddr + of_nat (0x1000 * k))) flags) [0..<length pages] s"

definition shm_at :: "int \<Rightarrow> u32 \<Rightarrow> u32 \<Rightarrow> shm_segment list \<times> uvm \<Rightarrow> ((shm_segment list \<times> uvm) \<times> u32) option" where
  "shm_at shmid shmaddr shmflg = (\<lambda>(segs, u).
     let i = nat shmid; sg = segs ! i in
     if shmid < 0 \<or> int SHM_MAX_SEGMENTS \<le> shmid then Some ((segs, u), errno EINVAL)
     else if \<not> seg_used sg then Some ((segs, u), errno EINVAL)
     else if marked_rm sg then Some ((segs, u), errno EIDRM)
     else if \<not> shm_perm_check sg 4 (proc u) then Some ((segs, u), errno EACCES)
     else if shmflg AND SHM_RDONLY = 0 \<and> \<not> shm_perm_check sg 2 (proc u) then Some ((segs, u), errno EACCES)
     else case free_mmap_slot (proc u) of
       None \<Rightarrow> Some ((segs, u), errno ENOMEM)
     | Some mslot \<Rightarrow>
         let map_len = of_nat (length (seg_pages sg) * 0x1000) in do {
           v \<leftarrow> shm_vaddr shmaddr map_len (vm u);
           (case v of
              Inl e \<Rightarrow> Some ((segs, u), e)
            | Inr vaddr \<Rightarrow> do {
                s \<leftarrow> shm_map (VMM_FLAG_PRESENT OR VMM_FLAG_USER OR VMM_FLAG_NX OR (if shmflg AND SHM_RDONLY = 0 then VMM_FLAG_RW else 0))
                       vaddr (seg_pages sg) (vm u);
                Some ((segs[i := sg\<lparr>nattch := nattch sg + 1\<rparr>], record_mmap mslot vaddr map_len shmid (u\<lparr>vm := s\<rparr>)), vaddr)
              })
         })"

definition shm_dt :: "u32 \<Rightarrow> shm_segment list \<times> uvm \<Rightarrow> ((shm_segment list \<times> uvm) \<times> int) option" where
  "shm_dt addr = (\<lambda>(segs, u).
     case find (\<lambda>i. fst (mmaps (proc u) ! i) = addr \<and> 0 < fst (snd (mmaps (proc u) ! i))) [0..<32] of
       None \<Rightarrow> Some ((segs, u), - EINVAL)
     | Some mslot \<Rightarrow>
         let (_, len, shmid) = mmaps (proc u) ! mslot; i = nat shmid in do {
           s \<leftarrow> each (\<lambda>va. vmm_unmap_page_nolock (ucast va)) (pages_from addr len) (vm u);
           (let u = record_mmap mslot 0 0 (-1) (u\<lparr>vm := s\<rparr>) in
            if 0 \<le> shmid \<and> shmid < int SHM_MAX_SEGMENTS \<and> seg_used (segs ! i) then
              let segs = (if 0 < nattch (segs ! i) then segs[i := (segs ! i)\<lparr>nattch := nattch (segs ! i) - 1\<rparr>] else segs) in
              if nattch (segs ! i) = 0 \<and> marked_rm (segs ! i) then
                let (segs, fr) = shm_destroy i (segs, page_frames s)
                in Some ((segs, u\<lparr>vm := s\<lparr>page_frames := fr\<rparr>\<rparr>), 0)
              else Some ((segs, u), 0)
            else Some ((segs, u), 0))
         })"

text \<open>
  \<^verbatim>\<open>IPC_RMID\<close> is 0, \<^verbatim>\<open>IPC_STAT\<close> 1 and \<^verbatim>\<open>IPC_SET\<close> 2. The copies to and from the caller's buffer are arguments: whether the
  copy out succeeds, and the mode the copy in yields.
\<close>

definition shm_ctl :: "int \<Rightarrow> int \<Rightarrow> bool \<Rightarrow> bool \<Rightarrow> u32 option \<Rightarrow> process \<Rightarrow> shm_segment list \<times> pmm \<Rightarrow> (shm_segment list \<times> pmm) \<times> int" where
  "shm_ctl shmid cmd buf copy_out copy_in p = (\<lambda>(segs, fr).
     let i = nat shmid; sg = segs ! i in
     if shmid < 0 \<or> int SHM_MAX_SEGMENTS \<le> shmid then ((segs, fr), - EINVAL)
     else if \<not> seg_used sg then ((segs, fr), - EINVAL)
     else if cmd = 1 then
       if \<not> shm_perm_check sg 4 p then ((segs, fr), - EACCES)
       else if buf \<and> \<not> copy_out then ((segs, fr), - EFAULT) else ((segs, fr), 0)
     else if cmd = 0 then
       if seg_uid sg \<noteq> uid p \<and> euid p \<noteq> 0 then ((segs, fr), - EPERM)
       else if nattch sg = 0 then (shm_destroy i (segs, fr), 0)
       else ((segs[i := sg\<lparr>marked_rm := True\<rparr>], fr), 0)
     else if cmd = 2 then
       if seg_uid sg \<noteq> uid p \<and> euid p \<noteq> 0 then ((segs, fr), - EPERM)
       else if buf then
         case copy_in of None \<Rightarrow> ((segs, fr), - EFAULT)
         | Some mode \<Rightarrow> ((segs[i := sg\<lparr>seg_mode := mode AND 0x1FF\<rparr>], fr), 0)
       else ((segs, fr), 0)
     else ((segs, fr), - EINVAL))"

section \<open>One page\<close>

text \<open>A page whose table exists and belongs to it alone: mapping it allocates nothing and touches no other page.\<close>

definition ready :: "vmm \<Rightarrow> u32 \<Rightarrow> bool" where
  "ready s va \<longleftrightarrow>
     va AND 0xFFF = 0 \<and> ordinary va \<and>
     (case page_of va of (i, d, t) \<Rightarrow> present (pde_at s (cr3 s) i d) \<and> unaliased s (cr3 s) i d)"

lemma as_ok_release:
  assumes ok: "as_ok s as" and fr: "pmm_ready fr" "pmm_avail fr \<subseteq> insert p (pmm_avail (page_frames s))" and p: "ucast p \<notin> tables s as"
  shows "as_ok (s\<lparr>page_frames := fr\<rparr>) as"
proof -
  have b: "page_busy (s\<lparr>page_frames := fr\<rparr>) f" if "page_busy s f" "f \<noteq> ucast p" for f using that fr(2) by (auto simp: page_busy_def)
  have bt: "page_busy (s\<lparr>page_frames := fr\<rparr>) f" if "f \<in> tables s as" for f
    using that p by (intro b tables_busy [OF as_okD(1) [OF ok]]) auto
  then have "table_wf (s\<lparr>page_frames := fr\<rparr>) as i d" if "slot i d" "present (pde_at s as i d)" for i d
    using as_wfD(8) [OF as_okD(1) [OF ok] that] tables_pt [OF that] by (simp add: table_wf_def)
  moreover have "page_busy (s\<lparr>page_frames := fr\<rparr>) f" if "f \<in> dirs s as" for f
    using bt that by (simp add: tables_def)
  ultimately show ?thesis
    using ok fr(1) unfolding as_ok_def as_wf_def by (simp add: user_ok_def inj_on_def image_def)
qed

lemma fill_page_spec:
  assumes ok: "as_ok s (cr3 s)" and va: "va AND 0xFFF = 0" "ordinary va"
    and tr: "translate s (cr3 s) va = Some (g, rw, us)" and g: "g \<notin> tables s (cr3 s)"
  shows "fill_page va w s = Some (fill g 512 w s)"
  unfolding fill_page_def
proof (rule each_fill)
  fix i :: nat
  assume i: "i < 512"
  have "mmu (va + of_nat (8 * i)) (fill g i w s) = Some (g, i)"
    using mmu_page [OF va(1) i, of "fill g i w s"] tr by (simp add: fill_data_translate [OF ok g] va)
  then show "mem_write (va + of_nat (8 * i)) (w i) (fill g i w s) = Some (poke (g, i) (w i) (fill g i w s))"
    by (rule mem_write_poke)
qed

lemma set_entry_ready:
  assumes "set_entry s i d t e s'" "ready s w"
  shows "ready s' w"
  using assms unfolding ready_def set_entry_def ordinary_def by (auto simp: page_of_def split: prod.splits)

lemma set_entry_tables:
  assumes "set_entry s i d t e s'" "page_busy s g" "g \<notin> tables s (cr3 s)"
  shows "g \<notin> tables s' (cr3 s)" "pmem s' (g, k) = pmem s (g, k)"
  using assms unfolding set_entry_def by auto

lemma ordinary_slot: "ordinary w \<Longrightarrow> page_of w = (i, d, t) \<Longrightarrow> slot i d \<and> t < 512"
  by (auto simp: ordinary_def page_of_def)

lemma page_rw: "(p :: u32) AND 0xFFF = 0 \<Longrightarrow> (ucast p :: u64) AND X86_PTE_RW = 0"
  by (subst page_mask) (simp_all add: and.assoc)

lemma map_frame:
  assumes ok: "as_ok s (cr3 s)" and va: "ready s va" and p: "(p :: u32) AND 0xFFF = 0" and fl: "flags AND VMM_FLAG_PRESENT \<noteq> 0"
  obtains s1 where "vmm_map_page_nolock (ucast p) (ucast va) flags s = Some s1" "as_ok s1 (cr3 s)" "cr3 s1 = cr3 s"
    "page_frames s1 = page_frames s"
    "\<And>w. ordinary w \<Longrightarrow> translate s1 (cr3 s) w =
       (if page_of w = page_of va then Some (ucast p, flags AND VMM_FLAG_RW \<noteq> 0, flags AND VMM_FLAG_USER \<noteq> 0) else translate s (cr3 s) w)"
    "\<And>g k. page_busy s g \<Longrightarrow> g \<notin> tables s (cr3 s) \<Longrightarrow> g \<notin> tables s1 (cr3 s) \<and> pmem s1 (g, k) = pmem s (g, k)"
    "\<And>w. ready s w \<Longrightarrow> ready s1 w"
proof -
  obtain i d t where pg: "page_of va = (i, d, t)" by (cases "page_of va")
  have r: "ordinary va" "present (pde_at s (cr3 s) i d)" "unaliased s (cr3 s) i d" using va pg by (auto simp: ready_def)
  have sl: "slot i d" "t < 512" using ordinary_slot [OF r(1) pg] by auto
  have ix: "pae_pdpt_index (ucast va) = i" "pae_pd_index (ucast va) = d" "pae_pt_index (ucast va) = t" using pg by (auto simp: page_of_def)
  obtain s1 where s1: "vmm_map_page_nolock (ucast p) (ucast va) flags s = Some s1"
    "set_entry s i d t ((ucast p AND 0xFFFFF000) OR vmm_flags_to_x86 flags s) s1" "page_frames s1 = page_frames s"
    by (rule map_page_spec [OF ok ix sl(1), of "ucast p" flags]) (use r(2,3) in auto)
  have pe: "perms ((ucast p AND 0xFFFFF000) OR vmm_flags_to_x86 flags s) = Some (ucast p, flags AND VMM_FLAG_RW \<noteq> 0, flags AND VMM_FLAG_USER \<noteq> 0)"
    unfolding page_mask [OF p, symmetric] using ucast_page [OF p] fl
    by (simp add: perms_def and_or_distrib flags_bits page_rw [OF p]) (simp add: frame_of_def)
  show thesis
  proof (rule that [OF s1(1)])
    show "as_ok s1 (cr3 s)" "cr3 s1 = cr3 s" using s1(2) by (auto simp: set_entry_def)
    show "translate s1 (cr3 s) w = (if page_of w = page_of va then Some (ucast p, flags AND VMM_FLAG_RW \<noteq> 0, flags AND VMM_FLAG_USER \<noteq> 0)
        else translate s (cr3 s) w)" if "ordinary w" for w
    proof -
      obtain j k u where w: "page_of w = (j, k, u)" by (cases "page_of w")
      show ?thesis using set_entry_translate [OF ok s1(2) w] ordinary_slot [OF that w] pe pg by simp
    qed
  qed (use s1(3) set_entry_tables [OF s1(2)] set_entry_ready [OF s1(2)] in auto)
qed

lemma map_one:
  assumes ok: "as_ok s (cr3 s)" and va: "ready s va" and al: "pmm_alloc_page (page_frames s) = (fr, p)" "p \<noteq> 0"
    and fl: "flags AND VMM_FLAG_PRESENT \<noteq> 0"
  obtains s1 s2 where "vmm_map_page_nolock (ucast p) (ucast va) flags (s\<lparr>page_frames := fr\<rparr>) = Some s1" "fill_page va (\<lambda>_. 0) s1 = Some s2"
    "as_ok s2 (cr3 s)" "cr3 s2 = cr3 s" "page_frames s2 = fr"
    "translate s2 (cr3 s) va = Some (ucast p, flags AND VMM_FLAG_RW \<noteq> 0, flags AND VMM_FLAG_USER \<noteq> 0)"
    "\<And>w. ordinary w \<Longrightarrow> page_of w \<noteq> page_of va \<Longrightarrow> translate s2 (cr3 s) w = translate s (cr3 s) w"
    "\<And>k. k < 512 \<Longrightarrow> pmem s2 (ucast p, k) = 0" "ucast p \<notin> tables s2 (cr3 s)"
    "\<And>g k. page_busy s g \<Longrightarrow> g \<notin> tables s (cr3 s) \<Longrightarrow> g \<notin> tables s2 (cr3 s) \<and> pmem s2 (g, k) = pmem s (g, k)"
    "\<And>w. ready s w \<Longrightarrow> ready s2 w"
proof -
  have r: "va AND 0xFFF = 0" "ordinary va" using va by (auto simp: ready_def)
  note rdy = as_wfD(1) [OF as_okD(1) [OF ok]]
  have av: "p \<in> pmm_avail (page_frames s)" "pmm_avail fr = pmm_avail (page_frames s) - {p}" "p AND 0xFFF = 0"
    using pmm_shared.al_avail [OF rdy al] pmm_shared.avail_page [OF rdy] by auto
  let ?s0 = "s\<lparr>page_frames := fr\<rparr>"
  have ok0: "as_ok ?s0 (cr3 ?s0)" using as_ok_frames [OF ok pmm_frames.al_inv [OF rdy al(1)]] av(2) by auto
  have pb: "page_busy ?s0 (ucast p)" using av(2) by (auto simp: page_busy_def inj_ucast_page image_iff)
  have b0: "page_busy ?s0 g" if "page_busy s g" for g using that av(2) by (auto simp: page_busy_def)
  have npb: "\<not> page_busy s (ucast p)" using av(1) by (simp add: page_busy_def)
  then have pt: "ucast p \<notin> tables s (cr3 s)" using tables_busy [OF as_okD(1) [OF ok]] by blast
  have va0: "ready ?s0 va" using va by (simp add: ready_def)
  obtain s1 where m: "vmm_map_page_nolock (ucast p) (ucast va) flags ?s0 = Some s1" "as_ok s1 (cr3 ?s0)" "cr3 s1 = cr3 ?s0"
    "page_frames s1 = page_frames ?s0"
    "\<And>w. ordinary w \<Longrightarrow> translate s1 (cr3 ?s0) w =
       (if page_of w = page_of va then Some (ucast p, flags AND VMM_FLAG_RW \<noteq> 0, flags AND VMM_FLAG_USER \<noteq> 0) else translate ?s0 (cr3 ?s0) w)"
    "\<And>g k. page_busy ?s0 g \<Longrightarrow> g \<notin> tables ?s0 (cr3 ?s0) \<Longrightarrow> g \<notin> tables s1 (cr3 ?s0) \<and> pmem s1 (g, k) = pmem ?s0 (g, k)"
    "\<And>w. ready ?s0 w \<Longrightarrow> ready s1 w"
    by (rule map_frame [OF ok0 va0 av(3) fl], rule that)
  have s1: "vmm_map_page_nolock (ucast p) (ucast va) flags ?s0 = Some s1" "page_frames s1 = fr"
    and c1: "as_ok s1 (cr3 s1)" "cr3 s1 = cr3 s" using m(1-4) by simp_all
  have tr1: "translate s1 (cr3 s) w = (if page_of w = page_of va then Some (ucast p, flags AND VMM_FLAG_RW \<noteq> 0, flags AND VMM_FLAG_USER \<noteq> 0)
      else translate s (cr3 s) w)" if "ordinary w" for w
    using m(5) [OF that] by (simp split: if_splits)
  have b1: "g \<notin> tables s1 (cr3 s) \<and> pmem s1 (g, k) = pmem s (g, k)" if "page_busy ?s0 g" "g \<notin> tables s (cr3 s)" for g k
    using m(6) [OF that(1)] that(2) by simp
  have r1: "ready s1 w" if "ready s w" for w using m(7) that by (simp add: ready_def)
  have pt1: "ucast p \<notin> tables s1 (cr3 s)" using b1 [OF pb pt] by simp
  define s2 where "s2 = fill (ucast p) 512 (\<lambda>_. 0) s1"
  have f: "fill_page va (\<lambda>_. 0) s1 = Some s2"
    unfolding s2_def using tr1 [OF r(2)] pt1 c1(2) by (intro fill_page_spec [OF c1(1) r(1,2)]) simp_all
  note fd = fill_data [OF c1(1), where f = "ucast p" and n = 512 and w = "\<lambda>_. 0", folded s2_def, unfolded c1(2), OF pt1]
  show thesis
  proof (rule that [OF s1(1) f])
    show "as_ok s2 (cr3 s)" by (rule fd(1))
    show c2: "cr3 s2 = cr3 s" "page_frames s2 = fr" by (simp_all add: s2_def c1 s1(2))
    have tr2: "translate s2 (cr3 s) w = translate s1 (cr3 s) w" if "ordinary w" for w
      using fill_data_translate [OF c1(1) _ that, of "ucast p" 512 "\<lambda>_. 0"] pt1 by (simp add: s2_def c1(2))
    show "translate s2 (cr3 s) va = Some (ucast p, flags AND VMM_FLAG_RW \<noteq> 0, flags AND VMM_FLAG_USER \<noteq> 0)"
      "\<And>w. ordinary w \<Longrightarrow> page_of w \<noteq> page_of va \<Longrightarrow> translate s2 (cr3 s) w = translate s (cr3 s) w"
      using tr2 tr1 r(2) by simp_all
    show "\<And>k. k < 512 \<Longrightarrow> pmem s2 (ucast p, k) = 0" by (simp add: s2_def)
    show "ucast p \<notin> tables s2 (cr3 s)" using pt1 fd(4) by simp
    show "g \<notin> tables s2 (cr3 s) \<and> pmem s2 (g, k) = pmem s (g, k)" if "page_busy s g" "g \<notin> tables s (cr3 s)" for g k
      using b1 [OF b0 [OF that(1)] that(2)] that fd(4) npb by (auto simp: s2_def)
    show "ready s2 w" if "ready s w" for w
      using r1 [OF that] fd(2,5) c2 c1(2) ordinary_slot [of w] by (auto simp: ready_def split: prod.splits)
  qed
qed

lemma phys_of_entry: "(ucast (e AND NOT 0xFFF) :: u32) = ucast (frame_of e)"
proof (rule bit_word_eqI)
  fix n
  assume n: "n < LENGTH(32)"
  have m: "(0xFFF :: u64) = mask 12" "(0x000FFFFFFFFFF000 :: u64) = push_bit 12 (mask 40)" by (simp_all add: mask_eq_exp_minus_1)
  show "bit (ucast (e AND NOT 0xFFF) :: u32) n = bit (ucast (frame_of e) :: u32) n"
    unfolding frame_of_def m using n
    by (auto simp: bit_ucast_iff bit_and_iff bit_not_iff bit_push_bit_iff bit_mask_iff possible_bit_def)
qed

lemma unmap_one:
  assumes ok: "as_ok s (cr3 s)" and va: "ready s va" and tr: "translate s (cr3 s) va = Some (ucast p, rw, us)"
    and p: "ucast p \<notin> tables s (cr3 s)" "0 < pmm_refs (page_frames s) p"
  obtains s1 where "unmap_free va s = Some s1" "as_ok s1 (cr3 s)" "cr3 s1 = cr3 s" "page_frames s1 = pmm_free_page p (page_frames s)"
    "translate s1 (cr3 s) va = None"
    "\<And>w. ordinary w \<Longrightarrow> page_of w \<noteq> page_of va \<Longrightarrow> translate s1 (cr3 s) w = translate s (cr3 s) w"
    "\<And>g k. page_busy s g \<Longrightarrow> g \<notin> tables s (cr3 s) \<Longrightarrow> g \<notin> tables s1 (cr3 s) \<and> pmem s1 (g, k) = pmem s (g, k)"
    "\<And>w. ready s w \<Longrightarrow> ready s1 w"
proof -
  obtain i d t where pg: "page_of va = (i, d, t)" by (cases "page_of va")
  have r: "va AND 0xFFF = 0" "ordinary va" "present (pde_at s (cr3 s) i d)" "unaliased s (cr3 s) i d" using va pg by (auto simp: ready_def)
  have sl: "slot i d" "t < 512" using ordinary_slot [OF r(2) pg] by auto
  have ix: "pae_pdpt_index (ucast va) = i" "pae_pd_index (ucast va) = d" "pae_pt_index (ucast va) = t" using pg by (auto simp: page_of_def)
  note rdy = as_wfD(1) [OF as_okD(1) [OF ok]]
  have e: "present (entry s (cr3 s) i d t)" "frame_of (entry s (cr3 s) i d t) = ucast p"
    using translate_entry [OF ok pg sl(1)] tr by (auto simp: perms_def split: if_splits)
  have v2p: "vmm_virt_to_phys (ucast va) s = Some p"
    using virt_to_phys_spec [OF ok pg sl(1)] e phys_of_entry [of "entry s (cr3 s) i d t"] by (simp add: ucast_back)
  obtain s0 where s0: "vmm_unmap_page_nolock (ucast va) s = Some s0" "page_frames s0 = page_frames s" "set_entry s i d t 0 s0"
    using unmap_page_spec [OF ok ix sl(1) r(4)] by auto
  have p0: "p \<noteq> 0" using p(2) pmm_frames.refs_null [OF rdy] by auto
  have c0: "as_ok s0 (cr3 s)" "cr3 s0 = cr3 s" using s0(3) by (auto simp: set_entry_def)
  define s1 where "s1 = s0\<lparr>page_frames := pmm_free_page p (page_frames s)\<rparr>"
  have av: "pmm_avail (pmm_free_page p (page_frames s)) \<subseteq> insert p (pmm_avail (page_frames s0))"
    using pmm_shared.fr_avail [OF rdy p(2)] s0(2) by auto
  have pt0: "ucast p \<notin> tables s0 (cr3 s)" by (rule set_entry_tables(1) [OF s0(3) refs_busy [OF ok p(2)] p(1)])
  show thesis
  proof (rule that)
    show "unmap_free va s = Some s1" using p0 by (simp add: unmap_free_def v2p s0 s1_def)
    show "as_ok s1 (cr3 s)" unfolding s1_def by (rule as_ok_release [OF c0(1) pmm_frames.fr_inv [OF rdy] av pt0])
    show "cr3 s1 = cr3 s" "page_frames s1 = pmm_free_page p (page_frames s)" by (simp_all add: s1_def c0)
    have tr1: "translate s1 (cr3 s) w = (if page_of w = page_of va then None else translate s (cr3 s) w)" if "ordinary w" for w
    proof -
      obtain j k u where w: "page_of w = (j, k, u)" by (cases "page_of w")
      show ?thesis using set_entry_translate [OF ok s0(3) w] ordinary_slot [OF that w] pg by (simp add: s1_def perms_def)
    qed
    show "translate s1 (cr3 s) va = None" using tr1 [OF r(2)] by simp
    show "\<And>w. ordinary w \<Longrightarrow> page_of w \<noteq> page_of va \<Longrightarrow> translate s1 (cr3 s) w = translate s (cr3 s) w" using tr1 by simp
    show "g \<notin> tables s1 (cr3 s) \<and> pmem s1 (g, k) = pmem s (g, k)" if "page_busy s g" "g \<notin> tables s (cr3 s)" for g k
      using set_entry_tables [OF s0(3) that] by (simp add: s1_def)
    show "ready s1 w" if "ready s w" for w
      using set_entry_ready [OF s0(3) that] by (simp add: ready_def s1_def)
  qed
qed

section \<open>Many pages\<close>

text \<open>The pages \<open>vas\<close> are mapped, each to a frame of its own that has no other owner.\<close>

definition holds :: "vmm \<Rightarrow> bool \<times> bool \<Rightarrow> u32 list \<Rightarrow> u32 list \<Rightarrow> bool" where
  "holds s pm vas ps \<longleftrightarrow>
     length ps = length vas \<and> distinct (map page_of vas) \<and> distinct ps \<and> (\<forall>va \<in> set vas. ready s va) \<and>
     (\<forall>k < length vas. translate s (cr3 s) (vas ! k) = Some (ucast (ps ! k), pm)) \<and>
     (\<forall>p \<in> set ps. ucast p \<notin> tables s (cr3 s) \<and> pmm_refs (page_frames s) p = 1)"

lemma unmap_all:
  assumes "as_ok s (cr3 s)" "holds s pm vas ps"
  shows "\<exists>s'. each unmap_free vas s = Some s' \<and> as_ok s' (cr3 s) \<and> cr3 s' = cr3 s \<and>
    (\<forall>w. ordinary w \<longrightarrow> translate s' (cr3 s) w = (if page_of w \<in> page_of ` set vas then None else translate s (cr3 s) w)) \<and>
    pmm_refs (page_frames s') = (\<lambda>q. if q \<in> set ps then 0 else pmm_refs (page_frames s) q) \<and>
    (\<forall>g k. page_busy s g \<and> g \<notin> tables s (cr3 s) \<and> g \<notin> ucast ` set ps \<longrightarrow> pmem s' (g, k) = pmem s (g, k))"
  using assms
proof (induction vas arbitrary: s ps)
  case Nil
  then show ?case by (auto simp: holds_def)
next
  case (Cons va vas)
  note ok = Cons.prems(1)
  obtain p ps' where ps: "ps = p # ps'" using Cons.prems(2) by (cases ps) (auto simp: holds_def)
  have va: "ready s va" "translate s (cr3 s) va = Some (ucast p, fst pm, snd pm)" "ucast p \<notin> tables s (cr3 s)" "pmm_refs (page_frames s) p = 1"
    "page_of va \<notin> page_of ` set vas" "p \<notin> set ps'" and d: "distinct (map page_of vas)" "distinct ps'" "length ps' = length vas"
    using Cons.prems(2) by (auto simp: holds_def ps)
  have rs: "ready s v" if "v \<in> set vas" for v using that Cons.prems(2) by (auto simp: holds_def)
  have ts: "translate s (cr3 s) (vas ! k) = Some (ucast (ps' ! k), pm)" if "k < length vas" for k
    using Cons.prems(2) that by (auto simp: holds_def ps dest!: spec [of _ "Suc k"])
  have fs: "ucast q \<notin> tables s (cr3 s)" "pmm_refs (page_frames s) q = 1" if "q \<in> set ps'" for q
    using Cons.prems(2) that by (auto simp: holds_def ps)
  have p1: "0 < pmm_refs (page_frames s) p" using va(4) by simp
  obtain s1 where s1: "unmap_free va s = Some s1" "as_ok s1 (cr3 s)" "cr3 s1 = cr3 s" "page_frames s1 = pmm_free_page p (page_frames s)"
    "translate s1 (cr3 s) va = None"
    "\<And>w. ordinary w \<Longrightarrow> page_of w \<noteq> page_of va \<Longrightarrow> translate s1 (cr3 s) w = translate s (cr3 s) w"
    "\<And>g k. page_busy s g \<Longrightarrow> g \<notin> tables s (cr3 s) \<Longrightarrow> g \<notin> tables s1 (cr3 s) \<and> pmem s1 (g, k) = pmem s (g, k)"
    "\<And>w. ready s w \<Longrightarrow> ready s1 w"
    by (rule unmap_one [OF ok va(1-3) p1], rule that)
  note rdy = as_wfD(1) [OF as_okD(1) [OF ok]]
  have r1: "pmm_refs (page_frames s1) = (pmm_refs (page_frames s))(p := 0)"
    using pmm_frames.fr_ref [OF rdy p1] va(4) by (simp add: s1(4))
  have b1: "page_busy s1 g" if "page_busy s g" "g \<noteq> ucast p" for g
    using that pmm_shared.fr_avail [OF rdy p1] va(4) by (auto simp: page_busy_def s1(4))
  have "holds s1 pm vas ps'"
    unfolding holds_def
  proof (intro conjI ballI allI impI)
    fix k assume k: "k < length vas"
    then have "vas ! k \<in> set vas" by simp
    then have "ordinary (vas ! k)" "page_of (vas ! k) \<noteq> page_of va" using rs va(5) by (auto simp: ready_def image_def)
    then show "translate s1 (cr3 s1) (vas ! k) = Some (ucast (ps' ! k), pm)" using s1(3,6) ts [OF k] by simp
  next
    fix q assume q: "q \<in> set ps'"
    then have "page_busy s (ucast q)" using refs_busy [OF ok] fs(2) by simp
    then show "ucast q \<notin> tables s1 (cr3 s1)" using s1(3,7) fs(1) q by simp
    show "pmm_refs (page_frames s1) q = 1" using q fs(2) va(6) by (auto simp: r1)
  qed (use d rs s1(8) in auto)
  from Cons.IH [OF _ this] s1(2,3) obtain s' where s': "each unmap_free vas s1 = Some s'" "as_ok s' (cr3 s)" "cr3 s' = cr3 s"
    "\<And>w. ordinary w \<Longrightarrow> translate s' (cr3 s) w = (if page_of w \<in> page_of ` set vas then None else translate s1 (cr3 s) w)"
    "pmm_refs (page_frames s') = (\<lambda>q. if q \<in> set ps' then 0 else pmm_refs (page_frames s1) q)"
    "\<And>g k. page_busy s1 g \<and> g \<notin> tables s1 (cr3 s) \<and> g \<notin> ucast ` set ps' \<Longrightarrow> pmem s' (g, k) = pmem s1 (g, k)" by auto
  have "translate s' (cr3 s) w = (if page_of w \<in> page_of ` set (va # vas) then None else translate s (cr3 s) w)" if "ordinary w" for w
  proof (cases "page_of w = page_of va")
    case True
    have "translate s1 (cr3 s) w = translate s1 (cr3 s) va" using True by (simp add: translate_def page_of_def)
    then show ?thesis using s'(4) [OF that] s1(5) True by simp
  qed (use s'(4) [OF that] s1(6) [OF that] in auto)
  moreover have "pmm_refs (page_frames s') = (\<lambda>q. if q \<in> set ps then 0 else pmm_refs (page_frames s) q)"
    by (auto simp: s'(5) r1 ps)
  moreover have "pmem s' (g, k) = pmem s (g, k)" if "page_busy s g" "g \<notin> tables s (cr3 s)" "g \<notin> ucast ` set ps" for g k
    using s'(6) [of g k] b1 [OF that(1)] s1(7) [OF that(1,2)] that(3) by (auto simp: ps)
  ultimately show ?case using s1(1) s'(1-3) by auto
qed

text \<open>
  What the loop has done when it has mapped \<open>vas\<close>: each page has a frame of its own, taken from the free ones and filled
  with zeros; nothing else is mapped or unmapped, no other frame changes owner, no page that was in use changes.
\<close>

definition mapped_fresh :: "vmm \<Rightarrow> bool \<times> bool \<Rightarrow> u32 list \<Rightarrow> u32 list \<Rightarrow> vmm \<Rightarrow> bool" where
  "mapped_fresh s pm vas ps s' \<longleftrightarrow>
     as_ok s' (cr3 s) \<and> cr3 s' = cr3 s \<and> holds s' pm vas ps \<and>
     set ps \<subseteq> pmm_avail (page_frames s) \<and> pmm_avail (page_frames s') = pmm_avail (page_frames s) - set ps \<and>
     pmm_refs (page_frames s') = (\<lambda>q. if q \<in> set ps then 1 else pmm_refs (page_frames s) q) \<and>
     (\<forall>p \<in> set ps. \<forall>k < 512. pmem s' (ucast p, k) = 0) \<and>
     (\<forall>w. ordinary w \<and> page_of w \<notin> page_of ` set vas \<longrightarrow> translate s' (cr3 s) w = translate s (cr3 s) w) \<and>
     (\<forall>g k. page_busy s g \<and> g \<notin> tables s (cr3 s) \<longrightarrow> g \<notin> tables s' (cr3 s) \<and> pmem s' (g, k) = pmem s (g, k)) \<and>
     (\<forall>w. ready s w \<longrightarrow> ready s' w)"

definition unchanged :: "vmm \<Rightarrow> vmm \<Rightarrow> bool" where
  "unchanged s s' \<longleftrightarrow>
     as_ok s' (cr3 s) \<and> cr3 s' = cr3 s \<and> pmm_refs (page_frames s') = pmm_refs (page_frames s) \<and>
     (\<forall>w. ordinary w \<longrightarrow> translate s' (cr3 s) w = translate s (cr3 s) w) \<and>
     (\<forall>g k. page_busy s g \<and> g \<notin> tables s (cr3 s) \<longrightarrow> pmem s' (g, k) = pmem s (g, k))"

lemma mapped_fresh_step:
  assumes mf: "mapped_fresh s0 pm vas ps s" and va: "ready s va" "page_of va \<notin> page_of ` set vas"
    and al: "pmm_alloc_page (page_frames s) = (fr, p)" "p \<noteq> 0"
    and fl: "flags AND VMM_FLAG_PRESENT \<noteq> 0" "pm = (flags AND VMM_FLAG_RW \<noteq> 0, flags AND VMM_FLAG_USER \<noteq> 0)"
  obtains s1 s2 where "vmm_map_page_nolock (ucast p) (ucast va) flags (s\<lparr>page_frames := fr\<rparr>) = Some s1" "fill_page va (\<lambda>_. 0) s1 = Some s2"
    "mapped_fresh s0 pm (vas @ [va]) (ps @ [p]) s2"
proof -
  have ok: "as_ok s (cr3 s)" and c: "cr3 s = cr3 s0" and h: "holds s pm vas ps" using mf by (auto simp: mapped_fresh_def)
  note rdy = as_wfD(1) [OF as_okD(1) [OF ok]]
  have av: "p \<in> pmm_avail (page_frames s)" "pmm_avail fr = pmm_avail (page_frames s) - {p}" "pmm_refs fr = (pmm_refs (page_frames s))(p := 1)"
    using pmm_shared.al_avail [OF rdy al] pmm_frames.al_page [OF rdy al] by auto
  have np: "p \<notin> set ps" using av(1) mf by (auto simp: mapped_fresh_def)
  obtain s1 s2 where s12: "vmm_map_page_nolock (ucast p) (ucast va) flags (s\<lparr>page_frames := fr\<rparr>) = Some s1" "fill_page va (\<lambda>_. 0) s1 = Some s2"
    "as_ok s2 (cr3 s)" "cr3 s2 = cr3 s" "page_frames s2 = fr"
    "translate s2 (cr3 s) va = Some (ucast p, flags AND VMM_FLAG_RW \<noteq> 0, flags AND VMM_FLAG_USER \<noteq> 0)"
    "\<And>w. ordinary w \<Longrightarrow> page_of w \<noteq> page_of va \<Longrightarrow> translate s2 (cr3 s) w = translate s (cr3 s) w"
    "\<And>k. k < 512 \<Longrightarrow> pmem s2 (ucast p, k) = 0" "ucast p \<notin> tables s2 (cr3 s)"
    "\<And>g k. page_busy s g \<Longrightarrow> g \<notin> tables s (cr3 s) \<Longrightarrow> g \<notin> tables s2 (cr3 s) \<and> pmem s2 (g, k) = pmem s (g, k)"
    "\<And>w. ready s w \<Longrightarrow> ready s2 w"
    by (rule map_one [OF ok va(1) al fl(1)], rule that)
  have qb: "page_busy s (ucast q)" "ucast q \<notin> tables s (cr3 s)" if "q \<in> set ps" for q
    using that h refs_busy [OF ok, of q] by (auto simp: holds_def)
  have tr: "translate s2 (cr3 s) ((vas @ [va]) ! k) = Some (ucast ((ps @ [p]) ! k), pm)" if k: "k < Suc (length vas)" for k
  proof (cases "k < length vas")
    case True
    then have "vas ! k \<in> set vas" by simp
    then have "ordinary (vas ! k)" "page_of (vas ! k) \<noteq> page_of va" using h va(2) by (auto simp: holds_def ready_def image_def)
    then show ?thesis using s12(7) True h by (simp add: holds_def nth_append)
  next
    case False
    then show ?thesis using k h s12(6) fl(2) by (simp add: holds_def nth_append)
  qed
  have h2: "holds s2 pm (vas @ [va]) (ps @ [p])"
    unfolding holds_def
  proof (intro conjI ballI allI impI)
    fix k assume "k < length (vas @ [va])"
    then show "translate s2 (cr3 s2) ((vas @ [va]) ! k) = Some (ucast ((ps @ [p]) ! k), pm)" using tr [of k] s12(4) by simp
  next
    fix q assume "q \<in> set (ps @ [p])"
    then show "ucast q \<notin> tables s2 (cr3 s2)" using s12(4,9,10) qb [of q] by auto
    show "pmm_refs (page_frames s2) q = 1" using \<open>q \<in> set (ps @ [p])\<close> h by (auto simp: s12(5) av(3) holds_def)
  qed (use h va np s12(11) in \<open>auto simp: holds_def\<close>)
  have z: "pmem s2 (ucast q, k) = 0" if "q \<in> set (ps @ [p])" "k < 512" for q k
    using that s12(8,10) qb [of q] mf by (auto simp: mapped_fresh_def)
  have b: "g \<notin> tables s2 (cr3 s0) \<and> pmem s2 (g, k) = pmem s0 (g, k)" if "page_busy s0 g" "g \<notin> tables s0 (cr3 s0)" for g k
  proof -
    have "g \<notin> tables s (cr3 s)" "pmem s (g, k) = pmem s0 (g, k)" using mf that c by (auto simp: mapped_fresh_def)
    moreover have "page_busy s g" using that(1) mf by (auto simp: mapped_fresh_def page_busy_def)
    ultimately show ?thesis using s12(10) c by simp
  qed
  have "mapped_fresh s0 pm (vas @ [va]) (ps @ [p]) s2"
    unfolding mapped_fresh_def
    using s12(3,4,5,7,11) h2 z b mf av c by (auto simp: mapped_fresh_def)
  then show thesis using that s12(1,2) by blast
qed

lemma mapped_fresh_undo:
  assumes mf: "mapped_fresh s0 pm vas ps s" and fr: "pmm_ready fr" "pmm_avail fr = pmm_avail (page_frames s)" "pmm_refs fr = pmm_refs (page_frames s)"
    and un: "\<And>va. va \<in> set vas \<Longrightarrow> translate s0 (cr3 s0) va = None" and ok0: "as_ok s0 (cr3 s0)"
  shows "\<exists>s'. each unmap_free vas (s\<lparr>page_frames := fr\<rparr>) = Some s' \<and> unchanged s0 s'"
proof -
  let ?s = "s\<lparr>page_frames := fr\<rparr>"
  have c: "cr3 s = cr3 s0" and ok: "as_ok ?s (cr3 ?s)" and h: "holds ?s pm vas ps"
    using mf as_ok_frames [of s "cr3 s" fr] fr by (auto simp: mapped_fresh_def holds_def ready_def)
  from unmap_all [OF ok h] obtain s' where s': "each unmap_free vas ?s = Some s'" "as_ok s' (cr3 s0)" "cr3 s' = cr3 s0"
    "\<And>w. ordinary w \<Longrightarrow> translate s' (cr3 s0) w = (if page_of w \<in> page_of ` set vas then None else translate s (cr3 s0) w)"
    "pmm_refs (page_frames s') = (\<lambda>q. if q \<in> set ps then 0 else pmm_refs fr q)"
    "\<And>g k. page_busy ?s g \<and> g \<notin> tables s (cr3 s0) \<and> g \<notin> ucast ` set ps \<Longrightarrow> pmem s' (g, k) = pmem s (g, k)"
    using c by (auto cong: if_cong)
  have "translate s' (cr3 s0) w = translate s0 (cr3 s0) w" if w: "ordinary w" for w
  proof (cases "page_of w \<in> page_of ` set vas")
    case True
    then obtain va where va: "va \<in> set vas" "page_of w = page_of va" by auto
    have "translate s0 (cr3 s0) w = translate s0 (cr3 s0) va" using va(2) by (simp add: translate_def page_of_def)
    then show ?thesis using s'(4) [OF w] True un [OF va(1)] by simp
  qed (use s'(4) [OF w] mf w in \<open>auto simp: mapped_fresh_def\<close>)
  moreover have "pmm_refs (page_frames s') = pmm_refs (page_frames s0)"
  proof
    fix q
    have "pmm_refs (page_frames s0) q = 0" if "q \<in> set ps" using that mf refs_busy [OF ok0, of q]
      by (cases "pmm_refs (page_frames s0) q") (auto simp: mapped_fresh_def page_busy_def)
    then show "pmm_refs (page_frames s') q = pmm_refs (page_frames s0) q" using mf by (auto simp: s'(5) fr(3) mapped_fresh_def)
  qed
  moreover have "pmem s' (g, k) = pmem s0 (g, k)" if "page_busy s0 g" "g \<notin> tables s0 (cr3 s0)" for g k
    using s'(6) [of g k] that mf fr(2) c by (auto simp: mapped_fresh_def page_busy_def)
  ultimately show ?thesis using s'(1-3) by (auto simp: unchanged_def)
qed

lemma map_zeroed_spec:
  assumes mf: "mapped_fresh s0 pm vas ps s" and d: "distinct (map page_of (vas @ rest))"
    and rest: "\<And>va. va \<in> set rest \<Longrightarrow> ready s0 va" and un: "\<And>va. va \<in> set (vas @ rest) \<Longrightarrow> translate s0 (cr3 s0) va = None"
    and n: "length vas + length rest \<le> 1024" and ok0: "as_ok s0 (cr3 s0)"
    and fl: "flags AND VMM_FLAG_PRESENT \<noteq> 0" "pm = (flags AND VMM_FLAG_RW \<noteq> 0, flags AND VMM_FLAG_USER \<noteq> 0)"
    and mapf: "\<And>frame va s. cr3 s = cr3 s0 \<Longrightarrow> mapf frame va s = vmm_map_page_nolock (ucast frame) (ucast va) flags s"
  shows "\<exists>s'. map_zeroed mapf rest vas s =
        Some (s', length rest \<le> card (pmm_avail (page_frames s))) \<and>
      (if length rest \<le> card (pmm_avail (page_frames s)) then \<exists>qs. mapped_fresh s0 pm (vas @ rest) (ps @ qs) s' else unchanged s0 s')"
  using mf d rest un n
proof (induction rest arbitrary: vas ps s)
  case Nil
  then show ?case by (auto intro: exI [of _ "[]"])
next
  case (Cons va rest)
  obtain fr p where al: "pmm_alloc_page (page_frames s) = (fr, p)" by (cases "pmm_alloc_page (page_frames s)")
  have rdy: "pmm_ready (page_frames s)" using Cons.prems(1) as_wfD(1) [OF as_okD(1)] by (auto simp: mapped_fresh_def)
  show ?case
  proof (cases "p = 0")
    case True
    note al0 = al [unfolded True]
    have e: "pmm_avail (page_frames s) = {}" "pmm_avail fr = {}" using pmm_shared.al_none [OF rdy al0] by auto
    have "\<exists>s'. each unmap_free vas (s\<lparr>page_frames := fr\<rparr>) = Some s' \<and> unchanged s0 s'"
      by (rule mapped_fresh_undo [OF Cons.prems(1) pmm_frames.al_inv [OF rdy al0] _ pmm_frames.al_oom [OF rdy al0] _ ok0])
        (use e Cons.prems(4) in auto)
    then show ?thesis using al0 e by auto
  next
    case False
    have av: "p \<in> pmm_avail (page_frames s)" "pmm_avail fr = pmm_avail (page_frames s) - {p}" using pmm_shared.al_avail [OF rdy al False] by auto
    obtain s1 s2 where s2: "vmm_map_page_nolock (ucast p) (ucast va) flags (s\<lparr>page_frames := fr\<rparr>) = Some s1" "fill_page va (\<lambda>_. 0) s1 = Some s2"
      "mapped_fresh s0 pm (vas @ [va]) (ps @ [p]) s2"
      by (rule mapped_fresh_step [OF Cons.prems(1) _ _ al False fl]) (use Cons.prems(1-3) that in \<open>auto simp: mapped_fresh_def\<close>)
    have a2: "pmm_avail (page_frames s2) = pmm_avail (page_frames s) - {p}"
      using s2(3) Cons.prems(1) by (auto simp: mapped_fresh_def)
    have card: "card (pmm_avail (page_frames s)) = Suc (card (pmm_avail (page_frames s2)))"
      unfolding a2 by (rule card.remove [OF _ av(1)]) simp
    have "map_zeroed mapf (va # rest) vas s =
        map_zeroed mapf rest (vas @ [va]) s2"
      using Cons.prems(1,5) al False s2(1,2) by (simp add: mapf mapped_fresh_def)
    moreover have "(Suc (length rest) \<le> card (pmm_avail (page_frames s))) = (length rest \<le> card (pmm_avail (page_frames s2)))"
      by (simp add: card)
    ultimately show ?thesis
      using Cons.IH [OF s2(3)] Cons.prems(2-5) by (auto split: if_splits)
  qed
qed

section \<open>Ranges of pages\<close>

lemma page_of_inj:
  assumes "(v :: u32) AND 0xFFF = 0" "w AND 0xFFF = 0" "page_of v = page_of w"
  shows "v = w"
proof -
  have num: "unat x = 4096 * (262144 * pae_pdpt_index (ucast x) + 512 * pae_pd_index (ucast x) + pae_pt_index (ucast x))"
    if "(x :: u32) AND 0xFFF = 0" for x
  proof -
    define a where "a = unat x div 4096"
    have x: "unat x = 4096 * a" using that page_offset [of x] by (auto simp: a_def)
    have lt: "unat x < 2 ^ 32" using unsigned_less [of x] by simp
    have i: "pae_pdpt_index (ucast x) = a div 512 div 512" "pae_pd_index (ucast x) = a div 512 mod 512" "pae_pt_index (ucast x) = a mod 512"
      using lt by (simp_all add: pae_index_nat a_def div_mult2_eq [symmetric])
    have "512 * q + r = b \<Longrightarrow> 512 * q' + r' = q \<Longrightarrow> 4096 * b = 4096 * (262144 * q' + 512 * r' + r)" for b q r q' r' :: nat by simp
    from this [OF mult_div_mod_eq mult_div_mod_eq] show ?thesis unfolding x i .
  qed
  show ?thesis using num [OF assms(1)] num [OF assms(2)] assms(3) by (simp add: page_of_def word_unat_eq_iff)
qed

lemma round_page_nat:
  assumes "unat len \<le> 0xFFFFF000"
  shows "unat (round_page len) = 4096 * ((unat len + 4095) div 4096)"
proof -
  have "unat (len + 0xFFF) = unat len + 4095" using assms by (subst unat_add_lem [THEN iffD1]) simp_all
  then have "round_page len = page_addr ((unat len + 4095) div 4096)" unfolding round_page_def page_start by simp
  then show ?thesis using assms by (simp add: unat_page_addr)
qed

lemma pages_from_length: "length (pages_from base len) = unat len div 4096"
  by (simp add: pages_from_def)

lemma pages_from_distinct: "distinct (pages_from base len)"
proof -
  have "inj_on (\<lambda>k. base + (of_nat (0x1000 * k) :: u32)) {0..<unat len div 0x1000}"
  proof (rule inj_onI)
    fix k l
    assume kl: "k \<in> {0..<unat len div 0x1000}" "l \<in> {0..<unat len div 0x1000}" and e: "base + (of_nat (0x1000 * k) :: u32) = base + of_nat (0x1000 * l)"
    have "unat len < 2 ^ 32" using unsigned_less [of len] by simp
    then have "unat len div 0x1000 < 2 ^ 20" by (simp add: less_mult_imp_div_less)
    then have "k < 2 ^ 20" "l < 2 ^ 20" using kl unfolding atLeastLessThan_iff by linarith+
    moreover have "page_addr k = page_addr l" using e unfolding page_addr_def add_left_cancel .
    ultimately have "0x1000 * k = 0x1000 * l" using unat_page_addr [of k] unat_page_addr [of l] by metis
    then show "k = l" by simp
  qed
  then show ?thesis by (simp add: pages_from_def distinct_map)
qed

lemma distinct_pages:
  assumes "\<forall>va \<in> set (pages_from base len). ready s va"
  shows "distinct (map page_of (pages_from base len))"
  using pages_from_distinct assms page_of_inj by (auto simp: distinct_map inj_on_def ready_def)

lemma mmap_flags_bits: "mmap_flags prot AND VMM_FLAG_PRESENT \<noteq> 0" "mmap_flags prot AND VMM_FLAG_USER \<noteq> 0"
  "(mmap_flags prot AND VMM_FLAG_RW \<noteq> 0) = (prot AND PROT_WRITE \<noteq> 0)"
  by (simp_all add: mmap_flags_def VMM_FLAG_PRESENT_def VMM_FLAG_USER_def VMM_FLAG_RW_def)

text \<open>The loop from the start, on a range of at most 4 MiB that is not mapped.\<close>

lemma map_zeroed_range:
  assumes ok: "as_ok s (cr3 s)" and vas: "\<forall>va \<in> set (pages_from base len). ready s va \<and> translate s (cr3 s) va = None" and n: "unat len div 4096 \<le> 1024"
    and fl: "flags AND VMM_FLAG_PRESENT \<noteq> 0" "(flags AND VMM_FLAG_RW \<noteq> 0, flags AND VMM_FLAG_USER \<noteq> 0) = pm"
    and mapf: "\<And>frame va s1. cr3 s1 = cr3 s \<Longrightarrow> mapf frame va s1 = vmm_map_page_nolock (ucast frame) (ucast va) flags s1"
  defines "enough \<equiv> unat len div 4096 \<le> card (pmm_avail (page_frames s))"
  obtains s' where "map_zeroed mapf (pages_from base len) [] s = Some (s', enough)"
    "if enough then \<exists>ps. mapped_fresh s pm (pages_from base len) ps s' else unchanged s s'"
proof -
  have mf: "mapped_fresh s pm [] [] s" using ok by (auto simp: mapped_fresh_def holds_def)
  have dp: "distinct (map page_of ([] @ pages_from base len))" using distinct_pages [of base len s] vas by simp
  have "\<exists>s'. map_zeroed mapf (pages_from base len) [] s =
        Some (s', length (pages_from base len) \<le> card (pmm_avail (page_frames s))) \<and>
      (if length (pages_from base len) \<le> card (pmm_avail (page_frames s))
       then \<exists>qs. mapped_fresh s pm ([] @ pages_from base len) ([] @ qs) s' else unchanged s s')"
    by (rule map_zeroed_spec [OF mf dp _ _ _ ok fl(1) fl(2) [symmetric] mapf]) (use vas n in \<open>auto simp: pages_from_length\<close>)
  then show thesis using that by (auto simp: pages_from_length enough_def cong: if_cong)
qed

section \<open>mmap\<close>

text \<open>An anonymous mapping that passes the checks of \<^verbatim>\<open>mmap\<close>, at most 4 MiB long, over pages that are not mapped.\<close>

definition mmap_fits :: "u32 \<Rightarrow> u32 \<Rightarrow> u32 \<Rightarrow> u32 \<Rightarrow> nat \<Rightarrow> uvm \<Rightarrow> bool" where
  "mmap_fits addr len flags base sl u \<longleftrightarrow>
     as_ok (vm u) (cr3 (vm u)) \<and> 0 < len \<and> len \<le> 0x400000 \<and> flags AND MAP_ANONYMOUS \<noteq> 0 \<and>
     mmap_base addr (round_page len) flags (vm u) = Some (Inr base) \<and> free_mmap_slot (proc u) = Some sl \<and>
     (\<forall>va \<in> set (pages_from base (round_page len)). ready (vm u) va \<and> translate (vm u) (cr3 (vm u)) va = None)"

lemma mmap_run:
  assumes fits: "mmap_fits addr len flags base sl u"
  defines "enough \<equiv> unat (round_page len) div 4096 \<le> card (pmm_avail (page_frames (vm u)))"
  obtains s' where "syscall_mmap_impl fds addr len prot flags fd offset u =
      Some (if enough then (record_mmap sl base (round_page len) (-1) (u\<lparr>vm := s'\<rparr>), base) else (u\<lparr>vm := s'\<rparr>, errno ENOMEM))"
    "if enough then \<exists>ps. mapped_fresh (vm u) (prot AND PROT_WRITE \<noteq> 0, True) (pages_from base (round_page len)) ps s' else unchanged (vm u) s'"
proof -
  have n: "unat (round_page len) div 4096 \<le> 1024" and l0: "len \<noteq> 0"
    using fits round_page_nat [of len] by (auto simp: mmap_fits_def word_le_nat_alt)
  obtain s' where s': "map_zeroed (\<lambda>frame va. vmm_map_page_nolock (ucast frame) (ucast va) (mmap_flags prot)) (pages_from base (round_page len)) [] (vm u) =
      Some (s', enough)"
    "if enough then \<exists>ps. mapped_fresh (vm u) (prot AND PROT_WRITE \<noteq> 0, True) (pages_from base (round_page len)) ps s' else unchanged (vm u) s'"
    unfolding enough_def
    by (rule map_zeroed_range [of "vm u" base "round_page len" "mmap_flags prot" "(prot AND PROT_WRITE \<noteq> 0, True)"])
      (use fits n mmap_flags_bits [of prot] in \<open>auto simp: mmap_fits_def\<close>)
  have "syscall_mmap_impl fds addr len prot flags fd offset u =
      Some (if enough then (record_mmap sl base (round_page len) (-1) (u\<lparr>vm := s'\<rparr>), base) else (u\<lparr>vm := s'\<rparr>, errno ENOMEM))"
    using fits l0 s'(1) by (simp add: syscall_mmap_impl_def mmap_fits_def Let_def)
  then show thesis using s'(2) that by blast
qed



lemma find_only: "(\<And>i. i < n \<Longrightarrow> P i \<longleftrightarrow> i = k) \<Longrightarrow> k < n \<Longrightarrow> find P [0..<n] = Some k"
  by (rule find_Some_iff [THEN iffD2]) (auto intro!: exI [of _ k])

lemma free_mmap_slot_bound: "free_mmap_slot p = Some sl \<Longrightarrow> sl < 32"
  by (auto simp: free_mmap_slot_def find_Some_iff)


section \<open>brk\<close>


section \<open>Shared memory\<close>

lemma map_all:
  assumes "as_ok s (cr3 s)" "\<forall>k \<in> set ks. ready s (va k) \<and> pg k AND 0xFFF = 0" "distinct (map (\<lambda>k. page_of (va k)) ks)"
    and fl: "flags AND VMM_FLAG_PRESENT \<noteq> 0"
  shows "\<exists>s'. each (\<lambda>k. vmm_map_page_nolock (ucast (pg k :: u32)) (ucast (va k)) flags) ks s = Some s' \<and>
    as_ok s' (cr3 s) \<and> cr3 s' = cr3 s \<and> page_frames s' = page_frames s \<and>
    (\<forall>k \<in> set ks. translate s' (cr3 s) (va k) = Some (ucast (pg k), flags AND VMM_FLAG_RW \<noteq> 0, flags AND VMM_FLAG_USER \<noteq> 0)) \<and>
    (\<forall>w. ordinary w \<and> page_of w \<notin> (\<lambda>k. page_of (va k)) ` set ks \<longrightarrow> translate s' (cr3 s) w = translate s (cr3 s) w) \<and>
    (\<forall>g k. page_busy s g \<and> g \<notin> tables s (cr3 s) \<longrightarrow> pmem s' (g, k) = pmem s (g, k))"
  using assms(1-3)
proof (induction ks arbitrary: s)
  case (Cons k ks)
  note ok = Cons.prems(1)
  have k: "ready s (va k)" "pg k AND 0xFFF = 0" "ordinary (va k)" using Cons.prems(2) by (auto simp: ready_def)
  obtain s1 where s1: "vmm_map_page_nolock (ucast (pg k)) (ucast (va k)) flags s = Some s1" "as_ok s1 (cr3 s)" "cr3 s1 = cr3 s"
    "page_frames s1 = page_frames s"
    "\<And>w. ordinary w \<Longrightarrow> translate s1 (cr3 s) w =
       (if page_of w = page_of (va k) then Some (ucast (pg k), flags AND VMM_FLAG_RW \<noteq> 0, flags AND VMM_FLAG_USER \<noteq> 0) else translate s (cr3 s) w)"
    "\<And>g j. page_busy s g \<Longrightarrow> g \<notin> tables s (cr3 s) \<Longrightarrow> g \<notin> tables s1 (cr3 s) \<and> pmem s1 (g, j) = pmem s (g, j)"
    "\<And>w. ready s w \<Longrightarrow> ready s1 w"
    by (rule map_frame [OF ok k(1,2) fl], rule that)
  have b: "page_busy s1 g = page_busy s g" for g by (simp add: page_busy_def s1(4))
  obtain s' where s': "each (\<lambda>k. vmm_map_page_nolock (ucast (pg k)) (ucast (va k)) flags) ks s1 = Some s'" "as_ok s' (cr3 s)" "cr3 s' = cr3 s"
    "page_frames s' = page_frames s"
    "\<forall>k \<in> set ks. translate s' (cr3 s) (va k) = Some (ucast (pg k), flags AND VMM_FLAG_RW \<noteq> 0, flags AND VMM_FLAG_USER \<noteq> 0)"
    "\<And>w. ordinary w \<and> page_of w \<notin> (\<lambda>k. page_of (va k)) ` set ks \<Longrightarrow> translate s' (cr3 s) w = translate s1 (cr3 s) w"
    "\<And>g j. page_busy s g \<and> g \<notin> tables s1 (cr3 s) \<Longrightarrow> pmem s' (g, j) = pmem s1 (g, j)"
    using Cons.IH [of s1] Cons.prems(2,3) s1(2,3,4,7) by (auto simp: b)
  have "translate s' (cr3 s) (va k) = Some (ucast (pg k), flags AND VMM_FLAG_RW \<noteq> 0, flags AND VMM_FLAG_USER \<noteq> 0)"
    using s'(6) [of "va k"] s1(5) [OF k(3)] k(3) Cons.prems(3) by auto
  then show ?case using s' s1 by auto
qed auto

text \<open>
  C39. Attaching a segment over a range whose page tables exist: page \<open>k\<close> of the segment appears at page \<open>k\<close> of the range,
  for every process that attaches it the same frame, readable by the user and writable unless the attachment is
  read-only. Nothing else is mapped, no contents change, the attachment is counted and recorded. The frames get no new
  owner.
\<close>

theorem shm_at_correct:
  assumes ok: "as_ok (vm u) (cr3 (vm u))" and sg: "0 \<le> shmid" "shmid < 32" "sg = segs ! nat shmid" "seg_used sg" "\<not> marked_rm sg"
    and perm: "shm_perm_check sg 4 (proc u)" "shmflg AND SHM_RDONLY \<noteq> 0 \<or> shm_perm_check sg 2 (proc u)"
    and sl: "free_mmap_slot (proc u) = Some sl" and pgs: "length (seg_pages sg) \<le> 16" "\<forall>p \<in> set (seg_pages sg). p AND 0xFFF = 0"
    and addr: "shm_vaddr shmaddr (of_nat (length (seg_pages sg) * 0x1000)) (vm u) = Some (Inr vaddr)"
    and rdy: "\<forall>k < length (seg_pages sg). ready (vm u) (vaddr + of_nat (0x1000 * k))"
  shows "\<exists>s'. shm_at shmid shmaddr shmflg (segs, u) =
      Some ((segs[nat shmid := sg\<lparr>nattch := nattch sg + 1\<rparr>], record_mmap sl vaddr (of_nat (length (seg_pages sg) * 0x1000)) shmid (u\<lparr>vm := s'\<rparr>)), vaddr) \<and>
    as_ok s' (cr3 (vm u)) \<and> page_frames s' = page_frames (vm u) \<and>
    (\<forall>k < length (seg_pages sg). translate s' (cr3 (vm u)) (vaddr + of_nat (0x1000 * k)) =
       Some (ucast (seg_pages sg ! k), shmflg AND SHM_RDONLY = 0, True)) \<and>
    (\<forall>w. ordinary w \<and> page_of w \<notin> (\<lambda>k. page_of (vaddr + of_nat (0x1000 * k))) ` {..<length (seg_pages sg)} \<longrightarrow>
       translate s' (cr3 (vm u)) w = translate (vm u) (cr3 (vm u)) w) \<and>
    (\<forall>g k. page_busy (vm u) g \<and> g \<notin> tables (vm u) (cr3 (vm u)) \<longrightarrow> pmem s' (g, k) = pmem (vm u) (g, k))"
proof -
  let ?fl = "VMM_FLAG_PRESENT OR VMM_FLAG_USER OR VMM_FLAG_NX OR (if shmflg AND SHM_RDONLY = 0 then VMM_FLAG_RW else 0)"
  let ?n = "length (seg_pages sg)" and ?va = "\<lambda>k. vaddr + (of_nat (0x1000 * k) :: u32)"
  have bits: "?fl AND VMM_FLAG_PRESENT \<noteq> 0" "(?fl AND VMM_FLAG_RW \<noteq> 0) = (shmflg AND SHM_RDONLY = 0)" "?fl AND VMM_FLAG_USER \<noteq> 0"
    by (simp_all add: VMM_FLAG_PRESENT_def VMM_FLAG_RW_def VMM_FLAG_USER_def)
  have pf: "map ?va [0..<?n] = pages_from vaddr (of_nat (0x1000 * ?n))"
    using pgs(1) unfolding pages_from_def page_addr_def [symmetric] by (subst unat_page_addr) simp_all
  have d: "distinct (map (\<lambda>k. page_of (?va k)) [0..<?n])"
    using distinct_pages [of vaddr "of_nat (0x1000 * ?n)" "vm u"] rdy unfolding pf [symmetric] by (auto simp: comp_def)
  have "\<exists>s'. shm_map ?fl vaddr (seg_pages sg) (vm u) = Some s' \<and> as_ok s' (cr3 (vm u)) \<and> cr3 s' = cr3 (vm u) \<and> page_frames s' = page_frames (vm u) \<and>
      (\<forall>k \<in> set [0..<?n]. translate s' (cr3 (vm u)) (?va k) = Some (ucast (seg_pages sg ! k), ?fl AND VMM_FLAG_RW \<noteq> 0, ?fl AND VMM_FLAG_USER \<noteq> 0)) \<and>
      (\<forall>w. ordinary w \<and> page_of w \<notin> (\<lambda>k. page_of (?va k)) ` set [0..<?n] \<longrightarrow> translate s' (cr3 (vm u)) w = translate (vm u) (cr3 (vm u)) w) \<and>
      (\<forall>g k. page_busy (vm u) g \<and> g \<notin> tables (vm u) (cr3 (vm u)) \<longrightarrow> pmem s' (g, k) = pmem (vm u) (g, k))"
    unfolding shm_map_def by (rule map_all [OF ok _ d bits(1)]) (use rdy pgs(2) in auto)
  then obtain s' where s': "shm_map ?fl vaddr (seg_pages sg) (vm u) = Some s'" "as_ok s' (cr3 (vm u))" "page_frames s' = page_frames (vm u)"
    "\<forall>k < ?n. translate s' (cr3 (vm u)) (?va k) = Some (ucast (seg_pages sg ! k), shmflg AND SHM_RDONLY = 0, True)"
    "\<forall>w. ordinary w \<and> page_of w \<notin> (\<lambda>k. page_of (?va k)) ` {..<?n} \<longrightarrow> translate s' (cr3 (vm u)) w = translate (vm u) (cr3 (vm u)) w"
    "\<forall>g k. page_busy (vm u) g \<and> g \<notin> tables (vm u) (cr3 (vm u)) \<longrightarrow> pmem s' (g, k) = pmem (vm u) (g, k)"
    unfolding bits(2) using bits(3) by (auto simp: atLeast0LessThan)
  have "shm_at shmid shmaddr shmflg (segs, u) =
      Some ((segs[nat shmid := sg\<lparr>nattch := nattch sg + 1\<rparr>], record_mmap sl vaddr (of_nat (?n * 0x1000)) shmid (u\<lparr>vm := s'\<rparr>)), vaddr)"
    using sg perm sl addr s'(1) by (auto simp: shm_at_def Let_def)
  then show ?thesis using s' by blast
qed

text \<open>
  The table of segments: no page belongs to two segments or twice to one, every page of a segment is allocated, and the
  page count fits the size.
\<close>

definition shm_inv :: "shm_segment list \<times> pmm \<Rightarrow> bool" where
  "shm_inv = (\<lambda>(segs, fr).
     length segs = SHM_MAX_SEGMENTS \<and> pmm_ready fr \<and>
     (\<forall>i < SHM_MAX_SEGMENTS. seg_used (segs ! i) \<longrightarrow> distinct (seg_pages (segs ! i)) \<and> length (seg_pages (segs ! i)) \<le> SHM_MAX_PAGES \<and>
        (\<forall>p \<in> set (seg_pages (segs ! i)). 0 < pmm_refs fr p)) \<and>
     (\<forall>i < SHM_MAX_SEGMENTS. \<forall>j < SHM_MAX_SEGMENTS. \<forall>p. seg_used (segs ! i) \<and> seg_used (segs ! j) \<and>
        p \<in> set (seg_pages (segs ! i)) \<and> p \<in> set (seg_pages (segs ! j)) \<longrightarrow> i = j))"

lemma shm_invD:
  assumes "shm_inv (segs, fr)"
  shows "length segs = 32" "pmm_ready fr"
    "\<And>i. i < 32 \<Longrightarrow> seg_used (segs ! i) \<Longrightarrow> distinct (seg_pages (segs ! i)) \<and> length (seg_pages (segs ! i)) \<le> 16"
    "\<And>i p. i < 32 \<Longrightarrow> seg_used (segs ! i) \<Longrightarrow> p \<in> set (seg_pages (segs ! i)) \<Longrightarrow> 0 < pmm_refs fr p"
    "\<And>i j p. i < 32 \<Longrightarrow> j < 32 \<Longrightarrow> seg_used (segs ! i) \<Longrightarrow> seg_used (segs ! j) \<Longrightarrow> p \<in> set (seg_pages (segs ! i)) \<Longrightarrow>
       p \<in> set (seg_pages (segs ! j)) \<Longrightarrow> i = j"
  using assms unfolding shm_inv_def prod.case by blast+

lemma shm_inv_update:
  assumes inv: "shm_inv (segs, fr)" and i: "i < 32" and fr: "pmm_ready fr'"
    and keep: "\<And>j p. j < 32 \<Longrightarrow> j \<noteq> i \<Longrightarrow> seg_used (segs ! j) \<Longrightarrow> p \<in> set (seg_pages (segs ! j)) \<Longrightarrow> 0 < pmm_refs fr' p"
    and new: "seg_used sg \<Longrightarrow> distinct (seg_pages sg) \<and> length (seg_pages sg) \<le> 16 \<and> (\<forall>p \<in> set (seg_pages sg). 0 < pmm_refs fr' p)"
    and dis: "\<And>j p. seg_used sg \<Longrightarrow> j < 32 \<Longrightarrow> j \<noteq> i \<Longrightarrow> seg_used (segs ! j) \<Longrightarrow> p \<in> set (seg_pages (segs ! j)) \<Longrightarrow> p \<notin> set (seg_pages sg)"
  shows "shm_inv (segs[i := sg], fr')"
proof -
  note d = shm_invD [OF inv]
  have n: "segs[i := sg] ! j = (if j = i then sg else segs ! j)" if "j < 32" for j using that d(1) by simp
  have one: "distinct (seg_pages (segs[i := sg] ! j)) \<and> length (seg_pages (segs[i := sg] ! j)) \<le> 16 \<and>
      (\<forall>p \<in> set (seg_pages (segs[i := sg] ! j)). 0 < pmm_refs fr' p)" if "j < 32" "seg_used (segs[i := sg] ! j)" for j
    using that d(3) [OF that(1)] new keep [OF that(1)] by (cases "j = i") (auto simp: n)
  have two: "j = k" if "j < 32" "k < 32" "seg_used (segs[i := sg] ! j)" "seg_used (segs[i := sg] ! k)"
    "p \<in> set (seg_pages (segs[i := sg] ! j))" "p \<in> set (seg_pages (segs[i := sg] ! k))" for j k p
    using that d(5) [OF that(1,2), of p] dis [of j p] dis [of k p] by (cases "j = i"; cases "k = i") (simp_all add: n)
  show ?thesis unfolding shm_inv_def prod.case
    by (intro conjI allI impI, simp add: d(1), rule fr) (use one two in blast)+
qed

lemma shm_destroy_correct:
  assumes inv: "shm_inv (segs, fr)" and i: "i < 32" "seg_used (segs ! i)"
  shows "\<exists>fr'. shm_destroy i (segs, fr) = (segs[i := zero_segment], fr') \<and> shm_inv (segs[i := zero_segment], fr') \<and>
    pmm_refs fr' = (\<lambda>q. if q \<in> set (seg_pages (segs ! i)) then pmm_refs fr q - 1 else pmm_refs fr q)"
proof -
  note d = shm_invD [OF inv]
  have f: "filter (\<lambda>p. p \<noteq> 0) (seg_pages (segs ! i)) = seg_pages (segs ! i)"
    using d(4) [OF i, of 0] pmm_frames.refs_null [OF d(2)] by (auto simp: filter_id_conv)
  define fr' where "fr' = free_pages pmm_free_page (seg_pages (segs ! i)) fr"
  have r: "pmm_refs fr' q = (if q \<in> set (seg_pages (segs ! i)) then pmm_refs fr q - 1 else pmm_refs fr q)" for q
    unfolding fr'_def using d(3,4) [OF i] by (intro pmm_frames.free_pages_refs [OF d(2)]) auto
  have "shm_inv (segs[i := zero_segment], fr')"
  proof (rule shm_inv_update [OF inv i(1)])
    show "pmm_ready fr'" unfolding fr'_def by (rule pmm_frames.free_pages_inv [OF d(2)])
    show "0 < pmm_refs fr' p" if "j < 32" "j \<noteq> i" "seg_used (segs ! j)" "p \<in> set (seg_pages (segs ! j))" for j p
      using d(4) [OF that(1,3,4)] d(5) [OF that(1) i(1) that(3) i(2) that(4)] that(2) by (auto simp: r)
  qed (auto simp: zero_segment_def)
  then show ?thesis using r by (auto simp: shm_destroy_def f fr'_def)
qed

text \<open>The two outcomes of \<^verbatim>\<open>shm_get\<close>: nothing changes, or a free slot is filled.\<close>

lemma shm_get_cases:
  assumes "shm_get key sz flags p (segs, fr) = (st', r)"
  obtains (same) "st' = (segs, fr)"
    | (create) sl where "sl < 32" "\<not> seg_used (segs ! sl)" "unat ((sz + 0xFFF) div 0x1000) \<le> 16"
        "shm_create key sz ((sz + 0xFFF) div 0x1000) sl p (segs, fr) = (st', r)"
  using assms unfolding shm_get_def prod.case Let_def
  by (auto simp: find_Some_iff not_less word_le_nat_alt split: if_splits option.splits)

lemma shm_create_correct:
  assumes inv: "shm_inv (segs, fr)" and sl: "sl < 32" "\<not> seg_used (segs ! sl)" "unat np \<le> 16"
    and run: "shm_create key sz np sl p (segs, fr) = ((segs', fr'), r)"
  shows "shm_inv (segs', fr') \<and>
    (if r = - ENOMEM then pmm_refs fr' = pmm_refs fr \<and> \<not> seg_used (segs' ! sl)
     else r = int sl \<and> seg_used (segs' ! sl) \<and> length (seg_pages (segs' ! sl)) = unat np \<and>
       (\<forall>q \<in> set (seg_pages (segs' ! sl)). pmm_refs fr q = 0) \<and>
       (\<forall>q. pmm_refs fr' q = (if q \<in> set (seg_pages (segs' ! sl)) then 1 else pmm_refs fr q)))"
proof -
  note d = shm_invD [OF inv]
  obtain fr1 ps where t: "take_pages pmm_alloc_page pmm_free_page (unat np) [] fr = (fr1, ps)" by fastforce
  show ?thesis
  proof (cases ps)
    case None
    note f = pmm_frames.take_pages_rollback [OF d(2) t [unfolded None]]
    have "shm_inv (segs[sl := sg], fr1)" if "\<not> seg_used sg" for sg
      using that f d(4) by (intro shm_inv_update [OF inv sl(1)]) auto
    then show ?thesis using run t None d(1) sl(1) f by (auto simp: shm_create_def Let_def)
  next
    case (Some q)
    note f = pmm_frames.take_pages_fresh [OF d(2) t [unfolded Some]]
    have "shm_inv (segs[sl := sg], fr1)" if "seg_pages sg = q" for sg
    proof (rule shm_inv_update [OF inv sl(1) f(1)])
      fix j x assume j: "j < 32" "seg_used (segs ! j)" "x \<in> set (seg_pages (segs ! j))"
      show "0 < pmm_refs fr1 x" "x \<notin> set (seg_pages sg)" using d(4) [OF j] f(4) [of x] f(5) [of x] that by auto
    qed (use that f sl(3) in auto)
    then show ?thesis using run t Some d(1) sl(1) f by (auto simp: shm_create_def Let_def ENOMEM_def)
  qed
qed

lemma shm_mode_inv:
  assumes inv: "shm_inv (segs, fr)" and i: "i < 32" and sg: "seg_used sg = seg_used (segs ! i)" "seg_pages sg = seg_pages (segs ! i)"
  shows "shm_inv (segs[i := sg], fr)"
  using shm_invD [OF inv] i sg by (intro shm_inv_update [OF inv i]) auto

text \<open>
  C40. The table of shared memory segments stays sound under \<^verbatim>\<open>shm_get\<close> and \<^verbatim>\<open>shm_ctl\<close>, whatever their arguments and on
  every path: no page belongs to two segments or twice to one, every page of a segment in use is allocated, and a
  segment has at most 16 pages.
\<close>

theorem shm_segments_sound:
  assumes inv: "shm_inv st"
  shows "shm_inv (fst (shm_get key sz flags p st)) \<and> shm_inv (fst (shm_ctl shmid cmd buf copy_out copy_in p st))"
proof
  obtain segs fr where st: "st = (segs, fr)" by (cases st)
  obtain segs' fr' r where g: "shm_get key sz flags p (segs, fr) = ((segs', fr'), r)" by (metis prod.collapse)
  from g have "shm_inv (segs', fr')"
    by (cases rule: shm_get_cases) (use inv st shm_create_correct in blast)+
  then show "shm_inv (fst (shm_get key sz flags p st))" using g st by simp
  have i: "nat shmid < 32" if "\<not> (shmid < 0 \<or> 32 \<le> shmid)" using that by auto
  have d: "shm_inv (shm_destroy (nat shmid) (segs, fr))" if "\<not> (shmid < 0 \<or> 32 \<le> shmid)" "seg_used (segs ! nat shmid)"
    using shm_destroy_correct [OF inv [unfolded st] i [OF that(1)] that(2)] by auto
  show "shm_inv (fst (shm_ctl shmid cmd buf copy_out copy_in p st))"
    unfolding st shm_ctl_def Let_def prod.case
    using inv [unfolded st] i d by (auto split: option.splits intro: shm_mode_inv)
qed

section \<open>Witnesses\<close>

text \<open>A process in the address space of \<^const>\<open>demo_vmm\<close>, where two frames are free and the first page table has room.\<close>

definition demo_uvm :: uvm where
  "demo_uvm = \<lparr>vm = demo_vmm, proc = zero_process\<lparr>addr_space := 0x5000, mmaps := replicate 32 (0, 0, -1), heap_start := 0x6000, heap_break := 0x6000\<rparr>\<rparr>"

lemma demo_uvm_simps [simp]: "vm demo_uvm = demo_vmm" "mmaps (proc demo_uvm) = replicate 32 (0, 0, -1)" "addr_space (proc demo_uvm) = 0x5000"
  "heap_start (proc demo_uvm) = 0x6000" "heap_break (proc demo_uvm) = 0x6000"
  by (simp_all add: demo_uvm_def)

lemma demo_ready: "6 \<le> b \<Longrightarrow> b < 16 \<Longrightarrow> ready demo_vmm (page_addr b) \<and> translate demo_vmm 0x5000 (page_addr b) = None"
proof -
  assume b: "6 \<le> b" "b < 16"
  have pg: "page_of (page_addr b) = (0, 0, b)" using b by (simp add: page_of_def pae_index_nat unat_page_addr)
  have pd: "present (pde_at demo_vmm 0x5000 0 0)" using demo_pde [of 0 0] by (simp add: slot_def)
  have "unat (page_addr b AND 0xFFF) = 0" using b by (simp add: page_offset unat_page_addr)
  then have "page_addr b AND 0xFFF = 0" by (simp add: unat_eq_0)
  then show ?thesis
    using b pd demo_unaliased(1) page_ordinary [OF pg] translate_entry [OF demo_ok pg]
    by (simp add: ready_def pg slot_def entry_def demo_pte perms_def)
qed

lemma demo_avail: "Suc 0 \<le> card (pmm_avail demo_frames)" "card (pmm_avail demo_frames) < 3"
proof -
  have "card (pmm_avail demo_frames) \<le> card {0x3000 :: u32, 0x4000}" by (rule card_mono [OF _ demo_frames(3)]) simp
  then show "card (pmm_avail demo_frames) < 3" by simp
  have "0 < card (pmm_avail demo_frames)" using demo_frames(4) by (subst card_gt_0_iff) auto
  then show "Suc 0 \<le> card (pmm_avail demo_frames)" by simp
qed

lemma demo_pages: "n < 10 \<Longrightarrow> \<forall>va \<in> set (pages_from 0x6000 (of_nat (0x1000 * n))). ready demo_vmm va \<and> translate demo_vmm 0x5000 va = None"
proof
  fix va assume n: "n < 10" and "va \<in> set (pages_from 0x6000 (of_nat (0x1000 * n)))"
  then obtain k where k: "k < n" "va = 0x6000 + of_nat (0x1000 * k)"
    unfolding pages_from_def page_addr_def [symmetric] by (subst (asm) unat_page_addr) auto
  have "va = page_addr (6 + k)" by (simp add: k(2) page_addr_def)
  then show "ready demo_vmm va \<and> translate demo_vmm 0x5000 va = None" using demo_ready [of "6 + k"] k(1) n by simp
qed

lemma demo_fits: "mmap_fits 0x6000 0x1000 0x30 0x6000 0 demo_uvm" "mmap_fits 0x6000 0x3000 0x30 0x6000 0 demo_uvm"
  "round_page 0x1000 = 0x1000" "round_page 0x3000 = 0x3000"
  using demo_pages [of 1] demo_pages [of 3] demo_ok
  by (simp_all add: mmap_fits_def round_page_def mmap_base_def free_mmap_slot_def upt_rec word_le_nat_alt word_less_nat_alt)





text \<open>A segment with the page \<open>0x3000\<close>, attached for reading by root.\<close>

definition demo_segs :: "shm_segment list" where
  "demo_segs = shm_init[0 := zero_segment\<lparr>seg_used := True, seg_size := 100, seg_pages := [0x3000]\<rparr>]"

theorem shm_at_correct_witness:
  "\<exists>s' segs'. shm_at 0 0x6000 0x1000 (demo_segs, demo_uvm) = Some ((segs', record_mmap 0 0x6000 0x1000 0 (demo_uvm\<lparr>vm := s'\<rparr>)), 0x6000) \<and>
     translate s' 0x5000 0x6000 = Some (0x3000, False, True) \<and> nattch (segs' ! 0) = 1"
proof -
  define sg where "sg = zero_segment\<lparr>seg_used := True, seg_size := 100, seg_pages := [0x3000]\<rparr>"
  have sg: "demo_segs ! nat 0 = sg" "demo_segs = shm_init[0 := sg]" by (simp_all add: demo_segs_def shm_init_def sg_def)
  show ?thesis
    using shm_at_correct [of demo_uvm 0 sg demo_segs "0x1000" 0 "0x6000" "0x6000"] demo_ok demo_pages [of 1] sg(1)
    by (auto simp: sg_def zero_segment_def demo_segs_def shm_init_def shm_perm_check_def demo_uvm_def zero_process_def
      free_mmap_slot_def upt_rec shm_vaddr_def pages_from_def word_le_nat_alt word_less_nat_alt)
qed

theorem shm_segments_sound_witness:
  "shm_inv (shm_init, pmm_demo) \<and> shm_inv (fst (shm_get 0 100 0 zero_process (shm_init, pmm_demo)))"
proof -
  have "shm_inv (shm_init, pmm_demo)"
    by (simp add: shm_inv_def shm_init_def zero_segment_def pmm_ready_def pmm_demo_inv pmm_demo_max)
  then show ?thesis using shm_segments_sound [of "(shm_init, pmm_demo)" 0 100 0 zero_process] by blast
qed

end
