(* ===== verification/Kva.thy ===== *)
theory Kva
  imports Bitmap
begin

unbundle bit_operations_syntax

text \<open>
  The allocator of kernel virtual address ranges, \<^verbatim>\<open>src/kernel/kva_alloc.c\<close>: 768 pages at
  \<open>KVA_ALLOC_BASE\<close>, one bit each in a static byte array, allocated first-fit. The state is the
  byte array. An access behind its end is the value \<^term>\<open>None\<close> of \<open>kva_clear_loop\<close>: the
  argument check of \<^verbatim>\<open>kva_free_pages\<close> is done in 32-bit arithmetic and can let one through.
\<close>

definition KVA_ALLOC_BASE :: u32 where "KVA_ALLOC_BASE = 0xC0500000"
definition KVA_ALLOC_END :: u32 where "KVA_ALLOC_END = 0xC0800000"
definition KVA_ALLOC_PAGES :: u32 where "KVA_ALLOC_PAGES = drop_bit 12 (KVA_ALLOC_END - KVA_ALLOC_BASE)"

definition kva_alloc_init :: "u8 list" where
  "kva_alloc_init = replicate (unat KVA_ALLOC_PAGES div 8) 0"

definition kva_bitmap_set :: "u8 list \<Rightarrow> nat \<Rightarrow> u8 list" where
  "kva_bitmap_set b i = b[i div 8 := b ! (i div 8) OR push_bit (i mod 8) 1]"

definition kva_bitmap_clear :: "u8 list \<Rightarrow> nat \<Rightarrow> u8 list" where
  "kva_bitmap_clear b i = b[i div 8 := b ! (i div 8) AND NOT (push_bit (i mod 8) 1)]"

definition kva_bitmap_test :: "u8 list \<Rightarrow> nat \<Rightarrow> bool" where
  "kva_bitmap_test b i \<longleftrightarrow> drop_bit (i mod 8) (b ! (i div 8)) AND 1 \<noteq> 0"

text \<open>The inner loop over the candidate range, with its early exit, and the loop over the starts.\<close>

fun kva_range_free :: "u8 list \<Rightarrow> nat \<Rightarrow> nat \<Rightarrow> bool" where
  "kva_range_free b i 0 = True"
| "kva_range_free b i (Suc n) = (if kva_bitmap_test b i then False else kva_range_free b (i + 1) n)"

definition kva_find :: "u8 list \<Rightarrow> nat \<Rightarrow> nat option" where
  "kva_find b n = find (\<lambda>i. kva_range_free b i n) [0..<unat KVA_ALLOC_PAGES - n + 1]"

fun kva_set_loop :: "u8 list \<Rightarrow> nat \<Rightarrow> nat \<Rightarrow> u8 list" where
  "kva_set_loop b i 0 = b"
| "kva_set_loop b i (Suc n) = kva_set_loop (kva_bitmap_set b i) (Suc i) n"

definition kva_alloc_pages :: "u32 \<Rightarrow> u8 list \<Rightarrow> u8 list \<times> u32" where
  "kva_alloc_pages page_count b =
     (if page_count = 0 \<or> KVA_ALLOC_PAGES < page_count then (b, 0)
      else case kva_find b (unat page_count) of
        None \<Rightarrow> (b, 0)
      | Some start \<Rightarrow>
          (kva_set_loop b start (unat page_count), KVA_ALLOC_BASE + push_bit 12 (of_nat start)))"

fun kva_clear_loop :: "u8 list \<Rightarrow> nat \<Rightarrow> nat \<Rightarrow> u8 list option" where
  "kva_clear_loop b i 0 = Some b"
| "kva_clear_loop b i (Suc n) =
     (if i div 8 < length b then kva_clear_loop (kva_bitmap_clear b i) (Suc i) n else None)"

definition kva_free_pages :: "u32 \<Rightarrow> u32 \<Rightarrow> u8 list \<Rightarrow> u8 list option" where
  "kva_free_pages virt page_count b =
     (if virt < KVA_ALLOC_BASE \<or> KVA_ALLOC_END \<le> virt then Some b
      else
        let start = drop_bit 12 (virt - KVA_ALLOC_BASE) in
        if KVA_ALLOC_PAGES < start + page_count then Some b
        else kva_clear_loop b (unat start) (unat page_count))"

section \<open>The bitmap interface\<close>

definition kva_ok :: "u8 list \<Rightarrow> bool" where
  "kva_ok b \<longleftrightarrow> length b = 96"

lemma kva_bitmap_test_bit: "kva_bitmap_test b i = bit (b ! (i div 8)) (i mod 8)"
  by (simp add: kva_bitmap_test_def and_one_eq bit_iff_odd_drop_bit odd_iff_mod_2_eq_one)

interpretation kva_bits: byte_bitmap kva_bitmap_test kva_bitmap_set kva_bitmap_clear
proof unfold_locales
  fix b :: "u8 list" and i j :: nat
  show "length (kva_bitmap_set b i) = length b" "length (kva_bitmap_clear b i) = length b"
    by (simp_all add: kva_bitmap_set_def kva_bitmap_clear_def)
  assume "i < 8 * length b"
  then have "i div 8 < length b" by auto
  then show "kva_bitmap_test (kva_bitmap_set b i) j = (j = i \<or> kva_bitmap_test b j)"
    "kva_bitmap_test (kva_bitmap_clear b i) j = (j \<noteq> i \<and> kva_bitmap_test b j)"
    by (auto simp: kva_bitmap_test_bit kva_bitmap_set_def kva_bitmap_clear_def nth_update_eq_if
        bit_set_byte bit_unset_byte byte_pos_eq [of j i])
qed

lemma kva_set_loop_run: "kva_set_loop b i n = kva_bits.set_run b i n"
  by (induction b i n rule: kva_set_loop.induct) auto

lemma bit_in_array: "(i div 8 < length (b :: u8 list)) = (i < 8 * length b)"
  by (simp add: div_less_iff_less_mult mult.commute)

lemma kva_clear_loop_run: "i + n \<le> 8 * length b \<Longrightarrow> kva_clear_loop b i n = Some (kva_bits.clear_run b i n)"
  by (induction b i n rule: kva_clear_loop.induct) (simp_all add: kva_bits.length_clear bit_in_array)

lemma kva_clear_loop_overrun: "i \<le> 8 * length b \<Longrightarrow> 8 * length b < i + n \<Longrightarrow> kva_clear_loop b i n = None"
  by (induction b i n rule: kva_clear_loop.induct) (simp_all add: kva_bits.length_clear bit_in_array)

lemma kva_range_free_iff: "kva_range_free b i n = (\<forall>j. i \<le> j \<and> j < i + n \<longrightarrow> \<not> kva_bitmap_test b j)"
proof (induction b i n rule: kva_range_free.induct)
  case (2 b i n)
  have "i \<le> j \<and> j < i + Suc n \<longleftrightarrow> j = i \<or> i + 1 \<le> j \<and> j < i + 1 + n" for j by auto
  with 2 show ?case by simp blast
qed auto

lemma kva_pages: "unat KVA_ALLOC_PAGES = 768"
  by (simp add: KVA_ALLOC_PAGES_def KVA_ALLOC_BASE_def KVA_ALLOC_END_def unat_drop_bit_eq drop_bit_eq_div)

text \<open>The first-fit search.\<close>

lemma kva_find_Some:
  assumes "kva_find b n = Some start" "n \<le> 768"
  shows "start + n \<le> 768" "kva_range_free b start n" "\<And>i. i < start \<Longrightarrow> \<not> kva_range_free b i n"
  using assms by (auto simp: kva_find_def find_upt_Some kva_pages simp del: upt_Suc)

lemma kva_find_None: "kva_find b n = None \<Longrightarrow> i + n \<le> 768 \<Longrightarrow> \<not> kva_range_free b i n"
  by (auto simp: kva_find_def find_upt_None kva_pages simp del: upt_Suc)

lemma kva_address:
  assumes "start < 768"
  shows "unat (KVA_ALLOC_BASE + push_bit 12 (of_nat start)) = 0xC0500000 + 4096 * start"
    and "drop_bit 12 (KVA_ALLOC_BASE + push_bit 12 (of_nat start) - KVA_ALLOC_BASE) = (of_nat start :: u32)"
proof -
  have "push_bit 12 (of_nat start :: u32) = of_nat (4096 * start)" by (simp add: push_bit_eq_mult)
  then have "KVA_ALLOC_BASE + push_bit 12 (of_nat start) = of_nat (0xC0500000 + 4096 * start)"
    by (simp add: KVA_ALLOC_BASE_def)
  then show "unat (KVA_ALLOC_BASE + push_bit 12 (of_nat start)) = 0xC0500000 + 4096 * start"
    using assms unat_of_nat_small [of "0xC0500000 + 4096 * start", where 'a = 32] by simp
  have "unat (of_nat (4096 * start) :: u32) = 4096 * start" using assms by (intro unat_of_nat_small) simp
  moreover have "unat (of_nat start :: u32) = start" using assms by (intro unat_of_nat_small) simp
  ultimately show "drop_bit 12 (KVA_ALLOC_BASE + push_bit 12 (of_nat start) - KVA_ALLOC_BASE) = (of_nat start :: u32)"
    unfolding word_unat_eq_iff by (simp add: push_bit_eq_mult drop_bit_eq_div unat_div mult.commute)
qed

text \<open>The initial state is well-formed and has every page free.\<close>

lemma kva_init_ok: "kva_ok kva_alloc_init" "kva_range_free kva_alloc_init 0 3"
  by (auto simp: kva_ok_def kva_alloc_init_def kva_pages kva_range_free_iff kva_bitmap_test_bit)

text \<open>
  C9. \<^verbatim>\<open>kva_alloc_pages\<close> is first-fit: it returns the lowest range of that many free pages and
  marks exactly these pages; it fails, changing nothing, only when there is no such range.
\<close>

theorem kva_alloc_pages_first_fit:
  assumes "kva_ok b" "0 < n" "n \<le> 768" "kva_alloc_pages (of_nat n) b = (b', va)"
  shows "if va = 0 then b' = b \<and> (\<forall>i. i + n \<le> 768 \<longrightarrow> \<not> kva_range_free b i n)
    else \<exists>start. unat va = 0xC0500000 + 4096 * start \<and> start + n \<le> 768 \<and> kva_range_free b start n \<and>
      (\<forall>i < start. \<not> kva_range_free b i n) \<and> kva_ok b' \<and>
      (\<forall>j. kva_bitmap_test b' j = (start \<le> j \<and> j < start + n \<or> kva_bitmap_test b j))"
proof -
  have u: "unat (of_nat n :: u32) = n" using assms(3) by (intro unat_of_nat_small) simp
  have g: "(of_nat n :: u32) \<noteq> 0 \<and> \<not> KVA_ALLOC_PAGES < of_nat n"
    using assms(2,3) u kva_pages by (auto simp: word_less_nat_alt)
  show ?thesis
  proof (cases "kva_find b n")
    case None
    with assms(4) g u show ?thesis using kva_find_None [OF None] by (simp add: kva_alloc_pages_def)
  next
    case (Some start)
    note f = kva_find_Some [OF Some assms(3)]
    have ad: "unat va = 0xC0500000 + 4096 * start" "b' = kva_bits.set_run b start n"
      using assms(4) g u Some kva_address(1) [of start] f(1) assms(2)
      by (auto simp: kva_alloc_pages_def kva_set_loop_run)
    then have "va \<noteq> 0" by auto
    moreover have "kva_bitmap_test b' j = (start \<le> j \<and> j < start + n \<or> kva_bitmap_test b j)" for j
      unfolding ad(2) by (rule kva_bits.test_set_run) (use f(1) assms(1) in \<open>simp add: kva_ok_def\<close>)
    moreover have "kva_ok b'" using assms(1) ad(2) by (simp add: kva_ok_def)
    ultimately show ?thesis using ad f by auto
  qed
qed

theorem kva_alloc_pages_first_fit_witness:
  "\<exists>b' va. kva_alloc_pages (of_nat 3) kva_alloc_init = (b', va) \<and> va \<noteq> 0 \<and>
     (\<forall>j. kva_bitmap_test b' j = (j < 3 \<or> kva_bitmap_test kva_alloc_init j))"
proof -
  note ok = kva_init_ok(1) and fr = kva_init_ok(2)
  obtain b' va where r: "kva_alloc_pages (of_nat 3) kva_alloc_init = (b', va)" by fastforce
  note t = kva_alloc_pages_first_fit [OF ok _ _ r]
  have "va \<noteq> 0" using t fr by (auto split: if_splits)
  with t obtain start where "\<forall>i < start. \<not> kva_range_free kva_alloc_init i 3"
      "\<forall>j. kva_bitmap_test b' j = (start \<le> j \<and> j < start + 3 \<or> kva_bitmap_test kva_alloc_init j)" by auto
  moreover from this(1) fr have "start = 0" by (metis gr0I)
  ultimately show ?thesis using r \<open>va \<noteq> 0\<close> by simp
qed

text \<open>
  Freeing an allocated range gives back the bitmap from before the allocation.
\<close>

theorem kva_alloc_free_roundtrip:
  assumes "kva_ok b" "0 < n" "n \<le> 768" "kva_alloc_pages (of_nat n) b = (b', va)" "va \<noteq> 0"
  shows "\<exists>b''. kva_free_pages va (of_nat n) b' = Some b'' \<and> (\<forall>j. kva_bitmap_test b'' j = kva_bitmap_test b j)"
proof -
  have u: "unat (of_nat n :: u32) = n" using assms(3) by (intro unat_of_nat_small) simp
  have g: "(of_nat n :: u32) \<noteq> 0 \<and> \<not> KVA_ALLOC_PAGES < of_nat n"
    using assms(2,3) u kva_pages by (auto simp: word_less_nat_alt)
  with assms(4,5) u obtain start where S: "kva_find b n = Some start"
    by (cases "kva_find b n") (auto simp: kva_alloc_pages_def)
  note f = kva_find_Some [OF S assms(3)]
  have st: "start < 768" using f(1) assms(2) by simp
  have b': "b' = kva_bits.set_run b start n" and va: "va = KVA_ALLOC_BASE + push_bit 12 (of_nat start)"
    using assms(4) g u S by (auto simp: kva_alloc_pages_def kva_set_loop_run)
  have range: "\<not> (va < KVA_ALLOC_BASE \<or> KVA_ALLOC_END \<le> va)"
    using kva_address(1) [OF st] st unfolding va
    by (simp add: word_less_nat_alt word_le_nat_alt) (simp add: KVA_ALLOC_BASE_def KVA_ALLOC_END_def)
  have us: "unat (of_nat start :: u32) = start" using st by (intro unat_of_nat_small) simp
  have "unat (of_nat start + of_nat n :: u32) = start + n"
    using f(1) unat_of_nat_small [of "start + n", where 'a = 32] by simp
  then have guard: "\<not> KVA_ALLOC_PAGES < of_nat start + of_nat n"
    using f(1) kva_pages by (simp add: word_less_nat_alt)
  have len: "start + n \<le> 8 * length b" using f(1) assms(1) by (simp add: kva_ok_def)
  have "kva_free_pages va (of_nat n) b' = Some (kva_bits.clear_run b' start n)"
    using range guard us u len kva_address(2) [OF st] kva_clear_loop_run [of start n b']
    by (simp add: kva_free_pages_def va b' Let_def)
  moreover have "kva_bitmap_test (kva_bits.clear_run b' start n) j = kva_bitmap_test b j" for j
    unfolding b' by (rule kva_bits.set_clear_run_test [OF len]) (use f(2) in \<open>auto simp: kva_range_free_iff\<close>)
  ultimately show ?thesis by blast
qed

theorem kva_alloc_free_roundtrip_witness:
  "\<exists>b' va b''. kva_alloc_pages (of_nat 3) kva_alloc_init = (b', va) \<and> va \<noteq> 0 \<and>
     kva_free_pages va (of_nat 3) b' = Some b'' \<and> (\<forall>j. kva_bitmap_test b'' j = kva_bitmap_test kva_alloc_init j)"
proof -
  note ok = kva_init_ok(1) and fr = kva_init_ok(2)
  obtain b' va where r: "kva_alloc_pages (of_nat 3) kva_alloc_init = (b', va)" by fastforce
  have "va \<noteq> 0"
  proof (cases "kva_find kva_alloc_init 3")
    case None
    with kva_find_None [OF None, of 0] fr show ?thesis by simp
  next
    case (Some start)
    with r kva_address(1) [of start] kva_find_Some(1) [OF Some] show ?thesis
      by (auto simp: kva_alloc_pages_def word_less_nat_alt kva_pages)
  qed
  with kva_alloc_free_roundtrip [OF ok _ _ r] r show ?thesis by auto
qed

text \<open>
  The bounds check of \<^verbatim>\<open>kva_free_pages\<close> adds in 32 bits: for every page of the range but the
  first, a count that wraps the sum to zero passes the check, and the loop runs behind the array.
\<close>

theorem kva_free_pages_wraps:
  assumes "kva_ok b" "0 < start" "start < 768"
  shows "kva_free_pages (KVA_ALLOC_BASE + push_bit 12 (of_nat start)) (- of_nat start) b = None"
proof -
  have us: "unat (of_nat start :: u32) = start" using assms(3) by (intro unat_of_nat_small) simp
  have nz: "(of_nat start :: u32) \<noteq> 0" using us assms(2) by auto
  have "- of_nat start = (of_nat (2 ^ 32 - start) :: u32)" using assms(3) by (simp add: of_nat_diff)
  then have um: "unat (- of_nat start :: u32) = 2 ^ 32 - start"
    using unat_of_nat_small [of "2 ^ 32 - start", where 'a = 32] assms(2) by simp
  have range: "\<not> (KVA_ALLOC_BASE + push_bit 12 (of_nat start) < KVA_ALLOC_BASE \<or>
      KVA_ALLOC_END \<le> KVA_ALLOC_BASE + push_bit 12 (of_nat start))"
    using kva_address(1) [OF assms(3)] assms(3)
    by (simp add: word_less_nat_alt word_le_nat_alt) (simp add: KVA_ALLOC_BASE_def KVA_ALLOC_END_def)
  have "kva_clear_loop b start (2 ^ 32 - start) = None"
    by (rule kva_clear_loop_overrun) (use assms in \<open>auto simp: kva_ok_def\<close>)
  with range us um kva_address(2) [OF assms(3)] show ?thesis
    by (simp add: kva_free_pages_def Let_def)
qed

theorem kva_free_pages_wraps_witness:
  "kva_free_pages (KVA_ALLOC_BASE + push_bit 12 (of_nat 1)) (- of_nat 1) kva_alloc_init = None"
  using kva_free_pages_wraps [OF kva_init_ok(1), of 1] by simp

end
