(* ===== verification/Buddy.thy ===== *)
theory Buddy
  imports Kernel_Prelude
begin

unbundle bit_operations_syntax

text \<open>
  The mathematics behind the buddy allocator of \<^verbatim>\<open>src/mm/heap.c\<close>, with offsets as natural numbers:
  the buddy of a block, sets of blocks that tile the heap, splitting and merging of blocks, and the
  two facts the allocator rests on. The buddy address of a block is always the start of a block, so
  the coalescing loop only ever reads real headers; and a tiling without a pair of buddies of the
  same order is the single block of 8 MB.
\<close>

text \<open>The buddy of an aligned block, as a number: the neighbour in the enclosing block of twice the size.\<close>

definition buddy_off :: "nat \<Rightarrow> nat \<Rightarrow> nat" where
  "buddy_off a k = (if even (a div 2 ^ k) then a + 2 ^ k else a - 2 ^ k)"

lemma buddy_off_xor:
  assumes "2 ^ k dvd a"
  shows "a XOR 2 ^ k = buddy_off a k"
proof -
  obtain q where q: "a = q * 2 ^ k" using assms by (auto elim: dvdE simp: mult.commute)
  have "a XOR 2 ^ k = push_bit k (q XOR Suc 0)"
    unfolding push_bit_xor q by (simp add: push_bit_eq_mult)
  also have "\<dots> = buddy_off a k"
    by (simp add: q buddy_off_def xor_Suc_0_eq push_bit_eq_mult algebra_simps)
  finally show ?thesis .
qed

lemma buddy_off_cases:
  assumes "2 ^ k dvd a"
  obtains (low) "2 ^ Suc k dvd a" "buddy_off a k = a + 2 ^ k"
  | (high) "2 ^ Suc k dvd buddy_off a k" "a = buddy_off a k + 2 ^ k"
proof -
  obtain q where q: "a = q * 2 ^ k" using assms by (auto elim: dvdE simp: mult.commute)
  show thesis
  proof (cases "even q")
    case True
    then show thesis by (intro low) (auto simp: q buddy_off_def elim!: evenE)
  next
    case False
    then show thesis by (intro high) (auto simp: q buddy_off_def algebra_simps elim!: oddE)
  qed
qed

lemma buddy_off_block:
  assumes "2 ^ k dvd a" "a + 2 ^ k \<le> 2 ^ n" "k < n"
  shows "2 ^ k dvd buddy_off a k" "buddy_off a k + 2 ^ k \<le> 2 ^ n"
    "2 ^ Suc k dvd min a (buddy_off a k)" "min a (buddy_off a k) + 2 ^ Suc k \<le> 2 ^ n"
    "buddy_off a k \<noteq> a" "buddy_off (buddy_off a k) k = a" "buddy_off a k div 2 ^ Suc k = a div 2 ^ Suc k"
    "max a (buddy_off a k) = min a (buddy_off a k) + 2 ^ k"
proof -
  have n: "(2 :: nat) ^ Suc k dvd 2 ^ n" using assms(3) by (intro le_imp_power_dvd) auto
  have d: "(2 :: nat) ^ k dvd 2 ^ Suc k" by simp
  have step: "c + 2 ^ Suc k \<le> 2 ^ n" if "2 ^ Suc k dvd c" "c < 2 ^ n" for c :: nat
    using aligned_add_le [OF that(1) n that(2)] .
  have inv: "buddy_off (a XOR 2 ^ k) k = a" if "2 ^ k dvd a XOR 2 ^ k"
    using buddy_off_xor [OF that] by (simp add: xor.assoc)
  have pos: "(0 :: nat) < 2 ^ k" by simp
  have facts: "2 ^ k dvd buddy_off a k \<and> buddy_off a k + 2 ^ k \<le> 2 ^ n \<and>
      2 ^ Suc k dvd min a (buddy_off a k) \<and> min a (buddy_off a k) + 2 ^ Suc k \<le> 2 ^ n \<and>
      buddy_off a k \<noteq> a \<and> max a (buddy_off a k) = min a (buddy_off a k) + 2 ^ k \<and>
      buddy_off a k div 2 ^ Suc k = a div 2 ^ Suc k"
    using assms(1)
  proof (cases rule: buddy_off_cases)
    case low
    have "a + 2 ^ Suc k \<le> 2 ^ n" using step [OF low(1)] assms(2) pos by linarith
    moreover have "(a + 2 ^ k) div 2 ^ Suc k = a div 2 ^ Suc k" using low(1) by (auto elim!: dvdE)
    ultimately show ?thesis
      using low assms by (simp add: min_def max_def)
  next
    case high
    let ?b = "buddy_off a k"
    have e: "a = ?b + 2 ^ k" by (rule high(2))
    have "?b + 2 ^ Suc k \<le> 2 ^ n" using step [OF high(1)] assms(2) pos e by linarith
    moreover have "(?b + 2 ^ k) div 2 ^ Suc k = ?b div 2 ^ Suc k" using high(1) by (auto elim!: dvdE)
    moreover have "?b < a" using e pos by linarith
    moreover have "2 ^ k dvd ?b" using d high(1) by (rule dvd_trans)
    ultimately show ?thesis
      using high(1) e assms(2) by (simp add: min_def max_def)
  qed
  then show "2 ^ k dvd buddy_off a k" "buddy_off a k + 2 ^ k \<le> 2 ^ n"
    "2 ^ Suc k dvd min a (buddy_off a k)" "min a (buddy_off a k) + 2 ^ Suc k \<le> 2 ^ n"
    "buddy_off a k \<noteq> a" "max a (buddy_off a k) = min a (buddy_off a k) + 2 ^ k"
    "buddy_off a k div 2 ^ Suc k = a div 2 ^ Suc k" by simp_all
  show "buddy_off (buddy_off a k) k = a"
    using inv facts buddy_off_xor [OF assms(1)] by simp
qed

lemma buddy_off_halves:
  assumes "2 ^ Suc k dvd a"
  shows "buddy_off a k = a + 2 ^ k" "buddy_off (a + 2 ^ k) k = a"
proof -
  obtain q where "a = 2 ^ Suc k * q" using assms by (rule dvdE)
  then show "buddy_off a k = a + 2 ^ k" "buddy_off (a + 2 ^ k) k = a" by (simp_all add: buddy_off_def)
qed

text \<open>
  A tiling of the heap: aligned blocks of the allowed orders, pairwise disjoint, covering every
  byte. A block is its offset from \<open>KHEAP_START\<close> and its order.
\<close>

definition tiling :: "(nat \<times> nat) set \<Rightarrow> bool" where
  "tiling B \<longleftrightarrow>
     (\<forall>(a, k) \<in> B. 5 \<le> k \<and> k \<le> 23 \<and> 2 ^ k dvd a \<and> a + 2 ^ k \<le> 2 ^ 23) \<and>
     (\<forall>(a, k) \<in> B. \<forall>(b, j) \<in> B. (a, k) \<noteq> (b, j) \<longrightarrow> a + 2 ^ k \<le> b \<or> b + 2 ^ j \<le> a) \<and>
     (\<forall>x < 2 ^ 23. \<exists>(a, k) \<in> B. a \<le> x \<and> x < a + 2 ^ k)"

lemma tilingD:
  assumes "tiling B" "(a, k) \<in> B"
  shows "5 \<le> k" "k \<le> 23" "2 ^ k dvd a" "a + 2 ^ k \<le> 2 ^ 23"
  using assms by (auto simp: tiling_def)

lemma tiling_disjoint:
  "tiling B \<Longrightarrow> (a, k) \<in> B \<Longrightarrow> (b, j) \<in> B \<Longrightarrow> (a, k) \<noteq> (b, j) \<Longrightarrow> a + 2 ^ k \<le> b \<or> b + 2 ^ j \<le> a"
  unfolding tiling_def by blast

lemma tiling_at:
  assumes "tiling B" "x < 2 ^ 23"
  obtains a k where "(a, k) \<in> B" "a \<le> x" "x < a + 2 ^ k"
  using assms unfolding tiling_def by blast

text \<open>Two blocks of a tiling that share a byte are the same.\<close>

lemma tiling_same:
  assumes "tiling B" "(a, k) \<in> B" "(b, j) \<in> B" "a \<le> x" "x < a + 2 ^ k" "b \<le> x" "x < b + 2 ^ j"
  shows "a = b \<and> k = j"
  using tiling_disjoint [OF assms(1,2,3)] assms(4-) by fastforce

lemma tiling_start: "tiling B \<Longrightarrow> (a, k) \<in> B \<Longrightarrow> (a, j) \<in> B \<Longrightarrow> k = j"
  using tiling_same [of B a k a j a] by simp

lemma tiling_inside:
  "tiling B \<Longrightarrow> (a, k) \<in> B \<Longrightarrow> (b, j) \<in> B \<Longrightarrow> a \<le> b \<Longrightarrow> b < a + 2 ^ k \<Longrightarrow> b = a"
  using tiling_same [of B a k b j b] by simp

text \<open>The buddy address of a block is always the start of a block, of the same order or smaller.\<close>

lemma tiling_buddy:
  assumes B: "tiling B" and ak: "(a, k) \<in> B" and k: "k < 23"
  obtains j where "(buddy_off a k, j) \<in> B" "j \<le> k"
proof -
  note t = tilingD [OF B ak]
  note b = buddy_off_block [OF t(3,4) k]
  let ?b = "buddy_off a k"
  have "(0 :: nat) < 2 ^ k" by simp
  then have "?b < 2 ^ 23" using b(2) by linarith
  then obtain p j where pj: "(p, j) \<in> B" "p \<le> ?b" "?b < p + 2 ^ j" by (rule tiling_at [OF B])
  note tp = tilingD [OF B pj(1)]
  have "j \<le> k"
  proof (rule ccontr)
    assume "\<not> j \<le> k"
    then have d: "(2 :: nat) ^ Suc k dvd 2 ^ j" by (intro le_imp_power_dvd) auto
    then have dp: "2 ^ Suc k dvd p" using tp(3) dvd_trans by blast
    have "p \<le> a" using pj(2) aligned_le_iff [OF dp] b(7) by simp
    moreover have "a < p + 2 ^ j" using pj(3) aligned_less_iff [OF dvd_add [OF dp d]] b(7) by simp
    ultimately have "p = a \<and> j = k" using tiling_same [OF B pj(1) ak, of a] by simp
    with \<open>\<not> j \<le> k\<close> show False by simp
  qed
  then have "(2 :: nat) ^ j dvd 2 ^ k" by (rule le_imp_power_dvd)
  then have "2 ^ j dvd ?b" using b(1) dvd_trans by blast
  then have "\<not> p < ?b" using aligned_add_le [OF tp(3)] pj(3) by fastforce
  with pj have "(?b, j) \<in> B" by simp
  with \<open>j \<le> k\<close> show thesis using that by blast
qed

text \<open>Replacing some blocks by others that cover the same bytes keeps a tiling.\<close>

definition covers :: "nat \<Rightarrow> nat \<times> nat \<Rightarrow> bool" where
  "covers x = (\<lambda>(a, k). a \<le> x \<and> x < a + 2 ^ k)"

lemma overlap_covers: "\<not> (a + 2 ^ k \<le> b \<or> b + 2 ^ j \<le> a) \<Longrightarrow> \<exists>x. covers x (a, k) \<and> covers x (b, j)"
  by (rule exI [of _ "max a b"]) (auto simp: covers_def)

lemma tiling_replace:
  assumes B: "tiling B" and S: "S \<subseteq> B"
    and valid: "\<And>a k. (a, k) \<in> S' \<Longrightarrow> 5 \<le> k \<and> k \<le> 23 \<and> 2 ^ k dvd a \<and> a + 2 ^ k \<le> 2 ^ 23"
    and disj: "\<And>a k b j. (a, k) \<in> S' \<Longrightarrow> (b, j) \<in> S' \<Longrightarrow> (a, k) \<noteq> (b, j) \<Longrightarrow> a + 2 ^ k \<le> b \<or> b + 2 ^ j \<le> a"
    and same: "\<And>x. (\<exists>b \<in> S'. covers x b) = (\<exists>b \<in> S. covers x b)"
  shows "tiling (S' \<union> (B - S))"
proof -
  have cross: "a + 2 ^ k \<le> b \<or> b + 2 ^ j \<le> a" if ak: "(a, k) \<in> B - S" and bj: "(b, j) \<in> S'" for a k b j
  proof (rule ccontr)
    assume "\<not> ?thesis"
    then obtain x where x: "covers x (a, k)" "covers x (b, j)" using overlap_covers by blast
    then obtain c where c: "c \<in> S" "covers x c" using same bj by blast
    with S x(1) ak have "c = (a, k)" using tiling_same [OF B, of a k "fst c" "snd c" x]
      by (cases c) (auto simp: covers_def)
    with ak c show False by simp
  qed
  have cover: "\<exists>b \<in> S' \<union> (B - S). covers x b" if x: "x < 2 ^ 23" for x
  proof -
    obtain a k where "(a, k) \<in> B" "a \<le> x" "x < a + 2 ^ k" by (rule tiling_at [OF B x])
    then have "(a, k) \<in> B" "covers x (a, k)" by (auto simp: covers_def)
    then show ?thesis using same by blast
  qed
  show ?thesis
    unfolding tiling_def
  proof (intro conjI ballI allI impI)
    fix c assume "c \<in> S' \<union> (B - S)"
    then show "case c of (a, k) \<Rightarrow> 5 \<le> k \<and> k \<le> 23 \<and> 2 ^ k dvd a \<and> a + 2 ^ k \<le> 2 ^ 23"
      using valid tilingD [OF B] by (cases c) blast
  next
    fix c assume c: "c \<in> S' \<union> (B - S)"
    show "case c of (a, k) \<Rightarrow> \<forall>(b, j) \<in> S' \<union> (B - S). (a, k) \<noteq> (b, j) \<longrightarrow> a + 2 ^ k \<le> b \<or> b + 2 ^ j \<le> a"
      using c disj cross tiling_disjoint [OF B] by (cases c) blast
  next
    fix x :: nat assume "x < 2 ^ 23"
    then show "\<exists>(a, k) \<in> S' \<union> (B - S). a \<le> x \<and> x < a + 2 ^ k"
      using cover by (fastforce simp: covers_def)
  qed
qed

definition split_block :: "nat \<Rightarrow> nat \<Rightarrow> (nat \<times> nat) set \<Rightarrow> (nat \<times> nat) set" where
  "split_block a k B = {(a, k), (a + 2 ^ k, k)} \<union> (B - {(a, Suc k)})"

definition merge_block :: "nat \<Rightarrow> nat \<Rightarrow> (nat \<times> nat) set \<Rightarrow> (nat \<times> nat) set" where
  "merge_block a k B =
     {(min a (buddy_off a k), Suc k)} \<union> (B - {(a, k), (buddy_off a k, k)})"

lemma tiling_split:
  assumes B: "tiling B" and ak: "(a, Suc k) \<in> B" and k: "5 \<le> k"
  shows "tiling (split_block a k B)"
  unfolding split_block_def
proof (rule tiling_replace [OF B])
  note t = tilingD [OF B ak]
  have d: "2 ^ k dvd a" using t(3) by (rule dvd_trans [rotated]) simp
  show "5 \<le> j \<and> j \<le> 23 \<and> 2 ^ j dvd b \<and> b + 2 ^ j \<le> 2 ^ 23" if "(b, j) \<in> {(a, k), (a + 2 ^ k, k)}" for b j
    using that t k d by auto
qed (use ak in \<open>auto simp: covers_def\<close>)

lemma tiling_merge:
  assumes B: "tiling B" and ak: "(a, k) \<in> B" and bk: "(buddy_off a k, k) \<in> B" and k: "k < 23"
  shows "tiling (merge_block a k B)"
  unfolding merge_block_def
proof (rule tiling_replace [OF B])
  note t = tilingD [OF B ak]
  note b = buddy_off_block [OF t(3,4) k]
  show "5 \<le> j \<and> j \<le> 23 \<and> 2 ^ j dvd c \<and> c + 2 ^ j \<le> 2 ^ 23" if "(c, j) \<in> {(min a (buddy_off a k), Suc k)}" for c j
    using that t b(3,4) k by auto
  show "(\<exists>c \<in> {(min a (buddy_off a k), Suc k)}. covers x c) = (\<exists>c \<in> {(a, k), (buddy_off a k, k)}. covers x c)" for x
    using b(8) by (auto simp: covers_def min_def max_def split: if_splits)
qed (use ak bk in auto)

text \<open>
  A tiling in which no two buddies of the same order occur is the one block: take a smallest
  block; its buddy starts a block that is no larger, so of the same order.
\<close>

lemma tiling_no_buddies:
  assumes B: "tiling B" and nb: "\<And>a k. (a, k) \<in> B \<Longrightarrow> k < 23 \<Longrightarrow> (buddy_off a k, k) \<notin> B"
  shows "B = {(0, 23)}"
proof -
  obtain a0 k0 where 0: "(a0, k0) \<in> B" by (rule tiling_at [OF B, of 0]) auto
  define k where "k = (LEAST k. \<exists>a. (a, k) \<in> B)"
  have "\<exists>a. (a, k) \<in> B" unfolding k_def by (rule LeastI [of _ k0]) (use 0 in blast)
  then obtain a where ak: "(a, k) \<in> B" by blast
  have least: "k \<le> j" if "(b, j) \<in> B" for b j unfolding k_def by (rule Least_le) (use that in blast)
  have "k = 23"
  proof (rule ccontr)
    assume "k \<noteq> 23"
    then have lt: "k < 23" using tilingD(2) [OF B ak] by simp
    then obtain j where "(buddy_off a k, j) \<in> B" "j \<le> k" by (rule tiling_buddy [OF B ak])
    with least nb [OF ak lt] show False by (metis le_antisym)
  qed
  then have a: "a = 0" using tilingD(4) [OF B ak] by simp
  have "(b, j) = (0, 23)" if "(b, j) \<in> B" for b j
  proof -
    have "(0 :: nat) < 2 ^ j" by simp
    then have "b < 2 ^ 23" using tilingD(4) [OF B that] by linarith
    with tiling_same [OF B ak that, of b] a \<open>k = 23\<close> show ?thesis by (simp del: power_numeral)
  qed
  then have "B \<subseteq> {(0, 23)}" unfolding subset_iff split_paired_All by blast
  moreover have "(0, 23) \<in> B" using ak a \<open>k = 23\<close> by simp
  ultimately show ?thesis by blast
qed

end
