(* ===== verification/Heap_Interface.thy ===== *)
theory Heap_Interface
  imports Kernel_Prelude
begin

text \<open>
  What the users of the kernel heap rely on, as a locale: \<open>al\<close> and \<open>fr\<close> are \<^verbatim>\<open>kmalloc\<close> and \<^verbatim>\<open>kfree\<close>, and
  \<open>live\<close> gives the payloads that are allocated, as pairs of address and length. The theory \<open>Heap\<close>
  interprets it on the buddy allocator; the slab caches and the kernel objects that live
  on the heap use it.
\<close>

locale kernel_heap =
  fixes inv :: "'s \<Rightarrow> bool"
    and live :: "'s \<Rightarrow> (nat \<times> nat) set"
    and al :: "u32 \<Rightarrow> 's \<Rightarrow> 's \<times> u32"
    and fr :: "u32 \<Rightarrow> 's \<Rightarrow> 's"
  assumes al_inv: "inv s \<Longrightarrow> al sz s = (s', p) \<Longrightarrow> inv s'"
    and al_null: "inv s \<Longrightarrow> al sz s = (s', 0) \<Longrightarrow> live s' = live s"
    and al_block: "inv s \<Longrightarrow> al sz s = (s', p) \<Longrightarrow> p \<noteq> 0 \<Longrightarrow> unat sz \<le> 2 ^ 22 \<Longrightarrow>
      \<exists>n. unat sz \<le> n \<and> live s' = insert (unat p, n) (live s) \<and> (\<forall>m. (unat p, m) \<notin> live s)"
    and live_range: "inv s \<Longrightarrow> (q, m) \<in> live s \<Longrightarrow> 0 < q \<and> q + m < 2 ^ 32"
    and live_disjoint: "inv s \<Longrightarrow> (q, m) \<in> live s \<Longrightarrow> (r, l) \<in> live s \<Longrightarrow> (q, m) \<noteq> (r, l) \<Longrightarrow>
      q + m < r \<or> r + l < q"
    and fr_inv: "inv s \<Longrightarrow> (unat p, n) \<in> live s \<Longrightarrow> inv (fr p s)"
    and fr_live: "inv s \<Longrightarrow> (unat p, n) \<in> live s \<Longrightarrow> live (fr p s) = live s - {(unat p, n)}"
begin

text \<open>A block that was just allocated and is freed again leaves the live blocks as they were.\<close>

lemma al_fr:
  assumes "inv s" "al sz s = (s', p)" "p \<noteq> 0" "unat sz \<le> 2 ^ 22"
  shows "live (fr p s') = live s"
proof -
  obtain n where n: "live s' = insert (unat p, n) (live s)" "\<forall>m. (unat p, m) \<notin> live s"
    using al_block [OF assms] by blast
  then have "live (fr p s') = live s' - {(unat p, n)}" by (intro fr_live al_inv [OF assms(1,2)]) simp
  with n show ?thesis by auto
qed

end

end
