(* ===== verification/Heap.thy ===== *)
theory Heap
  imports Dll Buddy Heap_Interface
begin

unbundle bit_operations_syntax

text \<open>
  The kernel heap, \<^verbatim>\<open>src/mm/heap.c\<close>: a buddy allocator over the 8 MB at \<open>KHEAP_START\<close>. Block headers and
  the nodes of the free lists live in the heap memory itself; the model keeps them in three
  stores indexed by address: \<open>hdr\<close> for the headers, \<open>fnext\<close> and \<open>fprev\<close> for the list pointers. A list
  node is either one of the static sentinels \<^verbatim>\<open>free_lists[i]\<close> or the node embedded 16 bytes into a
  block. The invariant \<open>heap_inv\<close> describes the blocks abstractly, as a set of (offset, order) pairs
  that tile the heap, and ties the headers and the linked lists to it.
\<close>

section \<open>The code\<close>

definition KHEAP_START :: u32 where "KHEAP_START = 0xD0000000"
definition BUDDY_MIN_ORDER :: nat where "BUDDY_MIN_ORDER = 5"
definition BUDDY_MAX_ORDER :: nat where "BUDDY_MAX_ORDER = 23"
definition BUDDY_NUM_ORDERS :: nat where "BUDDY_NUM_ORDERS = BUDDY_MAX_ORDER - BUDDY_MIN_ORDER + 1"
definition BUDDY_HEAP_SIZE :: u32 where "BUDDY_HEAP_SIZE = push_bit BUDDY_MAX_ORDER 1"
definition BUDDY_MAGIC :: u32 where "BUDDY_MAGIC = 0xBD00CAFE"

text \<open>\<^verbatim>\<open>sizeof(block_hdr_t)\<close>: a word, two bytes, a half word and two words of padding.\<close>

definition HDR_SIZE :: u32 where "HDR_SIZE = 16"

record block_hdr =
  magic :: u32
  order :: u8
  is_free :: u8
  pad :: u16

datatype fnode = Sentinel nat | Node u32

text \<open>
  \<open>hcur\<close> is the part of \<^verbatim>\<open>current_process\<close> the corruption checks write: its state and exit status,
  or nothing before the first process exists; \<open>hsched\<close> counts the calls of \<^verbatim>\<open>schedule\<close>.
\<close>

record heap =
  hdr :: "u32 \<Rightarrow> block_hdr"
  fnext :: "fnode \<Rightarrow> fnode"
  fprev :: "fnode \<Rightarrow> fnode"
  hcur :: "(process_state \<times> int) option"
  hsched :: nat

definition blk_to_fn :: "u32 \<Rightarrow> fnode" where
  "blk_to_fn h = Node (h + HDR_SIZE)"

text \<open>A sentinel has no block in front of it; the allocator pops a list only when it is not empty.\<close>

fun fn_to_blk :: "fnode \<Rightarrow> u32" where
  "fn_to_blk (Node a) = a - HDR_SIZE"
| "fn_to_blk (Sentinel i) = 0"

definition fl_init :: "fnode \<Rightarrow> heap \<Rightarrow> heap" where
  "fl_init s h = h\<lparr>fnext := (fnext h)(s := s), fprev := (fprev h)(s := s)\<rparr>"

definition fl_empty :: "fnode \<Rightarrow> heap \<Rightarrow> bool" where
  "fl_empty s h \<longleftrightarrow> fnext h s = s"

definition fl_add :: "fnode \<Rightarrow> fnode \<Rightarrow> heap \<Rightarrow> heap" where
  "fl_add s n h = (let (nx, pv) = link_after s n (fnext h, fprev h) in h\<lparr>fnext := nx, fprev := pv\<rparr>)"

definition fl_del :: "fnode \<Rightarrow> heap \<Rightarrow> heap" where
  "fl_del n h = (let (nx, pv) = unlink n (fnext h, fprev h) in h\<lparr>fnext := nx, fprev := pv\<rparr>)"

definition fl_pop :: "fnode \<Rightarrow> heap \<Rightarrow> heap \<times> fnode" where
  "fl_pop s h = (let n = fnext h s in (fl_del n h, n))"

definition buddy_of :: "u32 \<Rightarrow> nat \<Rightarrow> u32 option" where
  "buddy_of b ord =
     (let off = b - KHEAP_START;
          buddy_off = off XOR push_bit ord 1
      in if BUDDY_HEAP_SIZE \<le> buddy_off then None else Some (KHEAP_START + buddy_off))"

function order_loop :: "u32 \<Rightarrow> nat \<Rightarrow> nat" where
  "order_loop tot ord =
     (if push_bit ord 1 < tot \<and> ord < BUDDY_MAX_ORDER then order_loop tot (ord + 1) else ord)"
  by auto
termination by (relation "measure (\<lambda>(_, ord). BUDDY_MAX_ORDER - ord)") auto

definition size_to_order :: "u32 \<Rightarrow> nat" where
  "size_to_order sz = order_loop (sz + HDR_SIZE) BUDDY_MIN_ORDER"

definition free_list :: "nat \<Rightarrow> fnode" where
  "free_list k = Sentinel (k - BUDDY_MIN_ORDER)"

definition set_hdr :: "u32 \<Rightarrow> (block_hdr \<Rightarrow> block_hdr) \<Rightarrow> heap \<Rightarrow> heap" where
  "set_hdr b f h = h\<lparr>hdr := (hdr h)(b := f (hdr h b))\<rparr>"

text \<open>The four assignments that make a fresh free block header.\<close>

definition new_hdr :: "nat \<Rightarrow> block_hdr \<Rightarrow> block_hdr" where
  "new_hdr k r = r\<lparr>magic := BUDDY_MAGIC, order := of_nat k, is_free := 1, pad := 0\<rparr>"

text \<open>
  \<^verbatim>\<open>kheap_init\<close>. \<open>map_heap\<close> is its page loop: \<open>al\<close> and \<open>mp\<close> are \<^verbatim>\<open>pmm_alloc_page\<close> and
  \<^verbatim>\<open>vmm_map_page\<close>, on a machine state of their own. It stops at the first failed allocation.
\<close>

fun map_heap :: "('m \<Rightarrow> 'm \<times> u32) \<Rightarrow> (u32 \<Rightarrow> u32 \<Rightarrow> u32 \<Rightarrow> 'm \<Rightarrow> 'm) \<Rightarrow> nat \<Rightarrow> u32 \<Rightarrow> 'm \<Rightarrow> 'm \<times> bool" where
  "map_heap al mp 0 va m = (m, True)"
| "map_heap al mp (Suc n) va m =
     (let (m, phys) = al m in
      if phys = 0 then (m, False)
      else map_heap al mp n (va + of_nat PAGE_SIZE) (mp phys va (VMM_FLAG_PRESENT OR VMM_FLAG_RW) m))"

definition kheap_init ::
    "('m \<Rightarrow> 'm \<times> u32) \<Rightarrow> (u32 \<Rightarrow> u32 \<Rightarrow> u32 \<Rightarrow> 'm \<Rightarrow> 'm) \<Rightarrow> 'm \<Rightarrow> heap \<Rightarrow> 'm \<times> heap" where
  "kheap_init al mp m h =
     (let h = fold (\<lambda>i. fl_init (Sentinel i)) [0..<BUDDY_NUM_ORDERS] h;
          (m, ok) = map_heap al mp (unat BUDDY_HEAP_SIZE div PAGE_SIZE) KHEAP_START m
      in if \<not> ok then (m, h)
         else
           let h = set_hdr KHEAP_START (new_hdr BUDDY_MAX_ORDER) h
           in (m, fl_add (free_list BUDDY_MAX_ORDER) (blk_to_fn KHEAP_START) h))"

function find_order :: "heap \<Rightarrow> nat \<Rightarrow> nat" where
  "find_order h k =
     (if BUDDY_MAX_ORDER < k then k
      else if \<not> fl_empty (free_list k) h then k
      else find_order h (k + 1))"
  by auto
termination by (relation "measure (\<lambda>(_, k). Suc BUDDY_MAX_ORDER - k)") auto

text \<open>The reaction to a corrupted header: the running process becomes a zombie with status 128.\<close>

definition heap_corruption :: "heap \<Rightarrow> heap" where
  "heap_corruption h =
     (case hcur h of None \<Rightarrow> h
      | Some _ \<Rightarrow> h\<lparr>hcur := Some (PROCESS_ZOMBIE, 128), hsched := hsched h + 1\<rparr>)"

text \<open>One round of the splitting loop, with \<^verbatim>\<open>k\<close> already decremented, and the loop.\<close>

definition split_step :: "u32 \<Rightarrow> nat \<Rightarrow> heap \<Rightarrow> heap" where
  "split_step blk k h =
     (let buddy = blk + push_bit k 1;
          h = set_hdr buddy (new_hdr k) h;
          h = fl_add (free_list k) (blk_to_fn buddy) h
      in set_hdr blk (\<lambda>r. r\<lparr>order := of_nat k\<rparr>) h)"

function split_loop :: "u32 \<Rightarrow> nat \<Rightarrow> nat \<Rightarrow> heap \<Rightarrow> heap" where
  "split_loop blk ord k h = (if ord < k then split_loop blk ord (k - 1) (split_step blk (k - 1) h) else h)"
  by auto
termination by (relation "measure (\<lambda>(_, _, k, _). k)") auto

definition kmalloc :: "u32 \<Rightarrow> heap \<Rightarrow> heap \<times> u32" where
  "kmalloc sz h =
     (if sz = 0 then (h, 0)
      else
        let ord = size_to_order sz in
        if BUDDY_MAX_ORDER < ord then (h, 0)
        else
          let k = find_order h ord in
          if BUDDY_MAX_ORDER < k then (h, 0)
          else
            let (h, fn) = fl_pop (free_list k) h;
                blk = fn_to_blk fn
            in if magic (hdr h blk) \<noteq> BUDDY_MAGIC \<or> is_free (hdr h blk) = 0
               then (heap_corruption h, 0)
               else
                 let h = split_loop blk ord k h;
                     h = set_hdr blk (\<lambda>r. r\<lparr>is_free := 0\<rparr>) h
                 in (h, blk + HDR_SIZE))"

text \<open>The coalescing loop of \<^verbatim>\<open>kfree\<close>: the block and the order it ends with.\<close>

function coalesce :: "u32 \<Rightarrow> nat \<Rightarrow> heap \<Rightarrow> heap \<times> u32 \<times> nat" where
  "coalesce blk ord h =
     (if ord < BUDDY_MAX_ORDER then
        case buddy_of blk ord of
          None \<Rightarrow> (h, blk, ord)
        | Some buddy \<Rightarrow>
            if magic (hdr h buddy) \<noteq> BUDDY_MAGIC \<or> is_free (hdr h buddy) = 0 \<or>
               order (hdr h buddy) \<noteq> of_nat ord
            then (h, blk, ord)
            else
              let h = fl_del (blk_to_fn buddy) h;
                  blk = (if buddy < blk then buddy else blk)
              in coalesce blk (ord + 1) (set_hdr blk (\<lambda>r. r\<lparr>order := of_nat (ord + 1)\<rparr>) h)
      else (h, blk, ord))"
  by auto
termination by (relation "measure (\<lambda>(_, ord, _). BUDDY_MAX_ORDER - ord)") auto

definition kfree :: "u32 \<Rightarrow> heap \<Rightarrow> heap" where
  "kfree ptr h =
     (if ptr = 0 then h
      else
        let blk = ptr - HDR_SIZE in
        if magic (hdr h blk) \<noteq> BUDDY_MAGIC then heap_corruption h
        else if is_free (hdr h blk) \<noteq> 0 then heap_corruption h
        else
          let h = set_hdr blk (\<lambda>r. r\<lparr>is_free := 1\<rparr>) h;
              (h, blk, ord) = coalesce blk (unat (order (hdr h blk))) h
          in fl_add (free_list ord) (blk_to_fn blk) h)"

declare order_loop.simps [simp del] find_order.simps [simp del] split_loop.simps [simp del]
  coalesce.simps [simp del]

section \<open>Addresses\<close>

text \<open>The address of an offset into the heap; all arithmetic on it stays below \<open>2 ^ 32\<close>.\<close>

definition addr :: "nat \<Rightarrow> u32" where
  "addr a = KHEAP_START + of_nat a"

definition fnd :: "nat \<Rightarrow> fnode" where
  "fnd a = blk_to_fn (addr a)"

lemma unat_addr: "a < 2 ^ 24 \<Longrightarrow> unat (addr a) = 0xD0000000 + a"
proof -
  assume a: "a < 2 ^ 24"
  have "addr a = of_nat (0xD0000000 + a)" by (simp add: addr_def KHEAP_START_def)
  then show ?thesis unfolding \<open>addr a = _\<close> by (intro unat_of_nat_small) (use a in simp)
qed

lemma addr_eq_iff: "a < 2 ^ 23 \<Longrightarrow> b < 2 ^ 23 \<Longrightarrow> (addr a = addr b) = (a = b)"
  using unat_addr [of a] unat_addr [of b] by (simp add: word_unat_eq_iff)

lemma addr_less_iff: "a < 2 ^ 23 \<Longrightarrow> b < 2 ^ 23 \<Longrightarrow> (addr a < addr b) = (a < b)"
  using unat_addr [of a] unat_addr [of b] by (simp add: word_less_nat_alt)

lemma addr_plus: "addr a + push_bit k 1 = addr (a + 2 ^ k)"
  by (simp add: addr_def algebra_simps)

lemma addr_payload: "addr a + HDR_SIZE = addr (a + 16)"
  by (simp add: addr_def HDR_SIZE_def)

lemma addr_nonzero: "a < 2 ^ 24 \<Longrightarrow> addr a \<noteq> 0"
  using unat_addr [of a] by (simp add: word_unat_eq_iff)

lemma fnd_eq_iff: "a < 2 ^ 23 \<Longrightarrow> b < 2 ^ 23 \<Longrightarrow> (fnd a = fnd b) = (a = b)"
  by (simp add: fnd_def blk_to_fn_def addr_eq_iff)

lemma fnd_not_sentinel: "fnd a \<noteq> free_list k" "free_list k \<noteq> fnd a"
  by (simp_all add: fnd_def blk_to_fn_def free_list_def)

lemma fn_to_blk_fnd: "fn_to_blk (fnd a) = addr a"
  by (simp add: fnd_def blk_to_fn_def)

lemma free_list_eq_iff: "5 \<le> j \<Longrightarrow> 5 \<le> k \<Longrightarrow> (free_list j = free_list k) = (j = k)"
  by (auto simp: free_list_def BUDDY_MIN_ORDER_def)

lemma buddy_of_addr:
  assumes "2 ^ k dvd a" "a + 2 ^ k \<le> 2 ^ 23" "k < 23"
  shows "buddy_of (addr a) k = Some (addr (buddy_off a k))"
proof -
  note b = buddy_off_block [OF assms]
  have "(0 :: nat) < 2 ^ k" by simp
  then have lt: "buddy_off a k < 2 ^ 23" using b(2) by linarith
  have "(of_nat a XOR push_bit k 1 :: u32) = of_nat (a XOR 2 ^ k)"
    by (simp add: of_nat_xor_eq)
  then have off: "(addr a - KHEAP_START) XOR push_bit k 1 = of_nat (buddy_off a k)"
    by (simp add: addr_def buddy_off_xor [OF assms(1)] push_bit_of_1)
  have "unat (of_nat (buddy_off a k) :: u32) = buddy_off a k"
    using lt by (intro unat_of_nat_small) simp
  then have "\<not> BUDDY_HEAP_SIZE \<le> of_nat (buddy_off a k)"
    using lt by (simp add: word_le_nat_alt BUDDY_HEAP_SIZE_def BUDDY_MAX_ORDER_def)
  then show ?thesis unfolding buddy_of_def Let_def off by (simp add: addr_def)
qed

section \<open>The free lists\<close>

text \<open>
  The nineteen rings of free nodes, one per order, as lists of offsets. Blocks of different
  lists are different, so an operation on one ring leaves the others alone.
\<close>

definition rings :: "heap \<Rightarrow> (nat \<Rightarrow> nat list) \<Rightarrow> bool" where
  "rings h L \<longleftrightarrow>
     (\<forall>k. 5 \<le> k \<and> k \<le> 23 \<longrightarrow> ring (fnext h) (fprev h) (free_list k) (map fnd (L k)))"

definition separate :: "(nat \<Rightarrow> nat list) \<Rightarrow> bool" where
  "separate L \<longleftrightarrow>
     (\<forall>k. 5 \<le> k \<and> k \<le> 23 \<longrightarrow> set (L k) \<subseteq> {..<2 ^ 23}) \<and>
     (\<forall>k j. 5 \<le> k \<and> k \<le> 23 \<and> 5 \<le> j \<and> j \<le> 23 \<and> k \<noteq> j \<longrightarrow> set (L k) \<inter> set (L j) = {})"

lemma fnd_image_iff: "a < 2 ^ 23 \<Longrightarrow> A \<subseteq> {..<2 ^ 23} \<Longrightarrow> (fnd a \<in> fnd ` A) = (a \<in> A)"
  using fnd_eq_iff by fastforce

lemma separate_nodes:
  assumes sep: "separate L" and k: "5 \<le> k" "k \<le> 23" and j: "5 \<le> j" "j \<le> 23" and ne: "j \<noteq> k"
  shows "set (free_list j # map fnd (L j)) \<inter> set (free_list k # map fnd (L k)) = {}"
proof -
  have "set (L j) \<inter> set (L k) = {}" "set (L j) \<subseteq> {..<2 ^ 23}" "set (L k) \<subseteq> {..<2 ^ 23}"
    using assms by (auto simp: separate_def)
  then have "fnd ` set (L j) \<inter> fnd ` set (L k) = {}"
    using fnd_image_iff by blast
  then show ?thesis
    using free_list_eq_iff [OF j(1) k(1)] ne by (auto simp: fnd_not_sentinel)
qed

lemma fl_add_fields [simp]:
  "hdr (fl_add s n h) = hdr h" "hcur (fl_add s n h) = hcur h" "hsched (fl_add s n h) = hsched h"
  by (simp_all add: fl_add_def split_beta)

lemma fl_del_fields [simp]:
  "hdr (fl_del n h) = hdr h" "hcur (fl_del n h) = hcur h" "hsched (fl_del n h) = hsched h"
  by (simp_all add: fl_del_def split_beta)

lemma set_hdr_fields [simp]:
  "fnext (set_hdr b f h) = fnext h" "fprev (set_hdr b f h) = fprev h"
  "hcur (set_hdr b f h) = hcur h" "hsched (set_hdr b f h) = hsched h"
  by (simp_all add: set_hdr_def)

lemma rings_set_hdr [simp]: "rings (set_hdr b f h) L = rings h L"
  by (simp add: rings_def)

lemma rings_add:
  assumes r: "rings h L" and sep: "separate L" and k: "5 \<le> k" "k \<le> 23" and a: "a < 2 ^ 23"
    and new: "\<And>j. 5 \<le> j \<Longrightarrow> j \<le> 23 \<Longrightarrow> a \<notin> set (L j)"
  shows "rings (fl_add (free_list k) (fnd a) h) (L(k := a # L k))"
  unfolding rings_def
proof (intro allI impI)
  fix j :: nat assume j: "5 \<le> j \<and> j \<le> 23"
  obtain nx pv where l: "link_after (free_list k) (fnd a) (fnext h, fprev h) = (nx, pv)" by fastforce
  have eq: "fnext (fl_add (free_list k) (fnd a) h) = nx" "fprev (fl_add (free_list k) (fnd a) h) = pv"
    using l by (simp_all add: fl_add_def)
  have out: "fnd a \<notin> set (free_list i # map fnd (L i))" if "5 \<le> i" "i \<le> 23" for i
    using that new a sep fnd_image_iff [of a "set (L i)"] by (auto simp: separate_def fnd_not_sentinel)
  have rk: "ring (fnext h) (fprev h) (free_list k) (map fnd (L k))" using r k by (simp add: rings_def)
  have rj: "ring (fnext h) (fprev h) (free_list j) (map fnd (L j))" using r j by (simp add: rings_def)
  show "ring (fnext (fl_add (free_list k) (fnd a) h)) (fprev (fl_add (free_list k) (fnd a) h))
      (free_list j) (map fnd ((L(k := a # L k)) j))"
  proof (cases "j = k")
    case True
    with link_after_ring [OF rk out [OF k] l] show ?thesis by (simp add: eq)
  next
    case False
    have "set (free_list j # map fnd (L j)) \<inter> set (fnd a # free_list k # map fnd (L k)) = {}"
      using separate_nodes [OF sep k _ _ False] out [of j] j by auto
    with link_after_other [OF rk l] rj False show ?thesis by (simp add: eq)
  qed
qed

lemma rings_del:
  assumes r: "rings h L" and sep: "separate L" and k: "5 \<le> k" "k \<le> 23" and L: "L k = as @ a # bs"
  shows "rings (fl_del (fnd a) h) (L(k := as @ bs))"
  unfolding rings_def
proof (intro allI impI)
  fix j :: nat assume j: "5 \<le> j \<and> j \<le> 23"
  obtain nx pv where l: "unlink (fnd a) (fnext h, fprev h) = (nx, pv)" by fastforce
  have eq: "fnext (fl_del (fnd a) h) = nx" "fprev (fl_del (fnd a) h) = pv"
    using l by (simp_all add: fl_del_def)
  have rk: "ring (fnext h) (fprev h) (free_list k) (map fnd as @ fnd a # map fnd bs)"
    using r k L unfolding rings_def by (metis list.simps(9) map_append)
  have rj: "ring (fnext h) (fprev h) (free_list j) (map fnd (L j))" using r j by (simp add: rings_def)
  show "ring (fnext (fl_del (fnd a) h)) (fprev (fl_del (fnd a) h)) (free_list j)
      (map fnd ((L(k := as @ bs)) j))"
  proof (cases "j = k")
    case True
    with unlink_ring [OF rk l] show ?thesis by (simp add: eq)
  next
    case False
    have "set (free_list j # map fnd (L j)) \<inter> set (free_list k # map fnd as @ fnd a # map fnd bs) = {}"
      using separate_nodes [OF sep k _ _ False] j L by simp
    with unlink_other [OF rk l] rj False show ?thesis by (simp add: eq)
  qed
qed

section \<open>The invariant\<close>

text \<open>
  \<open>hinv h B L hole\<close>: the blocks \<open>B\<close> tile the heap; each has a header with the magic number and its
  order; the free list of order \<open>k\<close> holds exactly the free blocks of that order; and no two buddies are
  free at the same order. Between taking a block out of its list and marking it allocated, and
  between marking a block free and linking it, that block is the \<open>hole\<close>: free, but in no list and
  exempt from the last condition.
\<close>

definition hfree :: "heap \<Rightarrow> nat \<Rightarrow> bool" where
  "hfree h a \<longleftrightarrow> is_free (hdr h (addr a)) \<noteq> 0"

definition hinv :: "heap \<Rightarrow> (nat \<times> nat) set \<Rightarrow> (nat \<Rightarrow> nat list) \<Rightarrow> nat option \<Rightarrow> bool" where
  "hinv h B L hole \<longleftrightarrow>
     tiling B \<and>
     (\<forall>(a, k) \<in> B. magic (hdr h (addr a)) = BUDDY_MAGIC \<and> order (hdr h (addr a)) = of_nat k) \<and>
     rings h L \<and>
     (\<forall>k. 5 \<le> k \<and> k \<le> 23 \<longrightarrow> set (L k) = {a. (a, k) \<in> B \<and> hfree h a \<and> hole \<noteq> Some a}) \<and>
     (\<forall>(a, k) \<in> B. k < 23 \<and> (buddy_off a k, k) \<in> B \<and> hfree h a \<and> hfree h (buddy_off a k) \<longrightarrow>
        hole = Some a \<or> hole = Some (buddy_off a k)) \<and>
     (\<forall>a. hole = Some a \<longrightarrow> hfree h a)"

definition heap_inv :: "heap \<Rightarrow> (nat \<times> nat) set \<Rightarrow> bool" where
  "heap_inv h B \<longleftrightarrow> (\<exists>L. hinv h B L None)"

text \<open>The allocated blocks.\<close>

definition allocated :: "heap \<Rightarrow> (nat \<times> nat) set \<Rightarrow> (nat \<times> nat) set" where
  "allocated h B = {(a, k) \<in> B. \<not> hfree h a}"

lemma hinvD:
  assumes "hinv h B L hole"
  shows "tiling B" "rings h L"
    and "(a, k) \<in> B \<Longrightarrow> magic (hdr h (addr a)) = BUDDY_MAGIC"
    and "(a, k) \<in> B \<Longrightarrow> order (hdr h (addr a)) = of_nat k"
    and "5 \<le> k \<Longrightarrow> k \<le> 23 \<Longrightarrow> set (L k) = {a. (a, k) \<in> B \<and> hfree h a \<and> hole \<noteq> Some a}"
    and "hole = Some a \<Longrightarrow> hfree h a"
    and "(a, k) \<in> B \<Longrightarrow> k < 23 \<Longrightarrow> (buddy_off a k, k) \<in> B \<Longrightarrow> hfree h a \<Longrightarrow> hfree h (buddy_off a k) \<Longrightarrow>
        hole = Some a \<or> hole = Some (buddy_off a k)"
  using assms by (simp_all add: hinv_def split_beta) fastforce+

lemma tiling_lt: "tiling B \<Longrightarrow> (a, k) \<in> B \<Longrightarrow> a < 2 ^ 23"
  using tilingD(4) [of B a k] zero_less_power [of "2 :: nat" k] by linarith

lemma hinv_separate:
  assumes "hinv h B L hole"
  shows "separate L"
proof -
  note i = hinvD [OF assms]
  have "set (L k) \<subseteq> {..<2 ^ 23}" if "5 \<le> k \<and> k \<le> 23" for k
    using i(5) [of k] that tiling_lt [OF i(1)] by blast
  moreover have "set (L k) \<inter> set (L j) = {}" if "5 \<le> k \<and> k \<le> 23 \<and> 5 \<le> j \<and> j \<le> 23 \<and> k \<noteq> j" for k j
    using i(5) [of k] i(5) [of j] that tiling_start [OF i(1)] by blast
  ultimately show ?thesis unfolding separate_def by blast
qed

lemma hdr_set: "a < 2 ^ 23 \<Longrightarrow> b < 2 ^ 23 \<Longrightarrow>
    hdr (set_hdr (addr b) f h) (addr a) = (if a = b then f (hdr h (addr a)) else hdr h (addr a))"
  by (simp add: set_hdr_def addr_eq_iff)

lemma hfree_set: "a < 2 ^ 23 \<Longrightarrow> b < 2 ^ 23 \<Longrightarrow>
    hfree (set_hdr (addr b) f h) a = (if a = b then is_free (f (hdr h (addr a))) \<noteq> 0 else hfree h a)"
  by (simp add: hfree_def hdr_set)

lemma hfree_list [simp]: "hfree (fl_add s n h) a = hfree h a" "hfree (fl_del n h) a = hfree h a"
  by (simp_all add: hfree_def)

lemma new_hdr_fields [simp]:
  "magic (new_hdr k r) = BUDDY_MAGIC" "order (new_hdr k r) = of_nat k" "is_free (new_hdr k r) = 1"
  by (simp_all add: new_hdr_def)

section \<open>Allocation\<close>

text \<open>The search finds the smallest order at or above the requested one with a free block.\<close>

lemma find_order_spec:
  assumes "rings h L" "5 \<le> k"
  shows "k \<le> find_order h k \<and> (\<forall>j. k \<le> j \<and> j < find_order h k \<and> j \<le> 23 \<longrightarrow> L j = []) \<and>
         (find_order h k \<le> 23 \<longrightarrow> L (find_order h k) \<noteq> [])"
  using assms
proof (induction h k rule: find_order.induct)
  case (1 h k)
  have e: "fl_empty (free_list k) h = (L k = [])" if "k \<le> 23"
  proof -
    have "ring (fnext h) (fprev h) (free_list k) (map fnd (L k))" using 1 that by (simp add: rings_def)
    from ring_empty_iff [OF this] show ?thesis by (simp add: fl_empty_def)
  qed
  show ?case
  proof (cases "k \<le> 23 \<and> L k = []")
    case True
    then have f: "find_order h k = find_order h (k + 1)"
      by (subst find_order.simps) (simp add: e BUDDY_MAX_ORDER_def)
    have "k + 1 \<le> find_order h (k + 1) \<and>
        (\<forall>j. k + 1 \<le> j \<and> j < find_order h (k + 1) \<and> j \<le> 23 \<longrightarrow> L j = []) \<and>
        (find_order h (k + 1) \<le> 23 \<longrightarrow> L (find_order h (k + 1)) \<noteq> [])"
      by (rule "1.IH") (use True 1 in \<open>auto simp: e BUDDY_MAX_ORDER_def\<close>)
    then show ?thesis unfolding f using True by (metis Suc_eq_plus1 Suc_leD le_neq_implies_less Suc_leI)
  next
    case False
    then have f: "find_order h k = k"
      by (subst find_order.simps) (auto simp: e BUDDY_MAX_ORDER_def)
    show ?thesis unfolding f using False by auto
  qed
qed

lemma pop_spec:
  assumes inv: "hinv h B L None" and k: "5 \<le> k" "k \<le> 23" and L: "L k = a # as"
  shows "fl_pop (free_list k) h = (fl_del (fnd a) h, fnd a)"
    and "hinv (fl_del (fnd a) h) B (L(k := as)) (Some a)"
    and "(a, k) \<in> B" "hfree h a" "allocated (fl_del (fnd a) h) B = allocated h B"
proof -
  note i = hinvD [OF inv]
  have rk: "ring (fnext h) (fprev h) (free_list k) (fnd a # map fnd as)"
    using i(2) k L unfolding rings_def by (metis list.simps(9))
  show "fl_pop (free_list k) h = (fl_del (fnd a) h, fnd a)"
    using ring_first [OF rk] by (simp add: fl_pop_def Let_def)
  have "distinct (fnd a # map fnd as)" using rk by (simp add: ring_def)
  then have a: "a \<notin> set as" by auto
  show ak: "(a, k) \<in> B" "hfree h a" using i(5) [OF k] L by auto
  have lists: "set ((L(k := as)) j) = {b. (b, j) \<in> B \<and> hfree h b \<and> Some a \<noteq> Some b}"
    if "5 \<le> j \<and> j \<le> 23" for j
  proof (cases "j = k")
    case True
    with i(5) [OF k] L have "insert a (set as) = {b. (b, k) \<in> B \<and> hfree h b}" by simp
    with True a show ?thesis by auto
  next
    case False
    with i(5) [of j] that tiling_start [OF i(1) ak(1)] show ?thesis by auto
  qed
  show "hinv (fl_del (fnd a) h) B (L(k := as)) (Some a)"
    unfolding hinv_def
    using inv rings_del [OF i(2) hinv_separate [OF inv] k, of "[]" a as] L lists ak(2)
    by (auto simp: hinv_def)
  show "allocated (fl_del (fnd a) h) B = allocated h B" by (simp add: allocated_def)
qed

text \<open>One round of the splitting loop: the upper half becomes a free block, the hole its lower half.\<close>

lemma split_step_hdr:
  assumes "a < 2 ^ 23" "a + 2 ^ k < 2 ^ 23" "b < 2 ^ 23"
  shows "hdr (split_step (addr a) k h) (addr b) =
    (if b = a then (hdr h (addr a))\<lparr>order := of_nat k\<rparr>
     else if b = a + 2 ^ k then new_hdr k (hdr h (addr b)) else hdr h (addr b))"
  using assms by (simp add: split_step_def Let_def addr_plus [simplified] hdr_set)

lemma split_step_hfree:
  assumes "a < 2 ^ 23" "a + 2 ^ k < 2 ^ 23" "b < 2 ^ 23"
  shows "hfree (split_step (addr a) k h) b = (b = a + 2 ^ k \<or> hfree h b)"
  by (auto simp: hfree_def split_step_hdr [OF assms])

lemma split_step_spec:
  assumes inv: "hinv h B L (Some a)" and ak: "(a, Suc k) \<in> B" and k: "5 \<le> k"
  shows "hinv (split_step (addr a) k h) (split_block a k B) (L(k := (a + 2 ^ k) # L k)) (Some a)"
    and "allocated (split_step (addr a) k h) (split_block a k B) = allocated h B"
proof -
  note i = hinvD [OF inv]
  note t = tilingD [OF i(1) ak]
  define c where "c = a + 2 ^ k"
  let ?h = "split_step (addr a) k h" and ?B = "split_block a k B"
  have pos: "(0 :: nat) < 2 ^ k" by simp
  have lt: "a < 2 ^ 23" "a + 2 ^ k < 2 ^ 23" using t(4) pos unfolding power_Suc by linarith+
  have ca: "c \<noteq> a" using pos by (simp add: c_def)
  have c: "(c, j) \<notin> B" for j using tiling_inside [OF i(1) ak, of c j] pos by (auto simp: c_def)
  have a: "j = Suc k" if "(a, j) \<in> B" for j using tiling_start [OF i(1) ak that] by simp
  have B: "tiling ?B" by (rule tiling_split [OF i(1) ak k])
  note bl = tiling_lt [OF B]
  have mem: "(b, j) \<in> ?B \<longleftrightarrow> (b = a \<or> b = c) \<and> j = k \<or> b \<noteq> a \<and> b \<noteq> c \<and> (b, j) \<in> B" for b j
    using a c ca by (auto simp: split_block_def simp flip: c_def)
  note fr_a = split_step_hfree [OF lt lt(1), of h, folded c_def]
  have fr: "hfree ?h b = (b = c \<or> hfree h b)" if "(b, j) \<in> ?B" for b j
    using split_step_hfree [OF lt bl [OF that]] by (simp add: c_def)
  have hd: "magic (hdr ?h (addr b)) = BUDDY_MAGIC \<and> order (hdr ?h (addr b)) = of_nat j" if "(b, j) \<in> ?B" for b j
    using that i(3,4) i(3) [OF ak]
    by (auto simp: split_step_hdr [OF lt bl [OF that], folded c_def] mem)
  have "rings (set_hdr (addr c) (new_hdr k) h) L" using i(2) by simp
  then have "rings (fl_add (free_list k) (fnd c) (set_hdr (addr c) (new_hdr k) h)) (L(k := c # L k))"
    by (rule rings_add [OF _ hinv_separate [OF inv]])
      (use k t(2) lt(2) c i(5) in \<open>auto simp flip: c_def\<close>)
  then have r: "rings ?h (L(k := c # L k))"
    by (simp add: split_step_def Let_def addr_plus [simplified] fnd_def c_def)
  have lists: "set ((L(k := c # L k)) j) = {b. (b, j) \<in> ?B \<and> hfree ?h b \<and> Some a \<noteq> Some b}"
    if "5 \<le> j \<and> j \<le> 23" for j
  proof -
    have "{b. (b, j) \<in> ?B \<and> hfree ?h b \<and> Some a \<noteq> Some b} =
        {b. (b, j) \<in> ?B \<and> (b = c \<or> hfree h b) \<and> b \<noteq> a}"
      by (rule Collect_cong) (use fr [of _ j] in blast)
    also have "\<dots> = (if j = k then insert c (set (L k)) else set (L j))"
      using i(5) [of j] that ca c unfolding mem by auto
    finally show ?thesis by simp
  qed
  have co: "Some a = Some b \<or> Some a = Some (buddy_off b j)"
    if bj: "(b, j) \<in> ?B" "j < 23" "(buddy_off b j, j) \<in> ?B" "hfree ?h b" "hfree ?h (buddy_off b j)" for b j
  proof (rule ccontr)
    assume ne: "\<not> ?thesis"
    have inv: "buddy_off (buddy_off b j) j = b"
      by (rule buddy_off_block(6)) (use tilingD [OF B bj(1)] bj(2) in auto)
    have "b \<noteq> c" "buddy_off b j \<noteq> c"
      using ne inv buddy_off_halves [OF t(3), folded c_def] bj(1,3) ca c unfolding mem by auto
    with ne bj i(7) [of b j] show False using fr [OF bj(1)] fr [OF bj(3)] unfolding mem by blast
  qed
  show "hinv ?h ?B (L(k := (a + 2 ^ k) # L k)) (Some a)"
    unfolding hinv_def c_def [symmetric] using B hd r lists co fr_a i(6) by blast
  show "allocated ?h ?B = allocated h B"
  proof (rule set_eqI)
    fix x :: "nat \<times> nat"
    show "(x \<in> allocated ?h ?B) = (x \<in> allocated h B)"
      using fr [of "fst x" "snd x"] mem [of "fst x" "snd x"] i(6) [OF refl] c [of "snd x"]
      by (cases x) (auto simp: allocated_def)
  qed
qed

lemma split_loop_spec:
  assumes "hinv h B L (Some a)" "(a, k) \<in> B" "5 \<le> ord" "ord \<le> k"
  shows "\<exists>B' L'. hinv (split_loop (addr a) ord k h) B' L' (Some a) \<and> (a, ord) \<in> B' \<and>
           allocated (split_loop (addr a) ord k h) B' = allocated h B"
  using assms
proof (induction k arbitrary: h B L)
  case (Suc k)
  show ?case
  proof (cases "ord = Suc k")
    case False
    then have ord: "ord \<le> k" "5 \<le> k" using Suc.prems by auto
    note st = split_step_spec [OF Suc.prems(1,2) ord(2)]
    have "(a, k) \<in> split_block a k B" by (simp add: split_block_def)
    from Suc.IH [OF st(1) this Suc.prems(3) ord(1)] st(2) False Suc.prems(4) show ?thesis
      by (subst (1 2) split_loop.simps) auto
  qed (use Suc.prems in \<open>auto simp: split_loop.simps\<close>)
qed simp

text \<open>Marking the hole allocated ends an allocation, marking a block free starts a deallocation.\<close>

lemma mark_spec:
  assumes "tiling B" "(a, k) \<in> B"
  shows "allocated (set_hdr (addr a) (\<lambda>r. r\<lparr>is_free := v\<rparr>) h) B =
    (if v = 0 then insert (a, k) (allocated h B) else allocated h B - {(a, k)})"
proof (rule set_eqI)
  note lt = tiling_lt [OF assms(1)]
  fix x :: "nat \<times> nat"
  obtain b j where x: "x = (b, j)" by fastforce
  show "(x \<in> allocated (set_hdr (addr a) (\<lambda>r. r\<lparr>is_free := v\<rparr>) h) B) =
    (x \<in> (if v = 0 then insert (a, k) (allocated h B) else allocated h B - {(a, k)}))"
    using hfree_set [OF lt lt [OF assms(2)], of b j] assms(2) tiling_start [OF assms, of j]
    by (auto simp: allocated_def x split: if_splits)
qed

lemma set_free_hinv:
  assumes inv: "hinv h B L hole" and ak: "(a, k) \<in> B"
    and h': "h' = set_hdr (addr a) (\<lambda>r. r\<lparr>is_free := v\<rparr>) h"
    and cases: "hole = Some a \<and> v = 0 \<and> hole' = None \<or> hole = None \<and> \<not> hfree h a \<and> v = 1 \<and> hole' = Some a"
  shows "hinv h' B L hole'"
proof -
  note i = hinvD [OF inv]
  note lt = tiling_lt [OF i(1)]
  have fr: "hfree h' b = (if b = a then v \<noteq> 0 else hfree h b)" if "(b, j) \<in> B" for b j
    unfolding h' using hfree_set [OF lt [OF that] lt [OF ak]] by simp
  have hd: "magic (hdr h' (addr b)) = BUDDY_MAGIC \<and> order (hdr h' (addr b)) = of_nat j" if "(b, j) \<in> B" for b j
    unfolding h' using hdr_set [OF lt [OF that] lt [OF ak]] i(3,4) [OF that] by auto
  have r: "rings h' L" using i(2) by (simp add: h')
  have lists: "set (L j) = {b. (b, j) \<in> B \<and> hfree h' b \<and> hole' \<noteq> Some b}" if "5 \<le> j \<and> j \<le> 23" for j
    using i(5) [of j] that fr [of _ j] cases by (auto split: if_splits)
  have co: "hole' = Some b \<or> hole' = Some (buddy_off b j)"
    if bj: "(b, j) \<in> B" "j < 23" "(buddy_off b j, j) \<in> B" "hfree h' b" "hfree h' (buddy_off b j)" for b j
    using fr [OF bj(1)] fr [OF bj(3)] bj i(7) [OF bj(1,2,3)] cases by (auto split: if_splits)
  have "hfree h' b" if "hole' = Some b" for b using that fr [OF ak] cases by auto
  with i(1) hd r lists co show ?thesis unfolding hinv_def by blast
qed

text \<open>What \<^verbatim>\<open>kmalloc\<close> does to a well-formed heap, on every path.\<close>

lemma order_loop_bounds: "ord \<le> 23 \<Longrightarrow> ord \<le> order_loop tot ord \<and> order_loop tot ord \<le> 23"
  by (induction tot ord rule: order_loop.induct) (subst (1 2) order_loop.simps, auto simp: BUDDY_MAX_ORDER_def)

lemma size_to_order_bounds: "5 \<le> size_to_order sz" "size_to_order sz \<le> 23"
  using order_loop_bounds [of 5] by (auto simp: size_to_order_def BUDDY_MIN_ORDER_def)

lemma kmalloc_spec:
  assumes inv: "heap_inv h B" and r: "kmalloc sz h = (h', p)"
  obtains (none) "p = 0" "h' = h" "sz = 0 \<or> (\<forall>(a, k) \<in> B. hfree h a \<longrightarrow> k < size_to_order sz)"
  | (block) B' a where "heap_inv h' B'" "p = addr a + HDR_SIZE" "sz \<noteq> 0" "(a, size_to_order sz) \<in> B'"
      "a \<notin> fst ` allocated h B"
      "allocated h' B' = insert (a, size_to_order sz) (allocated h B)"
proof (cases "sz = 0")
  case True
  with r show thesis by (intro none) (auto simp: kmalloc_def)
next
  case False
  obtain L where L: "hinv h B L None" using inv by (auto simp: heap_inv_def)
  note i = hinvD [OF L]
  define ord where "ord = size_to_order sz"
  have o: "5 \<le> ord" "ord \<le> 23" unfolding ord_def by (rule size_to_order_bounds)+
  define k where "k = find_order h ord"
  have k: "ord \<le> k" "\<And>j. ord \<le> j \<Longrightarrow> j < k \<Longrightarrow> j \<le> 23 \<Longrightarrow> L j = []" "k \<le> 23 \<Longrightarrow> L k \<noteq> []"
    using find_order_spec [OF i(2) o(1)] by (auto simp: k_def)
  show thesis
  proof (cases "k \<le> 23")
    case False
    have "j < ord" if "(a, j) \<in> B" "hfree h a" for a j
      using i(5) [of j] tilingD(1,2) [OF i(1) that(1)] that k(2) [of j] False by (cases "j < ord") auto
    moreover have "(h', p) = (h, 0)"
      using r False o \<open>sz \<noteq> 0\<close> by (simp add: kmalloc_def BUDDY_MAX_ORDER_def flip: ord_def k_def)
    ultimately show thesis by (intro none) (auto simp: ord_def)
  next
    case True
    then obtain a as where La: "L k = a # as" using k(3) by (cases "L k") auto
    have k5: "5 \<le> k" using k(1) o(1) by simp
    note pop = pop_spec [OF L k5 True La]
    let ?h = "fl_del (fnd a) h"
    obtain B' L' where B': "hinv (split_loop (addr a) ord k ?h) B' L' (Some a)" "(a, ord) \<in> B'"
        "allocated (split_loop (addr a) ord k ?h) B' = allocated h B"
      using split_loop_spec [OF pop(2,3) o(1) k(1)] pop(5) by auto
    have "(h', p) = (set_hdr (addr a) (\<lambda>r. r\<lparr>is_free := 0\<rparr>) (split_loop (addr a) ord k ?h), addr a + HDR_SIZE)"
      using r True False o pop(1,4) \<open>sz \<noteq> 0\<close> i(3) [OF pop(3)]
      by (simp add: kmalloc_def BUDDY_MAX_ORDER_def Let_def fn_to_blk_fnd hfree_def flip: ord_def k_def)
    then have h': "h' = set_hdr (addr a) (\<lambda>r. r\<lparr>is_free := 0\<rparr>) (split_loop (addr a) ord k ?h)"
      and p: "p = addr a + HDR_SIZE" by auto
    have "hinv h' B' L' None" by (rule set_free_hinv [OF B'(1,2) h']) simp
    moreover have "a \<notin> fst ` allocated h B" using pop(4) by (auto simp: allocated_def)
    moreover have "allocated h' B' = insert (a, ord) (allocated h B)"
      unfolding h' using mark_spec [OF hinvD(1) [OF B'(1)] B'(2), of 0] B'(3) by simp
    ultimately show thesis using B'(2) p \<open>sz \<noteq> 0\<close> by (intro block) (auto simp: heap_inv_def ord_def)
  qed
qed

section \<open>Deallocation\<close>

text \<open>One round of the coalescing loop: the hole and its free buddy become a hole of twice the size.\<close>

lemma merge_step_spec:
  assumes inv: "hinv h B L (Some a)" and ak: "(a, k) \<in> B" and k: "k < 23"
    and bk: "(buddy_off a k, k) \<in> B" and free: "hfree h (buddy_off a k)"
    and m: "m = min a (buddy_off a k)"
    and h': "h' = set_hdr (addr m) (\<lambda>r. r\<lparr>order := of_nat (Suc k)\<rparr>) (fl_del (fnd (buddy_off a k)) h)"
  shows "\<exists>L'. hinv h' (merge_block a k B) L' (Some m)"
    and "allocated h' (merge_block a k B) = allocated h B"
proof -
  note i = hinvD [OF inv]
  note t = tilingD [OF i(1) ak]
  define b where "b = buddy_off a k"
  note bb = buddy_off_block [OF t(3,4) k, folded b_def]
  note bk = bk [folded b_def] and free = free [folded b_def] and m = m [folded b_def]
  let ?B = "merge_block a k B"
  have B: "tiling ?B" using bk by (intro tiling_merge [OF i(1) ak _ k]) (simp add: b_def)
  have mab: "m = a \<or> m = b" by (simp add: m min_def)
  have start: "j = k" if "(a, j) \<in> B \<or> (b, j) \<in> B" for j
    using that tiling_start [OF i(1) ak] tiling_start [OF i(1) bk] by auto
  have mem: "(x, j) \<in> ?B \<longleftrightarrow> x = m \<and> j = Suc k \<or> x \<noteq> a \<and> x \<noteq> b \<and> (x, j) \<in> B" for x j
    using start by (auto simp: merge_block_def m simp flip: b_def)
  note lt = tiling_lt [OF B] and ltm = tiling_lt [OF B, of m "Suc k"]
  have m_in: "m < 2 ^ 23" using ltm by (simp add: mem)
  have fr: "hfree h' x = hfree h x" if "x < 2 ^ 23" for x
    using hfree_set [OF that m_in] by (auto simp: h' hfree_def split: if_splits)
  have hd: "magic (hdr h' (addr x)) = BUDDY_MAGIC \<and> order (hdr h' (addr x)) = of_nat j" if "(x, j) \<in> ?B" for x j
    using that mab i(3) [OF ak] i(3) [OF bk] i(3,4) [of x j] hdr_set [OF lt [OF that] m_in]
    unfolding mem h' by (auto split: if_splits)
  have "b \<in> set (L k)" using i(5) [OF t(1,2)] bk free bb(5) by auto
  then obtain as bs where Lk: "L k = as @ b # bs" by (meson split_list)
  have "distinct (map fnd (L k))" using i(2) t(1,2) by (simp add: rings_def ring_def)
  then have nb: "b \<notin> set as" "b \<notin> set bs" by (auto simp: Lk)
  have r: "rings h' (L(k := as @ bs))"
    using rings_del [OF i(2) hinv_separate [OF inv] t(1,2) Lk] by (simp add: h' b_def)
  have lists: "set ((L(k := as @ bs)) j) = {x. (x, j) \<in> ?B \<and> hfree h' x \<and> Some m \<noteq> Some x}"
    if j: "5 \<le> j \<and> j \<le> 23" for j
  proof -
    have "{x. (x, j) \<in> ?B \<and> hfree h' x \<and> Some m \<noteq> Some x} = {x. (x, j) \<in> B \<and> hfree h x \<and> x \<noteq> a \<and> x \<noteq> b}"
      using mab fr [OF lt, of _ j] by (auto simp: mem)
    also have "\<dots> = set (L j) - {b}" using i(5) [of j] j by auto
    also have "\<dots> = set ((L(k := as @ bs)) j)"
    proof (cases "j = k")
      case True
      with Lk nb show ?thesis by auto
    next
      case False
      with start [of j] i(5) [of j] j have "b \<notin> set (L j)" by blast
      with False show ?thesis by simp
    qed
    finally show ?thesis by simp
  qed
  have co: "Some m = Some x \<or> Some m = Some (buddy_off x j)"
    if xj: "(x, j) \<in> ?B" "j < 23" "(buddy_off x j, j) \<in> ?B" "hfree h' x" "hfree h' (buddy_off x j)" for x j
    using xj(1,3) i(7) [of x j] xj(2,4,5) fr [OF lt [OF xj(1)]] fr [OF lt [OF xj(3)]] unfolding mem by auto
  have "hfree h' m" using mab free i(6) [of a] fr [OF m_in] by auto
  then show "\<exists>L'. hinv h' ?B L' (Some m)"
    using B hd r lists co unfolding hinv_def by (intro exI [of _ "L(k := as @ bs)"]) blast
  show "allocated h' ?B = allocated h B"
  proof (rule set_eqI)
    fix x :: "nat \<times> nat"
    show "(x \<in> allocated h' ?B) = (x \<in> allocated h B)"
      using mem [of "fst x" "snd x"] fr [OF lt, of "fst x" "snd x"] \<open>hfree h' m\<close> free i(6) [of a]
      by (cases x) (auto simp: allocated_def)
  qed
qed

lemma coalesce_spec:
  assumes "hinv h B L (Some a)" "(a, k) \<in> B" "coalesce (addr a) k h = (h', p, r)"
  shows "\<exists>B' L' a'. p = addr a' \<and> hinv h' B' L' (Some a') \<and> (a', r) \<in> B' \<and>
    allocated h' B' = allocated h B \<and>
    (r < 23 \<longrightarrow> \<not> ((buddy_off a' r, r) \<in> B' \<and> hfree h' (buddy_off a' r)))"
  using assms
proof (induction "23 - k" arbitrary: k a h B L)
  case 0
  then have "k = 23" using tilingD(2) [OF hinvD(1)] by force
  with 0 show ?case by (subst (asm) coalesce.simps) (auto simp: BUDDY_MAX_ORDER_def)
next
  case (Suc n)
  note i = hinvD [OF Suc.prems(1)]
  note t = tilingD [OF i(1) Suc.prems(2)]
  have k: "k < 23" using Suc.hyps(2) by simp
  define b where "b = buddy_off a k"
  note ba = buddy_off_block [OF t(3,4) k, folded b_def]
  have buddy: "buddy_of (addr a) k = Some (addr b)" unfolding b_def by (rule buddy_of_addr [OF t(3,4) k])
  obtain j where bj: "(b, j) \<in> B" "j \<le> k" using tiling_buddy [OF i(1) Suc.prems(2) k] b_def by blast
  have same: "(order (hdr h (addr b)) = of_nat k) = (j = k)"
    unfolding i(4) [OF bj(1)] using bj(2) k by (intro of_nat_word_eq_iff) auto
  show ?case
  proof (cases "hfree h b \<and> j = k")
    case False
    then have "(h', p, r) = (h, addr a, k)"
      using Suc.prems(3) k buddy same
      by (subst (asm) coalesce.simps) (auto simp: BUDDY_MAX_ORDER_def hfree_def)
    moreover have "\<not> ((b, k) \<in> B \<and> hfree h b)" using False tiling_start [OF i(1) bj(1)] by auto
    ultimately show ?thesis using Suc.prems b_def by blast
  next
    case True
    let ?m = "min a b"
    let ?h = "set_hdr (addr ?m) (\<lambda>r. r\<lparr>order := of_nat (Suc k)\<rparr>) (fl_del (fnd b) h)"
    have "(if addr b < addr a then addr b else addr a) = addr ?m"
      using addr_less_iff [OF tiling_lt [OF i(1) bj(1)] tiling_lt [OF i(1) Suc.prems(2)]]
      by (auto simp: min_def)
    then have c: "coalesce (addr ?m) (Suc k) ?h = (h', p, r)"
      using Suc.prems(3) k buddy same True i(3) [OF bj(1)]
      by (subst (asm) coalesce.simps)
        (simp add: BUDDY_MAX_ORDER_def hfree_def Let_def fnd_def del: of_nat_Suc)
    have "(b, k) \<in> B" "hfree h b" using bj True by auto
    note ms = merge_step_spec [OF Suc.prems(1,2) k, folded b_def, OF this refl refl]
    obtain L' where L': "hinv ?h (merge_block a k B) L' (Some ?m)" using ms(1) by blast
    have "(?m, Suc k) \<in> merge_block a k B" by (simp add: merge_block_def b_def)
    from Suc.hyps(1) [OF _ L' this c] Suc.hyps(2) ms(2) show ?thesis by auto
  qed
qed

lemma link_hole:
  assumes inv: "hinv h B L (Some a)" and ak: "(a, k) \<in> B"
    and nb: "k < 23 \<longrightarrow> \<not> ((buddy_off a k, k) \<in> B \<and> hfree h (buddy_off a k))"
  shows "hinv (fl_add (free_list k) (fnd a) h) B (L(k := a # L k)) None"
proof -
  note i = hinvD [OF inv]
  note t = tilingD [OF i(1) ak]
  have a: "j = k" if "(a, j) \<in> B" for j using tiling_start [OF i(1) ak that] by simp
  have r: "rings (fl_add (free_list k) (fnd a) h) (L(k := a # L k))"
    by (rule rings_add [OF i(2) hinv_separate [OF inv] t(1,2) tiling_lt [OF i(1) ak]]) (use i(5) in auto)
  have lists: "set ((L(k := a # L k)) j) = {b. (b, j) \<in> B \<and> hfree h b \<and> None \<noteq> Some b}" if "5 \<le> j \<and> j \<le> 23" for j
  proof (cases "j = k")
    case True
    with i(5) [of k] that ak i(6) [of a] show ?thesis by auto
  next
    case False
    with i(5) [of j] that have "set (L j) = {b. (b, j) \<in> B \<and> hfree h b \<and> b \<noteq> a}" by auto
    with False a [of j] show ?thesis by auto
  qed
  have co: False
    if bj: "(b, j) \<in> B" "j < 23" "(buddy_off b j, j) \<in> B" "hfree h b" "hfree h (buddy_off b j)" for b j
  proof -
    have "buddy_off (buddy_off b j) j = b"
      by (rule buddy_off_block(6)) (use tilingD [OF i(1) bj(1)] bj(2) in auto)
    with i(7) [OF bj] bj a [of j] nb show False by auto
  qed
  show ?thesis unfolding hinv_def using i(1,3,4) r lists co by auto
qed

lemma kfree_spec:
  assumes inv: "heap_inv h B" and ak: "(a, k) \<in> allocated h B"
  shows "\<exists>B'. heap_inv (kfree (addr a + HDR_SIZE) h) B' \<and>
    allocated (kfree (addr a + HDR_SIZE) h) B' = allocated h B - {(a, k)}"
proof -
  obtain L where L: "hinv h B L None" using inv by (auto simp: heap_inv_def)
  note i = hinvD [OF L]
  have B: "(a, k) \<in> B" and nf: "\<not> hfree h a" using ak by (auto simp: allocated_def)
  have lt: "a < 2 ^ 23" by (rule tiling_lt [OF i(1) B])
  have nz: "addr a + HDR_SIZE \<noteq> 0" unfolding addr_payload by (rule addr_nonzero) (use lt in simp)
  let ?h = "set_hdr (addr a) (\<lambda>r. r\<lparr>is_free := 1\<rparr>) h"
  have "hinv ?h B L (Some a)" by (rule set_free_hinv [OF L B refl]) (use nf in simp)
  moreover have ord: "unat (order (hdr ?h (addr a))) = k"
    using hdr_set [OF lt lt] i(4) [OF B] tilingD(2) [OF i(1) B] by (simp add: unat_of_nat_small)
  moreover obtain h1 p r where c: "coalesce (addr a) k ?h = (h1, p, r)" by (cases "coalesce (addr a) k ?h")
  ultimately obtain B' L' a' where *: "p = addr a'" "hinv h1 B' L' (Some a')" "(a', r) \<in> B'"
      "allocated h1 B' = allocated ?h B"
      "r < 23 \<longrightarrow> \<not> ((buddy_off a' r, r) \<in> B' \<and> hfree h1 (buddy_off a' r))"
    using coalesce_spec [OF _ B c] by blast
  have "kfree (addr a + HDR_SIZE) h = fl_add (free_list r) (fnd a') h1"
    using nz nf i(3) [OF B] ord c *(1) by (simp add: kfree_def Let_def hfree_def fnd_def)
  moreover have "heap_inv (fl_add (free_list r) (fnd a') h1) B'"
    using link_hole [OF *(2,3,5)] by (auto simp: heap_inv_def)
  moreover have "allocated (fl_add (free_list r) (fnd a') h1) B' = allocated h B - {(a, k)}"
    using *(4) mark_spec [OF i(1) B, of 1 h] by (simp add: allocated_def)
  ultimately show ?thesis by auto
qed

section \<open>Sizes, initialisation and repeated frees\<close>

lemma order_loop_spec:
  assumes "5 \<le> ord" "ord \<le> 23" "ord = 5 \<or> 2 ^ (ord - 1) < unat tot"
  shows "(order_loop tot ord = 5 \<or> 2 ^ (order_loop tot ord - 1) < unat tot) \<and>
    (unat tot \<le> 2 ^ 23 \<longrightarrow> unat tot \<le> 2 ^ order_loop tot ord)"
  using assms
proof (induction tot ord rule: order_loop.induct)
  case (1 tot ord)
  have lt: "(push_bit ord 1 < tot) = (2 ^ ord < unat tot)"
    using 1(3) by (simp add: word_less_nat_alt unat_two_power)
  show ?case
  proof (cases "push_bit ord 1 < tot \<and> ord < BUDDY_MAX_ORDER")
    case True
    then have "order_loop tot ord = order_loop tot (ord + 1)" by (subst order_loop.simps) simp
    with True lt 1 show ?thesis by (simp add: BUDDY_MAX_ORDER_def)
  next
    case False
    then have "order_loop tot ord = ord" by (subst order_loop.simps) auto
    with False lt 1 show ?thesis by (cases "ord = 23") (auto simp: BUDDY_MAX_ORDER_def)
  qed
qed

text \<open>Up to 8 MB less the header, the order is the least one that holds the request and the header.\<close>

lemma size_to_order_fits:
  assumes "unat sz \<le> 2 ^ 23 - 16"
  shows "unat sz + 16 \<le> 2 ^ size_to_order sz"
    and "5 \<le> k \<Longrightarrow> k < size_to_order sz \<Longrightarrow> 2 ^ k < unat sz + 16"
proof -
  have u: "unat (sz + HDR_SIZE) = unat sz + 16"
    using assms unat_add_lem [of sz HDR_SIZE] by (simp add: HDR_SIZE_def)
  note s = order_loop_spec [of 5 "sz + HDR_SIZE", unfolded u]
  show "unat sz + 16 \<le> 2 ^ size_to_order sz"
    using s assms by (simp add: size_to_order_def BUDDY_MIN_ORDER_def)
  assume k: "5 \<le> k" "k < size_to_order sz"
  then have "(2 :: nat) ^ k \<le> 2 ^ (size_to_order sz - 1)" by (intro power_increasing) auto
  also have "\<dots> < unat sz + 16"
    using s k by (auto simp: size_to_order_def BUDDY_MIN_ORDER_def)
  finally show "2 ^ k < unat sz + 16" .
qed

lemma fold_fl_init:
  "fnext (fold (\<lambda>i. fl_init (Sentinel i)) [0..<n] h) (Sentinel i) = (if i < n then Sentinel i else fnext h (Sentinel i))"
  "fprev (fold (\<lambda>i. fl_init (Sentinel i)) [0..<n] h) (Sentinel i) = (if i < n then Sentinel i else fprev h (Sentinel i))"
  by (induction n) (auto simp: fl_init_def)

lemma rings_init: "rings (fold (\<lambda>i. fl_init (Sentinel i)) [0..<BUDDY_NUM_ORDERS] h) (\<lambda>_. [])"
  by (auto simp: rings_def ring_def free_list_def fold_fl_init BUDDY_NUM_ORDERS_def BUDDY_MAX_ORDER_def
      BUDDY_MIN_ORDER_def)

lemma tiling_whole: "tiling {(0, 23)}"
  by (simp add: tiling_def)

lemma hinv_whole:
  assumes "rings h (\<lambda>_. [])"
  shows "hinv (fl_add (free_list 23) (fnd 0) (set_hdr (addr 0) (new_hdr 23) h)) {(0, 23)}
           ((\<lambda>_. [])(23 := [0])) None"
proof -
  let ?h = "set_hdr (addr 0) (new_hdr 23) h"
  have hd: "hdr ?h (addr 0) = new_hdr 23 (hdr h (addr 0))" by (rule hdr_set [of 0 0, simplified])
  have "rings ?h (\<lambda>_. [])" using assms by simp
  then have "rings (fl_add (free_list 23) (fnd 0) ?h) ((\<lambda>_. [])(23 := [0]))"
    using rings_add [of ?h "\<lambda>_. []" 23 0] by (simp add: separate_def)
  then show ?thesis
    using hd tiling_whole by (auto simp: hinv_def hfree_def)
qed

lemma allocated_whole: "(allocated h {(0, 23)} = {}) = hfree h 0"
proof -
  have "allocated h {(0, 23)} = {x. x = (0, 23) \<and> \<not> hfree h (fst x)}" unfolding allocated_def by auto
  then show ?thesis by (simp add: Collect_conv_if)
qed

lemma kmalloc_empty:
  assumes "rings h (\<lambda>_. [])"
  shows "kmalloc sz h = (h, 0)"
proof -
  have "23 < find_order h (size_to_order sz)"
    using find_order_spec [OF assms size_to_order_bounds(1)] linorder_not_less by blast
  then show ?thesis by (simp add: kmalloc_def Let_def BUDDY_MAX_ORDER_def)
qed

text \<open>Coalescing changes no magic number and no free flag.\<close>

lemma coalesce_flags:
  "coalesce blk ord h = (h', p, r) \<Longrightarrow>
     magic (hdr h' x) = magic (hdr h x) \<and> is_free (hdr h' x) = is_free (hdr h x)"
proof (induction blk ord h arbitrary: h' p r rule: coalesce.induct)
  case (1 blk ord h)
  show ?case
  proof (cases "coalesce blk ord h = (h, blk, ord)")
    case False
    then obtain buddy where b: "ord < BUDDY_MAX_ORDER" "buddy_of blk ord = Some buddy"
      "\<not> (magic (hdr h buddy) \<noteq> BUDDY_MAGIC \<or> is_free (hdr h buddy) = 0 \<or> order (hdr h buddy) \<noteq> of_nat ord)"
      by (subst (asm) coalesce.simps) (auto split: if_splits option.splits)
    let ?blk = "if buddy < blk then buddy else blk"
    let ?h = "set_hdr ?blk (\<lambda>r. r\<lparr>order := of_nat (ord + 1)\<rparr>) (fl_del (blk_to_fn buddy) h)"
    have "coalesce blk ord h = coalesce ?blk (ord + 1) ?h"
      using b by (subst coalesce.simps) (simp add: Let_def)
    with "1.IH" [OF b refl refl, of h' p r] "1.prems" show ?thesis by (simp add: set_hdr_def)
  qed (use "1.prems" in simp)
qed

section \<open>The heap as a provider\<close>

text \<open>The headers determine the tiling, so the allocated payloads are a function of the heap.\<close>

lemma heap_inv_unique_mem:
  assumes 1: "hinv h B1 L1 None" and 2: "hinv h B2 L2 None"
  shows "(a, k) \<in> B1 \<Longrightarrow> (a, k) \<in> B2"
proof (induction a arbitrary: k rule: less_induct)
  case (less a)
  note t1 = hinvD [OF 1] and t2 = hinvD [OF 2]
  obtain d i where d: "(d, i) \<in> B2" "d \<le> a" "a < d + 2 ^ i"
    using tiling_at [OF t2(1) tiling_lt [OF t1(1) less.prems]] by blast
  have "\<not> d < a"
  proof
    assume "d < a"
    then have "a - 1 < 2 ^ 23" using tiling_lt [OF t1(1) less.prems] by simp
    then obtain c j where c: "(c, j) \<in> B1" "c \<le> a - 1" "a - 1 < c + 2 ^ j" by (rule tiling_at [OF t1(1)])
    then have "c < a" "(c, j) \<noteq> (a, k)" using \<open>d < a\<close> by auto
    then have "c + 2 ^ j \<le> a \<or> a + 2 ^ k \<le> c" using tiling_disjoint [OF t1(1) c(1) less.prems] by simp
    then have fin: "c + 2 ^ j \<le> a" using \<open>c < a\<close> by auto
    have "(c, j) \<in> B2" using less.IH [OF \<open>c < a\<close> c(1)] .
    moreover have "d \<le> a - 1" "a - 1 < d + 2 ^ i" using \<open>d < a\<close> d by auto
    ultimately have "c = d \<and> j = i" using tiling_same [OF t2(1) _ d(1), of c j "a - 1"] c by blast
    with fin d(3) show False by simp
  qed
  then have da: "(a, i) \<in> B2" using d by simp
  have "(of_nat i :: u8) = of_nat k" using t1(4) [OF less.prems] t2(4) [OF da] by simp
  moreover have "i < 2 ^ LENGTH(8)" "k < 2 ^ LENGTH(8)"
    using tilingD(2) [OF t2(1) da] tilingD(2) [OF t1(1) less.prems] by auto
  ultimately have "i = k" by (simp add: of_nat_word_eq_iff)
  with da show ?case by simp
qed

lemma heap_inv_unique: "heap_inv h B1 \<Longrightarrow> heap_inv h B2 \<Longrightarrow> B1 = B2"
  using heap_inv_unique_mem unfolding heap_inv_def by (metis subsetI subset_antisym surj_pair)

definition kheap_ok :: "heap \<Rightarrow> bool" where
  "kheap_ok h \<longleftrightarrow> (\<exists>B. heap_inv h B)"

definition payload :: "nat \<times> nat \<Rightarrow> nat \<times> nat" where
  "payload = (\<lambda>(a, k). (0xD0000010 + a, 2 ^ k - 16))"

definition kheap_live :: "heap \<Rightarrow> (nat \<times> nat) set" where
  "kheap_live h = {q. \<exists>B. heap_inv h B \<and> q \<in> payload ` allocated h B}"

lemma kheap_live_eq: "heap_inv h B \<Longrightarrow> kheap_live h = payload ` allocated h B"
  using heap_inv_unique by (auto simp: kheap_live_def)

lemma unat_payload: "a < 2 ^ 23 \<Longrightarrow> unat (addr a + HDR_SIZE) = 0xD0000010 + a"
  unfolding addr_payload using unat_addr [of "a + 16"] by simp

lemma allocatedD:
  assumes "heap_inv h B" "(a, k) \<in> allocated h B"
  shows "tiling B" "(a, k) \<in> B" "a < 2 ^ 23"
proof -
  obtain L where "hinv h B L None" using assms(1) by (auto simp: heap_inv_def)
  then show "tiling B" by (rule hinvD)
  show "(a, k) \<in> B" using assms(2) by (simp add: allocated_def)
  then show "a < 2 ^ 23" by (rule tiling_lt [OF \<open>tiling B\<close>])
qed

lemma payload_room: "tiling B \<Longrightarrow> (a, k) \<in> B \<Longrightarrow> 32 \<le> (2 :: nat) ^ k"
  using tilingD(1) [of B a k] power_increasing [of 5 k "2 :: nat"] by simp

interpretation kheap: kernel_heap kheap_ok kheap_live kmalloc kfree
proof unfold_locales
  fix s s' sz p
  assume ok: "kheap_ok s" and r: "kmalloc sz s = (s', p)"
  then obtain B where B: "heap_inv s B" by (auto simp: kheap_ok_def)
  from B r show "kheap_ok s'" using ok by (cases rule: kmalloc_spec) (auto simp: kheap_ok_def)
  assume p: "p \<noteq> 0" and sz: "unat sz \<le> 2 ^ 22"
  from B r show "\<exists>n. unat sz \<le> n \<and> kheap_live s' = insert (unat p, n) (kheap_live s) \<and> (\<forall>m. (unat p, m) \<notin> kheap_live s)"
  proof (cases rule: kmalloc_spec)
    case (block B' a)
    let ?k = "size_to_order sz"
    have "(a, ?k) \<in> allocated s' B'" using block(6) by simp
    note a = allocatedD [OF block(1) this]
    have up: "unat p = 0xD0000010 + a" unfolding block(2) by (rule unat_payload [OF a(3)])
    have "unat sz \<le> 2 ^ ?k - 16" using size_to_order_fits(1) [of sz] sz by simp
    moreover have "kheap_live s' = insert (unat p, 2 ^ ?k - 16) (kheap_live s)"
      unfolding kheap_live_eq [OF B] kheap_live_eq [OF block(1)] block(6) up by (simp add: payload_def)
    moreover have "(unat p, m) \<notin> kheap_live s" for m
      unfolding kheap_live_eq [OF B] up using block(5) by (force simp: payload_def)
    ultimately show ?thesis by blast
  qed (use p in simp)
next
  fix s s' sz
  assume ok: "kheap_ok s" and r: "kmalloc sz s = (s', 0)"
  then obtain B where B: "heap_inv s B" by (auto simp: kheap_ok_def)
  from B r show "kheap_live s' = kheap_live s"
  proof (cases rule: kmalloc_spec)
    case (block B' a)
    have "(a, size_to_order sz) \<in> allocated s' B'" using block(6) by simp
    note a = allocatedD [OF block(1) this]
    have "unat (0 :: u32) = 0xD0000010 + a" unfolding block(2) by (rule unat_payload [OF a(3)])
    then show ?thesis by simp
  qed simp
next
  fix s q m
  assume ok: "kheap_ok s" and q: "(q, m) \<in> kheap_live s"
  then obtain B where B: "heap_inv s B" by (auto simp: kheap_ok_def)
  then obtain a k where ak: "(a, k) \<in> allocated s B" "q = 0xD0000010 + a" "m = 2 ^ k - 16"
    using q kheap_live_eq [OF B] by (auto simp: payload_def)
  note a = allocatedD [OF B ak(1)]
  show "0 < q \<and> q + m < 2 ^ 32" using ak tilingD(4) [OF a(1,2)] payload_room [OF a(1,2)] by simp
next
  fix s p n q m
  assume ok: "kheap_ok s" and q: "(p, n) \<in> kheap_live s" "(q, m) \<in> kheap_live s" "(p, n) \<noteq> (q, m)"
  then obtain B where B: "heap_inv s B" by (auto simp: kheap_ok_def)
  obtain a k where ak: "(a, k) \<in> allocated s B" "p = 0xD0000010 + a" "n = 2 ^ k - 16"
    using q(1) kheap_live_eq [OF B] by (auto simp: payload_def)
  obtain b j where bj: "(b, j) \<in> allocated s B" "q = 0xD0000010 + b" "m = 2 ^ j - 16"
    using q(2) kheap_live_eq [OF B] by (auto simp: payload_def)
  note a = allocatedD [OF B ak(1)] and b = allocatedD [OF B bj(1)]
  have "(a, k) \<noteq> (b, j)" using q(3) ak bj by auto
  from tiling_disjoint [OF a(1,2) b(2) this] show "p + n < q \<or> q + m < p"
    using ak(2,3) bj(2,3) payload_room [OF a(1,2)] payload_room [OF b(1,2)] by auto
next
  fix s n and p :: u32
  assume ok: "kheap_ok s" and p: "(unat p, n) \<in> kheap_live s"
  then obtain B where B: "heap_inv s B" by (auto simp: kheap_ok_def)
  then obtain a k where ak: "(a, k) \<in> allocated s B" "unat p = 0xD0000010 + a" "n = 2 ^ k - 16"
    using p kheap_live_eq [OF B] by (auto simp: payload_def)
  note a = allocatedD [OF B ak(1)]
  have pa: "p = addr a + HDR_SIZE" using unat_payload [OF a(3)] ak(2) by (simp add: word_unat_eq_iff)
  obtain B' where B': "heap_inv (kfree p s) B'" "allocated (kfree p s) B' = allocated s B - {(a, k)}"
    using kfree_spec [OF B ak(1)] pa by auto
  then show "kheap_ok (kfree p s)" by (auto simp: kheap_ok_def)
  have "inj_on payload (allocated s B)"
  proof (rule inj_onI)
    fix x y assume xy: "x \<in> allocated s B" "y \<in> allocated s B" "payload x = payload y"
    then have "fst x = fst y" by (auto simp: payload_def split_beta)
    moreover have "(fst x, snd x) \<in> B" "(fst y, snd y) \<in> B" using xy by (auto simp: allocated_def)
    ultimately show "x = y" using tiling_start [OF a(1)] by (metis prod_eqI)
  qed
  then have "payload ` (allocated s B - {(a, k)}) = payload ` allocated s B - payload ` {(a, k)}"
    by (rule inj_on_image_set_diff) (use ak(1) in auto)
  then show "kheap_live (kfree p s) = kheap_live s - {(unat p, n)}"
    unfolding kheap_live_eq [OF B] kheap_live_eq [OF B'(1)] B'(2) ak(2,3) by (simp add: payload_def)
qed

section \<open>The contract of the heap\<close>

text \<open>
  C7. Initialisation. When every page of the heap could be mapped, \<^verbatim>\<open>kheap_init\<close> leaves a well-formed
  heap of one free block of 8 MB; when a page allocation fails the free lists stay empty, and every
  later \<^verbatim>\<open>kmalloc\<close> returns null and changes nothing.
\<close>

theorem kheap_init_correct:
  assumes "kheap_init al mp m h = (m', h')"
  shows "if snd (map_heap al mp 2048 KHEAP_START m)
         then heap_inv h' {(0, 23)} \<and> allocated h' {(0, 23)} = {}
         else (\<forall>sz. kmalloc sz h' = (h', 0))"
proof -
  let ?h = "fold (\<lambda>i. fl_init (Sentinel i)) [0..<BUDDY_NUM_ORDERS] h"
  have sz: "unat BUDDY_HEAP_SIZE div PAGE_SIZE = 2048"
    by (simp add: BUDDY_HEAP_SIZE_def BUDDY_MAX_ORDER_def PAGE_SIZE_def)
  show ?thesis
  proof (cases "snd (map_heap al mp 2048 KHEAP_START m)")
    case True
    let ?h1 = "fl_add (free_list 23) (fnd 0) (set_hdr (addr 0) (new_hdr 23) ?h)"
    have inv: "hinv ?h1 {(0, 23)} ((\<lambda>_. [])(23 := [0])) None" by (rule hinv_whole [OF rings_init])
    have "h' = ?h1"
      using assms True by (simp add: kheap_init_def sz Let_def split_beta fnd_def addr_def BUDDY_MAX_ORDER_def)
    moreover have "hfree ?h1 0" using hinvD(5) [OF inv, of 23] by auto
    ultimately show ?thesis using inv True by (auto simp: heap_inv_def allocated_whole)
  next
    case False
    then have "h' = ?h" using assms by (simp add: kheap_init_def sz Let_def split_beta)
    with False show ?thesis using kmalloc_empty [OF rings_init] by simp
  qed
qed

lemma map_heap_succeeds: "(\<And>m. snd (al m) \<noteq> 0) \<Longrightarrow> snd (map_heap al mp n va m)"
  by (induction n arbitrary: va m) (auto simp: split_beta Let_def)

text \<open>A concrete heap: memory full of zero bytes, an allocator that never fails.\<close>

definition demo_heap :: heap where
  "demo_heap = snd (kheap_init (\<lambda>m. (m, 0x1000)) (\<lambda>_ _ _ m. m) (0 :: nat)
     \<lparr>hdr = \<lambda>_. \<lparr>magic = 0, order = 0, is_free = 0, pad = 0\<rparr>, fnext = \<lambda>_. Sentinel 0, fprev = \<lambda>_. Sentinel 0,
      hcur = None, hsched = 0\<rparr>)"

lemma demo_heap_inv: "heap_inv demo_heap {(0, 23)}" "allocated demo_heap {(0, 23)} = {}"
proof -
  let ?h0 = "\<lparr>hdr = \<lambda>_. \<lparr>magic = 0, order = 0, is_free = 0, pad = 0\<rparr>, fnext = \<lambda>_. Sentinel 0,
      fprev = \<lambda>_. Sentinel 0, hcur = None, hsched = 0\<rparr>"
  let ?h1 = "fl_add (free_list 23) (fnd 0) (set_hdr (addr 0) (new_hdr 23)
      (fold (\<lambda>i. fl_init (Sentinel i)) [0..<BUDDY_NUM_ORDERS] ?h0))"
  have inv: "hinv ?h1 {(0, 23)} ((\<lambda>_. [])(23 := [0])) None" by (rule hinv_whole [OF rings_init])
  have "demo_heap = ?h1"
    unfolding demo_heap_def kheap_init_def
    using map_heap_succeeds [of "\<lambda>m. (m, 0x1000)" "\<lambda>_ _ _ m. m" _ _ "0 :: nat"]
    by (simp add: Let_def split_beta fnd_def addr_def BUDDY_MAX_ORDER_def)
  moreover have "hfree ?h1 0" using hinvD(5) [OF inv, of 23] by auto
  ultimately show "heap_inv demo_heap {(0, 23)}" "allocated demo_heap {(0, 23)} = {}"
    using inv by (auto simp: heap_inv_def allocated_whole)
qed

theorem kheap_init_correct_witness:
  "snd (map_heap (\<lambda>m. (m, 0x1000)) (\<lambda>_ _ _ m. m) 2048 KHEAP_START (0 :: nat)) \<and>
   heap_inv (snd (kheap_init (\<lambda>m. (m, 0x1000)) (\<lambda>_ _ _ m. m) (0 :: nat) demo_heap)) {(0, 23)}"
  using kheap_init_correct [OF prod.collapse [symmetric], of "\<lambda>m. (m, 0x1000)" "\<lambda>_ _ _ m. m" "0 :: nat" demo_heap]
    map_heap_succeeds [of "\<lambda>m. (m, 0x1000)" "\<lambda>_ _ _ m. m" 2048 KHEAP_START "0 :: nat"] by simp

text \<open>
  C5. Allocation. On a well-formed heap, a request of at most 8 MB less the header either fails,
  changing nothing, and then every free block is too small; or returns the payload of a block that
  was not allocated, is large enough for header and payload, and is now the only new
  allocated block of a well-formed heap. So live allocations never overlap.
\<close>

theorem kmalloc_correct:
  assumes "heap_inv h B" "kmalloc sz h = (h', p)" "0 < sz" "unat sz \<le> 2 ^ 23 - 16"
  shows "if p = 0 then h' = h \<and> (\<forall>(a, k) \<in> B. hfree h a \<longrightarrow> 2 ^ k < unat sz + 16)
    else \<exists>B' a k. heap_inv h' B' \<and> p = addr (a + 16) \<and> (a, k) \<in> B' \<and> unat sz + 16 \<le> 2 ^ k \<and>
      (a, k) \<notin> allocated h B \<and> allocated h' B' = insert (a, k) (allocated h B)"
  using assms(1,2)
proof (cases rule: kmalloc_spec)
  case none
  obtain L where "hinv h B L None" using assms(1) by (auto simp: heap_inv_def)
  then have "tiling B" by (rule hinvD)
  then have "2 ^ k < unat sz + 16" if "(a, k) \<in> B" "hfree h a" for a k
    using none(3) that assms(3) size_to_order_fits(2) [OF assms(4) tilingD(1)] by auto
  with none show ?thesis by auto
next
  case (block B' a)
  obtain L where "hinv h' B' L None" using block(1) by (auto simp: heap_inv_def)
  then have "a < 2 ^ 23" by (intro tiling_lt [OF hinvD(1) block(4)])
  then have "p \<noteq> 0" unfolding block(2) addr_payload by (intro addr_nonzero) simp
  moreover have "(a, size_to_order sz) \<notin> allocated h B" using block(5) by force
  ultimately show ?thesis
    using block size_to_order_fits(1) [OF assms(4)] by (auto simp: addr_payload)
qed

theorem kmalloc_correct_witness:
  "\<exists>h' p. kmalloc 100 demo_heap = (h', p) \<and> p \<noteq> 0 \<and> (\<exists>B' a k. heap_inv h' B' \<and> allocated h' B' = {(a, k)} \<and> 116 \<le> (2 :: nat) ^ k)"
proof -
  obtain h' p where r: "kmalloc 100 demo_heap = (h', p)" by fastforce
  have "hfree demo_heap 0" using demo_heap_inv(2) by (simp add: allocated_whole)
  then have "p \<noteq> 0" using kmalloc_correct [OF demo_heap_inv(1) r] by (auto split: if_splits)
  moreover have "\<exists>B' a k. heap_inv h' B' \<and> allocated h' B' = {(a, k)} \<and> 116 \<le> (2 :: nat) ^ k"
    using kmalloc_correct [OF demo_heap_inv(1) r] \<open>p \<noteq> 0\<close> demo_heap_inv(2) by auto
  ultimately show ?thesis using r by auto
qed

text \<open>A heap with one live allocation, for the witnesses of the theorems on \<^verbatim>\<open>kfree\<close>.\<close>

lemma demo_allocation:
  obtains h B a k where "heap_inv h B" "allocated h B = {(a, k)}" "h = fst (kmalloc 100 demo_heap)"
proof -
  obtain h p where r: "kmalloc 100 demo_heap = (h, p)" by fastforce
  from demo_heap_inv(1) r show thesis
  proof (cases rule: kmalloc_spec)
    case none
    moreover have "hfree demo_heap 0" using demo_heap_inv(2) by (simp add: allocated_whole)
    ultimately show thesis using size_to_order_bounds(2) [of 100] by auto
  next
    case (block B' a)
    with r demo_heap_inv(2) show thesis by (intro that [of h B' a]) auto
  qed
qed

text \<open>
  C6. Deallocation. Freeing an allocated block removes exactly that block from the allocated
  set and keeps the heap well-formed, with buddies coalesced; once nothing is allocated the heap is
  again the single block of 8 MB, whatever the order of the frees was.
\<close>

theorem kfree_correct:
  assumes "heap_inv h B" "(a, k) \<in> allocated h B"
  shows "\<exists>B'. heap_inv (kfree (addr (a + 16)) h) B' \<and>
    allocated (kfree (addr (a + 16)) h) B' = allocated h B - {(a, k)} \<and>
    (allocated h B = {(a, k)} \<longrightarrow> B' = {(0, 23)})"
proof -
  let ?h = "kfree (addr a + HDR_SIZE) h"
  obtain B' where B': "heap_inv ?h B'" "allocated ?h B' = allocated h B - {(a, k)}"
    using kfree_spec [OF assms] by blast
  obtain L where L: "hinv ?h B' L None" using B'(1) by (auto simp: heap_inv_def)
  have "B' = {(0, 23)}" if "allocated ?h B' = {}"
  proof (rule tiling_no_buddies [OF hinvD(1) [OF L]])
    fix b j assume "(b, j) \<in> B'" "j < 23"
    with that hinvD(7) [OF L, of b j] show "(buddy_off b j, j) \<notin> B'" by (auto simp: allocated_def)
  qed
  with B' show ?thesis by (auto simp: addr_payload)
qed

theorem kfree_correct_witness:
  "\<exists>h B a k. heap_inv h B \<and> (a, k) \<in> allocated h B \<and> heap_inv (kfree (addr (a + 16)) h) {(0, 23)}"
proof (rule demo_allocation)
  fix h B a k assume *: "heap_inv h B" "allocated h B = {(a, k)}"
  then show ?thesis
    using kfree_correct [of h B a k] by (intro exI [of _ h] exI [of _ B] exI [of _ a] exI [of _ k]) auto
qed

text \<open>
  A second free of the same pointer is recognised: the header still carries the magic number
  and the free flag even after it was merged into a larger block, so the heap is left as it is and
  only the running process is made a zombie.
\<close>

theorem kfree_twice_detected:
  assumes "heap_inv h B" "(a, k) \<in> allocated h B"
  shows "kfree (addr (a + 16)) (kfree (addr (a + 16)) h) = heap_corruption (kfree (addr (a + 16)) h)"
proof -
  obtain L where L: "hinv h B L None" using assms by (auto simp: heap_inv_def)
  have B: "(a, k) \<in> B" and nf: "is_free (hdr h (addr a)) = 0" using assms(2) by (auto simp: allocated_def hfree_def)
  have lt: "a < 2 ^ 23" by (rule tiling_lt [OF hinvD(1) [OF L] B])
  have nz: "addr (a + 16) \<noteq> 0" by (rule addr_nonzero) (use lt in simp)
  have blk: "addr (a + 16) - HDR_SIZE = addr a" by (simp flip: addr_payload)
  let ?h = "set_hdr (addr a) (\<lambda>r. r\<lparr>is_free := 1\<rparr>) h"
  obtain h1 p r where c: "coalesce (addr a) (unat (order (hdr ?h (addr a)))) ?h = (h1, p, r)"
    by (cases "coalesce (addr a) (unat (order (hdr ?h (addr a)))) ?h")
  have k1: "kfree (addr (a + 16)) h = fl_add (free_list r) (blk_to_fn p) h1"
    using nz nf hinvD(3) [OF L B] c by (simp add: kfree_def blk Let_def)
  have "is_free (hdr h1 (addr a)) \<noteq> 0" "magic (hdr h1 (addr a)) = BUDDY_MAGIC"
    using coalesce_flags [OF c, of "addr a"] hdr_set [OF lt lt] hinvD(3) [OF L B] by auto
  then show ?thesis using nz unfolding k1 by (subst kfree_def) (simp add: blk Let_def)
qed

theorem kfree_twice_detected_witness:
  "\<exists>h B a k. heap_inv h B \<and> (a, k) \<in> allocated h B \<and>
     kfree (addr (a + 16)) (kfree (addr (a + 16)) h) = heap_corruption (kfree (addr (a + 16)) h)"
proof (rule demo_allocation)
  fix h B a k assume *: "heap_inv h B" "allocated h B = {(a, k)}"
  then have "(a, k) \<in> allocated h B" by simp
  with *(1) kfree_twice_detected [OF *(1) this] show ?thesis by blast
qed

text \<open>
  C8. Requests that no block can hold are not refused. The search for an order stops at 23 even if
  8 MB do not suffice, so the check \<^verbatim>\<open>order > BUDDY_MAX_ORDER\<close> never fires, and for the largest sizes
  the addition of the header wraps around: on an empty heap \<^verbatim>\<open>kmalloc\<close> returns a block that is smaller
  than the request.
\<close>

theorem kmalloc_oversized:
  assumes "heap_inv h {(0, 23)}" "allocated h {(0, 23)} = {}" "2 ^ 23 - 16 < unat sz" "kmalloc sz h = (h', p)"
  shows "\<exists>B' a k. p = addr (a + 16) \<and> p \<noteq> 0 \<and> heap_inv h' B' \<and> allocated h' B' = {(a, k)} \<and> 2 ^ k < unat sz + 16"
  using assms(1,4)
proof (cases rule: kmalloc_spec)
  case none
  then have "sz = 0" using assms(2) size_to_order_bounds(2) [of sz] by (auto simp: allocated_def)
  with assms(3) show ?thesis by simp
next
  case (block B' a)
  obtain L where "hinv h' B' L None" using block(1) by (auto simp: heap_inv_def)
  then have "a < 2 ^ 23" by (intro tiling_lt [OF hinvD(1) block(4)])
  then have "addr (a + 16) \<noteq> 0" by (intro addr_nonzero) simp
  moreover have "(2 :: nat) ^ size_to_order sz \<le> 2 ^ 23" using size_to_order_bounds(2) by (intro power_increasing) auto
  ultimately show ?thesis
    using block assms(2,3)
    by (intro exI [of _ B'] exI [of _ a] exI [of _ "size_to_order sz"]) (simp add: addr_payload)
qed

theorem kmalloc_oversized_witness:
  "\<exists>h' p B' a k. kmalloc 0xFFFFFFF8 demo_heap = (h', p) \<and> p \<noteq> 0 \<and> allocated h' B' = {(a, k)} \<and>
     2 ^ k < unat (0xFFFFFFF8 :: u32)"
proof -
  obtain h' p where r: "kmalloc 0xFFFFFFF8 demo_heap = (h', p)" by fastforce
  obtain B' a k where *: "p \<noteq> 0" "heap_inv h' B'" "allocated h' B' = {(a, k)}"
    using kmalloc_oversized [OF demo_heap_inv _ r] by auto
  obtain L where L: "hinv h' B' L None" using *(2) by (auto simp: heap_inv_def)
  have "(a, k) \<in> B'" using *(3) by (auto simp: allocated_def)
  then have "k \<le> 23" by (rule tilingD(2) [OF hinvD(1) [OF L]])
  then have "(2 :: nat) ^ k \<le> 2 ^ 23" by (intro power_increasing) auto
  with r * show ?thesis by (intro exI conjI) auto
qed

end
