(* ===== verification/Slab.thy ===== *)
theory Slab
  imports Heap
begin

unbundle bit_operations_syntax

text \<open>
  The slab caches, \<^verbatim>\<open>src/mm/slab.c\<close>: fixed-size objects carved out of heap pages, free ones linked
  through their first word. \<open>nx\<close> is that word of every object, by address. The caches are clients of
  the kernel heap, through the locale \<open>kernel_heap\<close>; \<open>al\<close> stands for \<^verbatim>\<open>kmalloc\<close>. A cache is passed by
  value, so the checks for a null cache pointer have no counterpart.
\<close>

record slab_cache =
  obj_size :: u32
  objs_per_slab :: u32
  slab_free_list :: u32
  total_allocs :: u32
  total_frees :: u32

text \<open>The division by \<^verbatim>\<open>obj_size\<close> faults when the rounding wrapped it to zero.\<close>

definition slab_cache_init :: "u32 \<Rightarrow> slab_cache option" where
  "slab_cache_init sz =
     (let sz = (if sz < 4 then 4 else sz);
          osz = (sz + 7) AND NOT 7
      in if osz = 0 then None
         else Some \<lparr>obj_size = osz, objs_per_slab = 4096 div osz, slab_free_list = 0,
                    total_allocs = 0, total_frees = 0\<rparr>)"

fun grow_loop :: "u32 \<Rightarrow> u32 \<Rightarrow> nat \<Rightarrow> nat \<Rightarrow> (u32 \<Rightarrow> u32) \<Rightarrow> u32 \<Rightarrow> (u32 \<Rightarrow> u32) \<times> u32" where
  "grow_loop vbase osz i 0 nx head = (nx, head)"
| "grow_loop vbase osz i (Suc n) nx head =
     (let node = vbase + of_nat i * osz
      in grow_loop vbase osz (Suc i) n (nx(node := head)) node)"

definition slab_grow ::
    "(u32 \<Rightarrow> 's \<Rightarrow> 's \<times> u32) \<Rightarrow> slab_cache \<times> (u32 \<Rightarrow> u32) \<times> 's \<Rightarrow> (slab_cache \<times> (u32 \<Rightarrow> u32) \<times> 's) \<times> bool" where
  "slab_grow al = (\<lambda>(c, nx, s).
     let (s, vbase) = al (of_nat PAGE_SIZE) s in
     if vbase = 0 then ((c, nx, s), False)
     else
       let (nx, head) = grow_loop vbase (obj_size c) 0 (unat (objs_per_slab c)) nx (slab_free_list c)
       in ((c\<lparr>slab_free_list := head\<rparr>, nx, s), True))"

text \<open>
  \<^verbatim>\<open>slab_alloc\<close> reads \<^verbatim>\<open>node->next\<close> without a further check after growing; reading through a null
  pointer is the result \<^term>\<open>None\<close>.
\<close>

definition slab_alloc ::
    "(u32 \<Rightarrow> 's \<Rightarrow> 's \<times> u32) \<Rightarrow> slab_cache \<times> (u32 \<Rightarrow> u32) \<times> 's \<Rightarrow> ((slab_cache \<times> (u32 \<Rightarrow> u32) \<times> 's) \<times> u32) option" where
  "slab_alloc al = (\<lambda>(c, nx, s).
     let ((c, nx, s), ok) = (if slab_free_list c = 0 then slab_grow al (c, nx, s) else ((c, nx, s), True)) in
     if \<not> ok then Some ((c, nx, s), 0)
     else
       let node = slab_free_list c in
       if node = 0 then None
       else Some ((c\<lparr>slab_free_list := nx node, total_allocs := total_allocs c + 1\<rparr>, nx, s), node))"

definition slab_free :: "u32 \<Rightarrow> slab_cache \<times> (u32 \<Rightarrow> u32) \<times> 's \<Rightarrow> slab_cache \<times> (u32 \<Rightarrow> u32) \<times> 's" where
  "slab_free obj = (\<lambda>(c, nx, s).
     if obj = 0 then (c, nx, s)
     else (c\<lparr>slab_free_list := obj, total_frees := total_frees c + 1\<rparr>, nx(obj := slab_free_list c), s))"

section \<open>The invariant\<close>

text \<open>A null-terminated chain of objects.\<close>

fun chain :: "(u32 \<Rightarrow> u32) \<Rightarrow> u32 \<Rightarrow> u32 list \<Rightarrow> bool" where
  "chain nx p [] = (p = 0)"
| "chain nx p (x # xs) = (p = x \<and> x \<noteq> 0 \<and> chain nx (nx x) xs)"

definition page_objects :: "slab_cache \<Rightarrow> u32 \<Rightarrow> u32 list" where
  "page_objects c b = map (\<lambda>i. b + of_nat i * obj_size c) [0..<unat (objs_per_slab c)]"

text \<open>
  The cache owns \<open>pages\<close>, each a live heap block of at least a page; its objects are free, and then
  on the chain \<open>F\<close>, or in use, and then in \<open>U\<close>.
\<close>

definition slab_shape :: "slab_cache \<Rightarrow> bool" where
  "slab_shape c \<longleftrightarrow> 4 \<le> unat (obj_size c) \<and> unat (obj_size c) \<le> 4096 \<and>
     unat (objs_per_slab c) = 4096 div unat (obj_size c)"

definition slab_inv ::
    "('s \<Rightarrow> bool) \<Rightarrow> ('s \<Rightarrow> (nat \<times> nat) set) \<Rightarrow> slab_cache \<times> (u32 \<Rightarrow> u32) \<times> 's \<Rightarrow> u32 set \<Rightarrow> u32 list \<Rightarrow> u32 set \<Rightarrow> bool" where
  "slab_inv ok live = (\<lambda>(c, nx, s) pages F U.
     ok s \<and> slab_shape c \<and>
     (\<forall>b \<in> pages. \<exists>n. 4096 \<le> n \<and> (unat b, n) \<in> live s) \<and>
     chain nx (slab_free_list c) F \<and> distinct F \<and> set F \<inter> U = {} \<and>
     set F \<union> U = (\<Union>b \<in> pages. set (page_objects c b)))"

lemma slab_update [simp]:
  "slab_shape (c\<lparr>slab_free_list := h\<rparr>) = slab_shape c" "page_objects (c\<lparr>slab_free_list := h\<rparr>) = page_objects c"
  "slab_shape (c\<lparr>total_allocs := t\<rparr>) = slab_shape c" "page_objects (c\<lparr>total_allocs := t\<rparr>) = page_objects c"
  "slab_shape (c\<lparr>total_frees := t\<rparr>) = slab_shape c" "page_objects (c\<lparr>total_frees := t\<rparr>) = page_objects c"
  by (auto simp: slab_shape_def page_objects_def)

text \<open>The byte ranges of two objects do not overlap.\<close>

definition apart :: "nat \<Rightarrow> u32 \<Rightarrow> u32 \<Rightarrow> bool" where
  "apart n x y \<longleftrightarrow> unat x + n \<le> unat y \<or> unat y + n \<le> unat x"

lemma chain_cong: "(\<And>x. x \<in> set xs \<Longrightarrow> nx' x = nx x) \<Longrightarrow> chain nx' p xs = chain nx p xs"
  by (induction xs arbitrary: p) auto

lemma chain_nonzero: "chain nx p xs \<Longrightarrow> x \<in> set xs \<Longrightarrow> x \<noteq> 0"
  by (induction xs arbitrary: p) auto

lemma slab_fit:
  assumes "slab_shape c" "i < unat (objs_per_slab c)"
  shows "i * unat (obj_size c) + unat (obj_size c) \<le> 4096"
proof -
  have "Suc i * unat (obj_size c) \<le> unat (objs_per_slab c) * unat (obj_size c)"
    using assms(2) by (intro mult_le_mono1) simp
  also have "\<dots> \<le> 4096" using assms(1) by (simp add: slab_shape_def)
  finally show ?thesis by simp
qed

lemma object_address:
  assumes "slab_shape c" "i < unat (objs_per_slab c)" "unat b + 4096 < 2 ^ 32"
  shows "unat (b + of_nat i * obj_size c) = unat b + i * unat (obj_size c)"
proof -
  have "b + of_nat i * obj_size c = of_nat (unat b + i * unat (obj_size c))" by simp
  moreover have "unat b + i * unat (obj_size c) < 2 ^ LENGTH(32)" using slab_fit [OF assms(1,2)] assms(3) by simp
  ultimately show ?thesis using unat_of_nat_small by metis
qed

lemma page_objectsE:
  assumes "slab_shape c" "unat b + 4096 < 2 ^ 32" "x \<in> set (page_objects c b)"
  obtains i where "i < unat (objs_per_slab c)" "unat x = unat b + i * unat (obj_size c)"
    "unat x + unat (obj_size c) \<le> unat b + 4096"
proof -
  obtain i where i: "i < unat (objs_per_slab c)" "x = b + of_nat i * obj_size c"
    using assms(3) by (auto simp: page_objects_def)
  with object_address [OF assms(1) i(1) assms(2)] slab_fit [OF assms(1) i(1)] show thesis
    by (intro that [of i]) auto
qed

lemma page_objects_apart:
  assumes c: "slab_shape c" and b: "unat b + 4096 < 2 ^ 32"
    and xy: "x \<in> set (page_objects c b)" "y \<in> set (page_objects c b)" "x \<noteq> y"
  shows "apart (unat (obj_size c)) x y"
proof -
  obtain i where i: "unat x = unat b + i * unat (obj_size c)" by (rule page_objectsE [OF c b xy(1)])
  obtain j where j: "unat y = unat b + j * unat (obj_size c)" by (rule page_objectsE [OF c b xy(2)])
  from i j xy(3) have "i < j \<or> j < i" by (metis linorder_neqE_nat word_unat_eq_iff)
  then have "Suc i * unat (obj_size c) \<le> j * unat (obj_size c) \<or> Suc j * unat (obj_size c) \<le> i * unat (obj_size c)"
    by (metis Suc_leI mult_le_mono1)
  with i j show ?thesis by (auto simp: apart_def)
qed

lemma page_objects_distinct:
  assumes "slab_shape c" "unat b + 4096 < 2 ^ 32"
  shows "distinct (page_objects c b)"
proof -
  have "0 < unat (obj_size c)" using assms(1) by (simp add: slab_shape_def)
  then have "inj_on (\<lambda>i. b + of_nat i * obj_size c) {..<unat (objs_per_slab c)}"
    using object_address [OF assms(1) _ assms(2)] by (intro inj_onI) (metis add_left_cancel lessThan_iff mult_right_cancel neq0_conv)
  then show ?thesis by (simp add: page_objects_def distinct_map atLeast0LessThan)
qed

text \<open>Growing pushes the objects of the page on the chain, the last one first.\<close>

lemma grow_loop_chain:
  assumes "chain nx head F" "grow_loop vbase osz i n nx head = (nx', head')"
    "distinct (map (\<lambda>j. vbase + of_nat j * osz) [i..<i + n])"
    "\<And>j. i \<le> j \<Longrightarrow> j < i + n \<Longrightarrow> vbase + of_nat j * osz \<notin> set F \<and> vbase + of_nat j * osz \<noteq> 0"
  shows "chain nx' head' (rev (map (\<lambda>j. vbase + of_nat j * osz) [i..<i + n]) @ F)"
  using assms
proof (induction n arbitrary: i nx head F)
  case (Suc n)
  let ?x = "vbase + of_nat i * osz"
  have up: "[i..<i + Suc n] = i # [Suc i..<Suc i + n]" by (simp add: upt_conv_Cons)
  have x: "?x \<notin> set F" "?x \<noteq> 0" using Suc.prems(4) [of i] by auto
  have "chain (nx(?x := head)) head F = chain nx head F" by (rule chain_cong) (use x in auto)
  then have F: "chain (nx(?x := head)) ?x (?x # F)" using Suc.prems(1) x by simp
  have "chain nx' head' (rev (map (\<lambda>j. vbase + of_nat j * osz) [Suc i..<Suc i + n]) @ ?x # F)"
  proof (rule Suc.IH [OF F])
    show "grow_loop vbase osz (Suc i) n (nx(?x := head)) ?x = (nx', head')"
      using Suc.prems(2) by (simp add: Let_def)
    show "distinct (map (\<lambda>j. vbase + of_nat j * osz) [Suc i..<Suc i + n])"
      using Suc.prems(3) unfolding up by simp
    fix j assume j: "Suc i \<le> j" "j < Suc i + n"
    then have "vbase + of_nat j * osz \<in> set (map (\<lambda>j. vbase + of_nat j * osz) [Suc i..<Suc i + n])"
      by (auto simp del: upt_Suc)
    moreover have "?x \<notin> set (map (\<lambda>j. vbase + of_nat j * osz) [Suc i..<Suc i + n])"
      using Suc.prems(3) unfolding up by (simp del: upt_Suc)
    ultimately have "vbase + of_nat j * osz \<noteq> ?x" by metis
    then show "vbase + of_nat j * osz \<notin> set (?x # F) \<and> vbase + of_nat j * osz \<noteq> 0"
      using Suc.prems(4) [of j] j by simp
  qed
  then show ?case unfolding up by simp
qed simp

section \<open>Clients of the heap\<close>

context kernel_heap
begin

lemma slab_page:
  assumes "slab_inv inv live (c, nx, s) pages F U" "b \<in> pages"
  obtains n where "4096 \<le> n" "(unat b, n) \<in> live s" "0 < unat b" "unat b + 4096 < 2 ^ 32"
proof -
  obtain n where n: "4096 \<le> n" "(unat b, n) \<in> live s" using assms by (auto simp: slab_inv_def)
  moreover have "inv s" using assms by (auto simp: slab_inv_def)
  ultimately show thesis using live_range [of s "unat b" n] by (intro that [of n]) auto
qed

lemma page_objects_nonzero:
  assumes "slab_shape c" "(unat b, n) \<in> live s" "inv s" "4096 \<le> n" "x \<in> set (page_objects c b)"
  shows "x \<noteq> 0"
proof -
  have r: "0 < unat b" "unat b + 4096 < 2 ^ 32" using live_range [OF assms(3,2)] assms(4) by auto
  obtain i where "unat x = unat b + i * unat (obj_size c)" by (rule page_objectsE [OF assms(1) r(2) assms(5)])
  with r(1) show ?thesis by auto
qed

text \<open>Objects of different pages are apart because the heap blocks are.\<close>

lemma pages_apart:
  assumes c: "slab_shape c" and s: "inv s" and b: "(unat b, n) \<in> live s" "4096 \<le> n"
    and d: "(unat d, m) \<in> live s" "4096 \<le> m" "b \<noteq> d"
    and xy: "x \<in> set (page_objects c b)" "y \<in> set (page_objects c d)"
  shows "apart (unat (obj_size c)) x y" "x \<noteq> y"
proof -
  have rb: "unat b + 4096 < 2 ^ 32" using live_range [OF s b(1)] b(2) by simp
  have rd: "unat d + 4096 < 2 ^ 32" using live_range [OF s d(1)] d(2) by simp
  obtain i where i: "unat x = unat b + i * unat (obj_size c)" "unat x + unat (obj_size c) \<le> unat b + 4096"
    by (rule page_objectsE [OF c rb xy(1)])
  obtain j where j: "unat y = unat d + j * unat (obj_size c)" "unat y + unat (obj_size c) \<le> unat d + 4096"
    by (rule page_objectsE [OF c rd xy(2)])
  have "unat b + n < unat d \<or> unat d + m < unat b"
    by (rule live_disjoint [OF s b(1) d(1)]) (use d(3) in \<open>auto simp: word_unat_eq_iff\<close>)
  then show ap: "apart (unat (obj_size c)) x y" using i j b(2) d(2) by (auto simp: apart_def)
  show "x \<noteq> y" using ap c by (auto simp: apart_def slab_shape_def)
qed

lemma slab_objects_apart:
  assumes I: "slab_inv inv live (c, nx, s) pages F U" and xy: "x \<in> set F \<union> U" "y \<in> set F \<union> U" "x \<noteq> y"
  shows "apart (unat (obj_size c)) x y"
proof -
  have c: "slab_shape c" and s: "inv s" using I by (auto simp: slab_inv_def)
  obtain b d where bd: "b \<in> pages" "x \<in> set (page_objects c b)" "d \<in> pages" "y \<in> set (page_objects c d)"
    using I xy(1,2) by (auto simp: slab_inv_def)
  obtain n where n: "4096 \<le> n" "(unat b, n) \<in> live s" "unat b + 4096 < 2 ^ 32" by (rule slab_page [OF I bd(1)])
  obtain m where m: "4096 \<le> m" "(unat d, m) \<in> live s" by (rule slab_page [OF I bd(3)])
  show ?thesis
    using page_objects_apart [OF c n(3) bd(2) _ xy(3)] pages_apart(1) [OF c s n(2,1) m(2,1) _ bd(2,4)] bd(4)
    by (cases "b = d") auto
qed

lemma slab_grow_spec:
  assumes I: "slab_inv inv live (c, nx, s) pages [] U" and g: "slab_grow al (c, nx, s) = ((c', nx', s'), ok)"
  shows "if ok then \<exists>b F. F \<noteq> [] \<and> slab_inv inv live (c', nx', s') (insert b pages) F U \<and> obj_size c' = obj_size c
         else c' = c \<and> nx' = nx \<and> slab_inv inv live (c, nx, s') pages [] U"
proof -
  have c: "slab_shape c" and s: "inv s" and h0: "slab_free_list c = 0"
    and old: "U = (\<Union>b \<in> pages. set (page_objects c b))" using I by (auto simp: slab_inv_def)
  obtain s1 b where al: "al (of_nat PAGE_SIZE) s = (s1, b)" by fastforce
  have s1: "inv s1" by (rule al_inv [OF s al])
  show ?thesis
  proof (cases "b = 0")
    case True
    with al_null [OF s] al g I s1 show ?thesis by (auto simp: slab_grow_def slab_inv_def)
  next
    case False
    obtain n where n: "4096 \<le> n" "live s1 = insert (unat b, n) (live s)" "\<And>m. (unat b, m) \<notin> live s"
      using al_block [OF s al False] by (auto simp: PAGE_SIZE_def)
    have b: "(unat b, n) \<in> live s1" "unat b + 4096 < 2 ^ 32" using n live_range [OF s1, of "unat b" n] by auto
    obtain head where gl: "grow_loop b (obj_size c) 0 (unat (objs_per_slab c)) nx 0 = (nx', head)"
      and c': "c' = c\<lparr>slab_free_list := head\<rparr>" "s' = s1" "ok"
      using g al False h0 by (auto simp: slab_grow_def Let_def split: prod.splits)
    let ?F = "rev (page_objects c b)"
    have nz: "x \<noteq> 0" if "x \<in> set (page_objects c b)" for x
      by (rule page_objects_nonzero [OF c b(1) s1 n(1) that])
    have "chain nx' head (rev (map (\<lambda>j. b + of_nat j * obj_size c) [0..<0 + unat (objs_per_slab c)]) @ [])"
      by (rule grow_loop_chain [OF _ gl])
        (use page_objects_distinct [OF c b(2)] nz in \<open>auto simp: page_objects_def\<close>)
    then have ch: "chain nx' head ?F" by (simp add: page_objects_def)
    have "set ?F \<inter> U = {}"
    proof -
      have "x \<notin> U" if x: "x \<in> set (page_objects c b)" for x
      proof
        assume "x \<in> U"
        then obtain d where d: "d \<in> pages" "x \<in> set (page_objects c d)" using old by auto
        obtain m where m: "4096 \<le> m" "(unat d, m) \<in> live s" by (rule slab_page [OF I d(1)])
        with n have "(unat d, m) \<in> live s1" "b \<noteq> d" by auto
        from pages_apart(2) [OF c s1 b(1) n(1) this(1) m(1) this(2) x d(2)] show False by simp
      qed
      then show ?thesis by auto
    qed
    moreover have "?F \<noteq> []"
      using c div_greater_zero_iff [of 4096 "unat (obj_size c)"] by (auto simp: page_objects_def slab_shape_def)
    moreover have "page_objects c' = page_objects c" "slab_shape c'"
      using c by (auto simp: c' page_objects_def slab_shape_def)
    ultimately have "slab_inv inv live (c', nx', s') (insert b pages) ?F U"
      using I s1 n ch page_objects_distinct [OF c b(2)] old
      by (auto simp: slab_inv_def c' intro: exI [of _ n])
    with \<open>?F \<noteq> []\<close> show ?thesis using c' by auto
  qed
qed

lemma slab_pop:
  assumes I: "slab_inv inv live (c, nx, s) pages (x # F) U"
  shows "slab_free_list c = x" "x \<noteq> 0" "x \<notin> U"
    "slab_inv inv live (c\<lparr>slab_free_list := nx x, total_allocs := t\<rparr>, nx, s) pages F (insert x U)"
  using I by (auto simp: slab_inv_def)

lemma slab_alloc_spec:
  assumes I: "slab_inv inv live (c, nx, s) pages F U"
  shows "\<exists>c' nx' s' x pages' F'. slab_alloc al (c, nx, s) = Some ((c', nx', s'), x) \<and> pages \<subseteq> pages' \<and>
    obj_size c' = obj_size c \<and>
    (if x = 0 then F = [] \<and> c' = c \<and> nx' = nx \<and> slab_inv inv live (c', nx', s') pages F U
     else x \<notin> U \<and> slab_inv inv live (c', nx', s') pages' F' (insert x U))"
proof (cases F)
  case (Cons x F0)
  note p = slab_pop [OF I [unfolded Cons]]
  show ?thesis using p(1,2,3) p(4) [of "total_allocs c + 1"] by (auto simp: slab_alloc_def Let_def)
next
  case Nil
  have h0: "slab_free_list c = 0" using I Nil by (auto simp: slab_inv_def)
  obtain c1 nx1 s1 ok where g: "slab_grow al (c, nx, s) = ((c1, nx1, s1), ok)" by (metis surj_pair)
  note sp = slab_grow_spec [OF I [unfolded Nil] g]
  show ?thesis
  proof (cases ok)
    case False
    with sp g h0 Nil show ?thesis by (auto simp: slab_alloc_def Let_def)
  next
    case True
    with sp obtain b x F1 where F1: "slab_inv inv live (c1, nx1, s1) (insert b pages) (x # F1) U" "obj_size c1 = obj_size c"
      by (metis list.exhaust)
    note p = slab_pop [OF F1(1)]
    show ?thesis
      using p(1,2,3) p(4) [of "total_allocs c1 + 1"] g h0 True F1(2)
      by (auto simp: slab_alloc_def Let_def intro!: exI [of _ "insert b pages"])
  qed
qed

lemma slab_free_spec:
  assumes I: "slab_inv inv live (c, nx, s) pages F U" and x: "x \<in> U"
  shows "\<exists>c' nx'. slab_free x (c, nx, s) = (c', nx', s) \<and> slab_inv inv live (c', nx', s) pages (x # F) (U - {x})"
proof -
  obtain b where b: "b \<in> pages" "x \<in> set (page_objects c b)" using I x by (auto simp: slab_inv_def)
  obtain n where n: "4096 \<le> n" "(unat b, n) \<in> live s" by (rule slab_page [OF I b(1)])
  have nz: "x \<noteq> 0"
    by (rule page_objects_nonzero [OF _ n(2) _ n(1) b(2)]) (use I in \<open>auto simp: slab_inv_def\<close>)
  have xF: "x \<notin> set F" using I x by (auto simp: slab_inv_def)
  have "chain (nx(x := slab_free_list c)) (slab_free_list c) F = chain nx (slab_free_list c) F"
    by (rule chain_cong) (use xF in auto)
  moreover have "set (x # F) \<union> (U - {x}) = set F \<union> U" using x by auto
  ultimately show ?thesis using I x nz xF by (auto simp: slab_free_def slab_inv_def)
qed

end

section \<open>The slab caches on the kernel heap\<close>

abbreviation slab_ok :: "slab_cache \<times> (u32 \<Rightarrow> u32) \<times> heap \<Rightarrow> u32 set \<Rightarrow> u32 list \<Rightarrow> u32 set \<Rightarrow> bool" where
  "slab_ok \<equiv> slab_inv kheap_ok kheap_live"

lemma round_up_8:
  fixes sz :: u32
  assumes "unat sz \<le> 2 ^ 32 - 8"
  shows "unat ((sz + 7) AND NOT 7) = (unat sz + 7) div 8 * 8"
proof -
  have "unat (sz + 7) = unat sz + 7" using assms unat_add_lem [of sz 7] by simp
  then show ?thesis using unat_and_not_mask [of "sz + 7" 3] by (simp add: mask_eq_exp_minus_1)
qed

text \<open>A fresh cache for objects of at most a page is well-formed and owns nothing.\<close>

lemma slab_init_ok:
  assumes "unat sz \<le> 4096" "kheap_ok h"
  shows "\<exists>c. slab_cache_init sz = Some c \<and> unat sz \<le> unat (obj_size c) \<and> slab_ok (c, nx, h) {} [] {}"
proof -
  define sz' :: u32 where "sz' = (if sz < 4 then 4 else sz)"
  have b: "4 \<le> unat sz'" "unat sz' \<le> 4096" "unat sz \<le> unat sz'"
    using assms(1) by (auto simp: sz'_def word_less_nat_alt)
  let ?o = "(sz' + 7) AND NOT 7"
  have o: "unat ?o = (unat sz' + 7) div 8 * 8" by (rule round_up_8) (use b in simp)
  then have "?o \<noteq> 0" using b by auto
  moreover have "unat (4096 div ?o) = 4096 div unat ?o" by (simp add: unat_div)
  ultimately show ?thesis
    using b o assms(2) by (auto simp: slab_cache_init_def Let_def sz'_def [symmetric] slab_inv_def slab_shape_def)
qed

text \<open>The demonstration heap has room for a page.\<close>

lemma demo_page:
  obtains h' p where "kmalloc (of_nat PAGE_SIZE) demo_heap = (h', p)" "p \<noteq> 0"
proof -
  obtain h' p where r: "kmalloc (of_nat PAGE_SIZE) demo_heap = (h', p)" by fastforce
  from demo_heap_inv(1) r have "p \<noteq> 0"
  proof (cases rule: kmalloc_spec)
    case none
    moreover have "hfree demo_heap 0" using demo_heap_inv(2) by (simp add: allocated_whole)
    ultimately show ?thesis using size_to_order_bounds(2) [of "of_nat PAGE_SIZE"] by (auto simp: PAGE_SIZE_def)
  next
    case (block B' a)
    then have "(a, size_to_order (of_nat PAGE_SIZE)) \<in> allocated h' B'" by simp
    from unat_payload [OF allocatedD(3) [OF block(1) this]] block(2) show ?thesis by auto
  qed
  with r show thesis by (rule that)
qed



text \<open>Freeing an object in use returns exactly it to the cache; the other objects stay as they are.\<close>

theorem slab_free_correct:
  assumes "slab_ok (c, nx, h) pages F U" "x \<in> U"
  shows "\<exists>c' nx'. slab_free x (c, nx, h) = (c', nx', h) \<and> slab_ok (c', nx', h) pages (x # F) (U - {x})"
  by (rule kheap.slab_free_spec [OF assms])

theorem slab_free_correct_witness:
  "\<exists>c nx h pages F x. slab_ok (c, nx, h) pages F {x} \<and>
     (\<exists>c' nx'. slab_free x (c, nx, h) = (c', nx', h) \<and> slab_ok (c', nx', h) pages (x # F) {})"
proof -
  have "kheap_ok demo_heap" using demo_heap_inv(1) by (auto simp: kheap_ok_def)
  then obtain c where c: "slab_cache_init 24 = Some c" "slab_ok (c, \<lambda>_. 0, demo_heap) {} [] {}"
    using slab_init_ok [of 24 demo_heap "\<lambda>_. 0"] by auto
  obtain h1 p where k: "kmalloc (of_nat PAGE_SIZE) demo_heap = (h1, p)" "p \<noteq> 0" by (rule demo_page)
  obtain c' nx' h' x pages' F' where r: "slab_alloc kmalloc (c, \<lambda>_. 0, demo_heap) = Some ((c', nx', h'), x)"
      "if x = 0 then True else slab_ok (c', nx', h') pages' F' {x}"
    using kheap.slab_alloc_spec [OF c(2)] by (fastforce split: if_splits)
  have "x \<noteq> 0"
    using r(1) k c(2) by (auto simp: slab_alloc_def slab_grow_def slab_inv_def Let_def split: prod.splits if_splits)
  with r(2) have ok: "slab_ok (c', nx', h') pages' F' {x}" by simp
  have "{x} - {x} = {}" by simp
  then show ?thesis using slab_free_correct [OF ok, of x] ok by (metis singletonI)
qed

text \<open>
  A cache for objects larger than a page has no object per slab, and \<^verbatim>\<open>slab_alloc\<close> follows a null
  pointer as soon as the page allocation succeeds.
\<close>

theorem slab_oversized_faults:
  assumes "4096 < unat sz" "unat sz \<le> 2 ^ 32 - 8" "slab_cache_init sz = Some c"
    and "kmalloc (of_nat PAGE_SIZE) h = (h', p)" "p \<noteq> 0"
  shows "slab_alloc kmalloc (c, nx, h) = None"
proof -
  have n4: "\<not> sz < 4" using assms(1) by (simp add: word_less_nat_alt)
  let ?o = "(sz + 7) AND NOT 7"
  have "4096 < unat ?o" using round_up_8 [OF assms(2)] assms(1) by simp
  then have "unat (4096 div ?o) = 0" by (simp add: unat_div)
  then have "4096 div ?o = 0" by (simp add: unat_eq_zero)
  with assms(3) n4 have "objs_per_slab c = 0" "slab_free_list c = 0"
    by (auto simp: slab_cache_init_def Let_def split: if_splits)
  with assms(4,5) show ?thesis by (simp add: slab_alloc_def slab_grow_def)
qed

theorem slab_oversized_faults_witness:
  "\<exists>c. slab_cache_init 5000 = Some c \<and> slab_alloc kmalloc (c, \<lambda>_. 0, demo_heap) = None"
proof -
  obtain h1 p where k: "kmalloc (of_nat PAGE_SIZE) demo_heap = (h1, p)" "p \<noteq> 0" by (rule demo_page)
  have "unat ((5000 + 7) AND NOT 7 :: u32) \<noteq> 0" using round_up_8 [of 5000] by simp
  then obtain c where "slab_cache_init 5000 = Some c" by (auto simp: slab_cache_init_def Let_def)
  with slab_oversized_faults [OF _ _ _ k, of 5000 c "\<lambda>_. 0"] show ?thesis by auto
qed

end
