(* ===== verification/Ring.thy ===== *)
theory Ring
  imports Kernel_Prelude
begin

text \<open>
  Circular buffers. The kernel has many of them, all built the same way: an array, a position to
  read from, and either a count or a position to write to. \<open>ring_list\<close> is the list of the
  elements in the buffer, oldest first. The locale \<open>bounded_fifo\<close> is the interface they share: the
  wait queues of \<^verbatim>\<open>include/waitqueue.h\<close> and the mailboxes of \<^verbatim>\<open>src/kernel/sync.c\<close> are
  interpretations of it.
\<close>

definition ring_list :: "'a list \<Rightarrow> nat \<Rightarrow> nat \<Rightarrow> nat \<Rightarrow> 'a list" where
  "ring_list buf start n cap = map (\<lambda>i. buf ! ((start + i) mod cap)) [0..<n]"

lemma length_ring_list [simp]: "length (ring_list buf start n cap) = n"
  by (simp add: ring_list_def)

lemma ring_list_0 [simp]: "ring_list buf start 0 cap = []"
  by (simp add: ring_list_def)

lemma mod_add_neq:
  assumes "i < n" "n < (cap :: nat)"
  shows "(start + i) mod cap \<noteq> (start + n) mod cap"
proof
  assume "(start + i) mod cap = (start + n) mod cap"
  then have "cap dvd (start + n) - (start + i)"
    using assms(1) mod_eq_dvd_iff_nat [of "start + i" "start + n" cap] by simp
  then have "cap \<le> n - i" using assms(1) by (intro dvd_imp_le) auto
  with assms show False by simp
qed

text \<open>Writing at the end and advancing the start.\<close>

lemma ring_list_push:
  assumes "n < cap" "cap \<le> length buf"
  shows "ring_list (buf[(start + n) mod cap := x]) start (Suc n) cap = ring_list buf start n cap @ [x]"
proof -
  have "(start + n) mod cap < length buf" using assms mod_less_divisor [of cap "start + n"] by linarith
  then show ?thesis
    using mod_add_neq [OF _ assms(1), of _ start] by (auto simp: ring_list_def nth_update_if)
qed

lemma ring_list_pop:
  assumes "0 < n" "start < cap"
  shows "ring_list buf start n cap = buf ! start # ring_list buf ((start + 1) mod cap) (n - 1) cap"
proof -
  have "[0..<n] = 0 # map Suc [0..<n - 1]" using assms(1) by (simp add: map_Suc_upt upt_conv_Cons)
  then show ?thesis using assms(2) by (simp add: ring_list_def mod_add_left_eq del: upt_Suc)
qed

text \<open>Writing elsewhere in the array does not show.\<close>

lemma ring_list_cong:
  "(\<And>i. i < n \<Longrightarrow> buf' ! ((start + i) mod cap) = buf ! ((start + i) mod cap)) \<Longrightarrow>
     ring_list buf' start n cap = ring_list buf start n cap"
  by (auto simp: ring_list_def)

section \<open>The interface\<close>

fun push_all :: "('a \<Rightarrow> 's \<Rightarrow> 's \<times> bool) \<Rightarrow> 'a list \<Rightarrow> 's \<Rightarrow> 's \<times> bool" where
  "push_all push [] s = (s, True)"
| "push_all push (x # xs) s = (let (s, ok) = push x s in if ok then push_all push xs s else (s, False))"

fun pop_n :: "('s \<Rightarrow> 's \<times> 'a option) \<Rightarrow> nat \<Rightarrow> 's \<Rightarrow> 's \<times> 'a list" where
  "pop_n pop 0 s = (s, [])"
| "pop_n pop (Suc n) s =
     (let (s, r) = pop s in
      case r of None \<Rightarrow> (s, []) | Some x \<Rightarrow> let (s, xs) = pop_n pop n s in (s, x # xs))"

locale bounded_fifo =
  fixes ok :: "'s \<Rightarrow> bool"
    and abs :: "'s \<Rightarrow> 'a list"
    and cap :: "'s \<Rightarrow> nat"
    and push :: "'a \<Rightarrow> 's \<Rightarrow> 's \<times> bool"
    and pop :: "'s \<Rightarrow> 's \<times> 'a option"
  assumes push_room: "ok s \<Longrightarrow> length (abs s) < cap s \<Longrightarrow>
      \<exists>s'. push x s = (s', True) \<and> ok s' \<and> abs s' = abs s @ [x] \<and> cap s' = cap s"
    and push_full: "ok s \<Longrightarrow> cap s \<le> length (abs s) \<Longrightarrow> push x s = (s, False)"
    and pop_some: "ok s \<Longrightarrow> abs s = x # xs \<Longrightarrow>
      \<exists>s'. pop s = (s', Some x) \<and> ok s' \<and> abs s' = xs \<and> cap s' = cap s"
    and pop_none: "ok s \<Longrightarrow> abs s = [] \<Longrightarrow> pop s = (s, None)"
begin

lemma push_all_fits:
  "ok s \<Longrightarrow> length (abs s) + length xs \<le> cap s \<Longrightarrow>
     \<exists>s'. push_all push xs s = (s', True) \<and> ok s' \<and> abs s' = abs s @ xs \<and> cap s' = cap s"
proof (induction xs arbitrary: s)
  case (Cons x xs)
  obtain s1 where s1: "push x s = (s1, True)" "ok s1" "abs s1 = abs s @ [x]" "cap s1 = cap s"
    using push_room [OF Cons.prems(1), of x] Cons.prems(2) by auto
  then show ?case using Cons.IH [of s1] Cons.prems(2) by auto
qed simp

lemma pop_n_order:
  "ok s \<Longrightarrow> \<exists>s'. pop_n pop n s = (s', take n (abs s)) \<and> ok s' \<and> abs s' = drop n (abs s) \<and> cap s' = cap s"
proof (induction n arbitrary: s)
  case (Suc n)
  show ?case
  proof (cases "abs s")
    case Nil
    with pop_none [OF Suc.prems Nil] Suc.prems show ?thesis by simp
  next
    case (Cons x xs)
    obtain s1 where s1: "pop s = (s1, Some x)" "ok s1" "abs s1 = xs" "cap s1 = cap s"
      using pop_some [OF Suc.prems Cons] by auto
    then show ?thesis using Suc.IH [OF s1(2)] Cons by auto
  qed
qed simp

text \<open>First in, first out: what is pushed comes out in the same order, behind what was there before.\<close>

lemma fifo_order:
  assumes "ok s" "length (abs s) + length xs \<le> cap s"
  shows "\<exists>s1 s2. push_all push xs s = (s1, True) \<and>
    pop_n pop (length (abs s) + length xs) s1 = (s2, abs s @ xs) \<and> ok s2 \<and> abs s2 = []"
proof -
  obtain s1 where s1: "push_all push xs s = (s1, True)" "ok s1" "abs s1 = abs s @ xs"
    using push_all_fits [OF assms] by auto
  then show ?thesis using pop_n_order [OF s1(2), of "length (abs s) + length xs"] by auto
qed

end

end
