(* ===== verification/Waitqueue.thy ===== *)
theory Waitqueue
  imports Ring
begin

text \<open>
  Processes as the blocking primitives see them, and the wait queues of
  \<^verbatim>\<open>include/waitqueue.h\<close>. A process is its number; \<open>pworld\<close> holds the state and the wake-up
  tick of each, and \<open>enqueued\<close> the calls of \<^verbatim>\<open>sched_enqueue_ready\<close>, in order. A wait queue is a
  circular buffer of 16 entries of which one stays empty.
\<close>

record pworld =
  pstate :: "nat \<Rightarrow> process_state"
  wake_at_tick :: "nat \<Rightarrow> u32"
  enqueued :: "nat list"

definition set_pstate :: "nat \<Rightarrow> process_state \<Rightarrow> pworld \<Rightarrow> pworld" where
  "set_pstate p st w = w\<lparr>pstate := (pstate w)(p := st)\<rparr>"

definition set_wake :: "nat \<Rightarrow> u32 \<Rightarrow> pworld \<Rightarrow> pworld" where
  "set_wake p t w = w\<lparr>wake_at_tick := (wake_at_tick w)(p := t)\<rparr>"

definition enqueue_ready :: "nat \<Rightarrow> pworld \<Rightarrow> pworld" where
  "enqueue_ready p w = w\<lparr>enqueued := enqueued w @ [p]\<rparr>"

lemma pworld_fields [simp]:
  "pstate (set_wake p t w) = pstate w" "pstate (enqueue_ready p w) = pstate w"
  "enqueued (set_pstate p st w) = enqueued w" "enqueued (set_wake p t w) = enqueued w"
  "enqueued (enqueue_ready p w) = enqueued w @ [p]"
  "pstate (set_pstate p st w) = (pstate w)(p := st)"
  "wake_at_tick (set_pstate p st w) = wake_at_tick w" "wake_at_tick (enqueue_ready p w) = wake_at_tick w"
  "wake_at_tick (set_wake p t w) = (wake_at_tick w)(p := t)"
  by (simp_all add: set_pstate_def set_wake_def enqueue_ready_def)

section \<open>The code\<close>

definition WQ_CAPACITY :: nat where "WQ_CAPACITY = 16"

record waitqueue =
  wq_entries :: "nat list"
  wq_head :: nat
  wq_tail :: nat

definition wq_init :: "waitqueue \<Rightarrow> waitqueue" where
  "wq_init wq = wq\<lparr>wq_head := 0, wq_tail := 0\<rparr>"

definition wq_empty :: "waitqueue \<Rightarrow> bool" where
  "wq_empty wq \<longleftrightarrow> wq_head wq = wq_tail wq"

text \<open>The result 0 of \<^verbatim>\<open>wq_push\<close> is \<^term>\<open>True\<close>, the result -1 is \<^term>\<open>False\<close>.\<close>

definition wq_push :: "nat \<Rightarrow> waitqueue \<Rightarrow> waitqueue \<times> bool" where
  "wq_push p wq =
     (let nxt = (wq_head wq + 1) mod WQ_CAPACITY in
      if nxt = wq_tail wq then (wq, False)
      else (wq\<lparr>wq_entries := (wq_entries wq)[wq_head wq := p], wq_head := nxt\<rparr>, True))"

definition wq_pop :: "waitqueue \<Rightarrow> waitqueue \<times> nat option" where
  "wq_pop wq =
     (if wq_empty wq then (wq, None)
      else (wq\<lparr>wq_tail := (wq_tail wq + 1) mod WQ_CAPACITY\<rparr>, Some (wq_entries wq ! wq_tail wq)))"

definition wq_wake_one :: "waitqueue \<times> pworld \<Rightarrow> waitqueue \<times> pworld" where
  "wq_wake_one = (\<lambda>(wq, w).
     let (wq, r) = wq_pop wq in
     case r of
       None \<Rightarrow> (wq, w)
     | Some p \<Rightarrow>
         if pstate w p = PROCESS_BLOCKED
         then (wq, enqueue_ready p (set_pstate p PROCESS_READY w)) else (wq, w))"

definition wq_ok :: "waitqueue \<Rightarrow> bool" where
  "wq_ok wq \<longleftrightarrow> length (wq_entries wq) = WQ_CAPACITY \<and> wq_head wq < WQ_CAPACITY \<and> wq_tail wq < WQ_CAPACITY"

definition wq_len :: "waitqueue \<Rightarrow> nat" where
  "wq_len wq = (wq_head wq + WQ_CAPACITY - wq_tail wq) mod WQ_CAPACITY"

definition wq_list :: "waitqueue \<Rightarrow> nat list" where
  "wq_list wq = ring_list (wq_entries wq) (wq_tail wq) (wq_len wq) WQ_CAPACITY"

text \<open>Positions modulo the capacity, by cases instead of division.\<close>

lemma succ_mod_16: "i < 16 \<Longrightarrow> (i + 1) mod (16 :: nat) = (if i = 15 then 0 else i + 1)"
  by auto

lemma wq_len_cases:
  assumes "h < 16" "t < (16 :: nat)"
  shows "(h + 16 - t) mod 16 = (if t \<le> h then h - t else h + 16 - t)"
proof (cases "t \<le> h")
  case True
  then have "h + 16 - t = h - t + 16" by simp
  then have "(h + 16 - t) mod 16 = (h - t) mod 16" by (metis mod_add_self2)
  with True assms show ?thesis by simp
qed (use assms in auto)

lemmas wq_arith = succ_mod_16 wq_len_cases wq_len_def WQ_CAPACITY_def

lemma wq_len_zero: "wq_ok wq \<Longrightarrow> (wq_len wq = 0) = wq_empty wq"
  by (auto simp: wq_ok_def wq_empty_def wq_arith)

text \<open>The loop of \<^verbatim>\<open>wq_wake_all\<close> ends because every round pops an entry.\<close>

partial_function (option) wq_wake_all :: "waitqueue \<times> pworld \<Rightarrow> (waitqueue \<times> pworld) option" where
  "wq_wake_all s = (if wq_empty (fst s) then Some s else wq_wake_all (wq_wake_one s))"

section \<open>The queue as a list\<close>

lemma wq_list_empty: "wq_ok wq \<Longrightarrow> (wq_list wq = []) = wq_empty wq"
  using wq_len_zero [of wq] length_ring_list by (metis length_0_conv wq_list_def)

lemma wq_push_spec:
  assumes ok: "wq_ok wq"
  shows "if length (wq_list wq) < 15
         then \<exists>wq'. wq_push p wq = (wq', True) \<and> wq_ok wq' \<and> wq_list wq' = wq_list wq @ [p]
         else wq_push p wq = (wq, False)"
proof -
  let ?h = "wq_head wq" and ?t = "wq_tail wq"
  have b: "?h < 16" "?t < 16" "length (wq_entries wq) = 16" using ok by (auto simp: wq_ok_def WQ_CAPACITY_def)
  have full: "((?h + 1) mod 16 = ?t) = (wq_len wq = 15)"
    using b by (auto simp: wq_arith simp del: One_nat_def add_Suc_right)
  have le: "wq_len wq \<le> 15" using b by (auto simp: wq_arith)
  show ?thesis
  proof (cases "wq_len wq < 15")
    case True
    let ?wq = "wq\<lparr>wq_entries := (wq_entries wq)[?h := p], wq_head := (?h + 1) mod 16\<rparr>"
    have "wq_push p wq = (?wq, True)" using True full by (simp add: wq_push_def WQ_CAPACITY_def)
    moreover have "wq_ok ?wq" using b by (simp add: wq_ok_def WQ_CAPACITY_def)
    moreover have l: "wq_len ?wq = Suc (wq_len wq)"
      using b True by (auto simp: wq_arith simp del: One_nat_def add_Suc_right split: if_splits)
    moreover have "(?t + wq_len wq) mod 16 = ?h"
      using b by (auto simp: wq_arith)
    then have "wq_list ?wq = wq_list wq @ [p]"
      using ring_list_push [of "wq_len wq" 16 "wq_entries wq" ?t p] b True
      unfolding wq_list_def l WQ_CAPACITY_def by simp
    ultimately show ?thesis using True by (simp add: wq_list_def)
  next
    case False
    with full le show ?thesis by (simp add: wq_list_def wq_push_def WQ_CAPACITY_def)
  qed
qed

lemma wq_pop_spec:
  assumes ok: "wq_ok wq"
  shows "case wq_list wq of [] \<Rightarrow> wq_pop wq = (wq, None)
    | p # ps \<Rightarrow> \<exists>wq'. wq_pop wq = (wq', Some p) \<and> wq_ok wq' \<and> wq_list wq' = ps"
proof (cases "wq_empty wq")
  case True
  then have "wq_list wq = []" using wq_len_zero [OF ok] by (simp add: wq_list_def)
  with True show ?thesis by (simp add: wq_pop_def)
next
  case False
  let ?t = "wq_tail wq" and ?wq = "wq\<lparr>wq_tail := (wq_tail wq + 1) mod 16\<rparr>"
  have b: "wq_head wq < 16" "?t < 16" "length (wq_entries wq) = 16" using ok by (auto simp: wq_ok_def WQ_CAPACITY_def)
  have pos: "0 < wq_len wq" using False wq_len_zero [OF ok] by simp
  have l: "wq_len ?wq = wq_len wq - 1"
    using b pos by (auto simp: wq_arith simp del: One_nat_def add_Suc_right split: if_splits)
  have "wq_list wq = wq_entries wq ! ?t # wq_list ?wq"
    using ring_list_pop [OF pos, of ?t 16 "wq_entries wq"] b
    unfolding wq_list_def l WQ_CAPACITY_def by simp
  moreover have "wq_ok ?wq" using b by (simp add: wq_ok_def WQ_CAPACITY_def)
  ultimately show ?thesis using False by (simp add: wq_pop_def WQ_CAPACITY_def)
qed

interpretation wq: bounded_fifo wq_ok wq_list "\<lambda>_. 15" wq_push wq_pop
  by unfold_locales (use wq_push_spec wq_pop_spec in \<open>force split: list.splits if_splits\<close>)+

section \<open>Waking\<close>

lemma wq_wake_one_spec:
  assumes "wq_ok wq" "wq_list wq = p # ps"
  shows "\<exists>wq'. wq_ok wq' \<and> wq_list wq' = ps \<and> wq_wake_one (wq, w) =
    (wq', if pstate w p = PROCESS_BLOCKED then enqueue_ready p (set_pstate p PROCESS_READY w) else w)"
  using wq.pop_some [OF assms] by (auto simp: wq_wake_one_def)

text \<open>
  \<^verbatim>\<open>wq_wake_all\<close> returns with an empty queue; it makes exactly the blocked processes of the queue
  ready and hands each of them to the scheduler once, in the order in which they queued up.
\<close>

theorem wq_wake_all_wakes:
  assumes "wq_ok wq" "distinct (wq_list wq)"
  shows "\<exists>wq' w'. wq_wake_all (wq, w) = Some (wq', w') \<and> wq_ok wq' \<and> wq_empty wq' \<and>
    (\<forall>p. pstate w' p = (if p \<in> set (wq_list wq) \<and> pstate w p = PROCESS_BLOCKED then PROCESS_READY else pstate w p)) \<and>
    enqueued w' = enqueued w @ filter (\<lambda>p. pstate w p = PROCESS_BLOCKED) (wq_list wq)"
  using assms
proof (induction "wq_list wq" arbitrary: wq w)
  case Nil
  then have "wq_empty wq" using wq_list_empty by metis
  with Nil show ?case by (subst wq_wake_all.simps) auto
next
  case (Cons p ps)
  let ?w = "if pstate w p = PROCESS_BLOCKED then enqueue_ready p (set_pstate p PROCESS_READY w) else w"
  obtain wq1 where 1: "wq_ok wq1" "wq_list wq1 = ps" "wq_wake_one (wq, w) = (wq1, ?w)"
    using wq_wake_one_spec [OF Cons.prems(1), of p ps w] Cons.hyps(2) by auto
  have ne: "\<not> wq_empty wq" using wq_list_empty [OF Cons.prems(1)] Cons.hyps(2) by auto
  have d: "p \<notin> set ps" "distinct ps" using Cons.prems(2) Cons.hyps(2) by (metis distinct.simps(2))+
  obtain wq' w' where 2: "wq_wake_all (wq1, ?w) = Some (wq', w')" "wq_ok wq'" "wq_empty wq'"
      "\<forall>q. pstate w' q = (if q \<in> set ps \<and> pstate ?w q = PROCESS_BLOCKED then PROCESS_READY else pstate ?w q)"
      "enqueued w' = enqueued ?w @ filter (\<lambda>q. pstate ?w q = PROCESS_BLOCKED) ps"
    using Cons.hyps(1) [of wq1 ?w] 1 d by auto
  have f: "filter (\<lambda>q. pstate ?w q = PROCESS_BLOCKED) ps = filter (\<lambda>q. pstate w q = PROCESS_BLOCKED) ps"
    using d(1) by (intro filter_cong) auto
  have "wq_wake_all (wq, w) = Some (wq', w')"
    using ne 1(3) 2(1) by (subst wq_wake_all.simps) simp
  moreover have "pstate w' q = (if q \<in> set (p # ps) \<and> pstate w q = PROCESS_BLOCKED then PROCESS_READY else pstate w q)" for q
    using 2(4) d(1) by auto
  moreover have "enqueued w' = enqueued w @ filter (\<lambda>q. pstate w q = PROCESS_BLOCKED) (p # ps)"
    using 2(5) f by simp
  ultimately show ?case using 2(2,3) Cons.hyps(2) by metis
qed

theorem wq_wake_all_wakes_witness:
  "\<exists>wq' w'. wq_wake_all (\<lparr>wq_entries = [7, 9] @ replicate 14 0, wq_head = 2, wq_tail = 0\<rparr>,
        \<lparr>pstate = (\<lambda>_. PROCESS_READY)(9 := PROCESS_BLOCKED), wake_at_tick = \<lambda>_. 0, enqueued = []\<rparr>) = Some (wq', w') \<and>
     pstate w' 9 = PROCESS_READY \<and> enqueued w' = [9]"
proof -
  let ?wq = "\<lparr>wq_entries = [7, 9] @ replicate 14 0, wq_head = 2, wq_tail = 0\<rparr>"
  have l: "wq_list ?wq = [7, 9]"
    by (simp add: wq_list_def ring_list_def wq_len_def WQ_CAPACITY_def upt_conv_Cons)
  have "wq_ok ?wq" by (simp add: wq_ok_def WQ_CAPACITY_def)
  from wq_wake_all_wakes [OF this, of "\<lparr>pstate = (\<lambda>_. PROCESS_READY)(9 := PROCESS_BLOCKED), wake_at_tick = \<lambda>_. 0, enqueued = []\<rparr>"]
  show ?thesis unfolding l by auto
qed

text \<open>
  A wait queue is a first-in first-out queue of at most fifteen processes: what is pushed onto an
  empty queue is popped in the same order.
\<close>

theorem wq_fifo:
  assumes "wq_ok wq" "wq_empty wq" "length ps \<le> 15"
  shows "\<exists>wq1 wq2. push_all wq_push ps wq = (wq1, True) \<and> pop_n wq_pop (length ps) wq1 = (wq2, ps) \<and> wq_empty wq2"
proof -
  have "wq_list wq = []" using assms(1,2) wq_list_empty by simp
  with wq.fifo_order [OF assms(1), of ps] assms(3) obtain wq1 wq2 where
    "push_all wq_push ps wq = (wq1, True)" "pop_n wq_pop (length ps) wq1 = (wq2, ps)" "wq_ok wq2" "wq_list wq2 = []"
    by auto
  then show ?thesis using wq_list_empty [of wq2] by auto
qed

theorem wq_fifo_witness:
  "\<exists>wq1 wq2. push_all wq_push [3, 1, 2] (wq_init \<lparr>wq_entries = replicate 16 0, wq_head = 5, wq_tail = 9\<rparr>) = (wq1, True) \<and>
     pop_n wq_pop 3 wq1 = (wq2, [3, 1, 2]) \<and> wq_empty wq2"
proof -
  have l: "length [3, 1, 2 :: nat] = 3" by simp
  show ?thesis
    by (rule wq_fifo [of _ "[3, 1, 2]", unfolded l])
      (simp_all add: wq_ok_def wq_init_def wq_empty_def WQ_CAPACITY_def)
qed

end
