(* ===== verification/Sync.thy ===== *)
theory Sync
  imports Waitqueue
begin

text \<open>
  The blocking primitives of \<^verbatim>\<open>src/kernel/sync.c\<close>: counting semaphores, mutexes, mailboxes and
  condition variables. A call that blocks has two parts, before and after \<^verbatim>\<open>schedule()\<close>, and the
  model keeps them apart: \<open>\<dots>_begin\<close> runs to the result or to the call of \<^verbatim>\<open>schedule\<close> (\<open>Blocking\<close>), and
  \<open>\<dots>_resume\<close> runs from there. Each part holds the spinlock of its object and is atomic; other
  processes run between the two. The checks for null pointers are left out: the objects are values.
\<close>

section \<open>Semaphores\<close>

definition KSEM_MAX_WAITERS :: nat where "KSEM_MAX_WAITERS = 64"
definition TIMER_MS_PER_TICK :: u32 where "TIMER_MS_PER_TICK = 10"

record ksem =
  sem_count :: int
  waiters :: "nat option list"
  nwaiters :: nat

datatype outcome = Returned int | Blocking

definition ksem_init :: "int \<Rightarrow> ksem" where
  "ksem_init initial_count =
     \<lparr>sem_count = initial_count, waiters = replicate KSEM_MAX_WAITERS None, nwaiters = 0\<rparr>"

definition timeout_ticks :: "u32 \<Rightarrow> u32" where
  "timeout_ticks ms = (ms + TIMER_MS_PER_TICK - 1) div TIMER_MS_PER_TICK"

definition ksem_wait_begin ::
    "nat option \<Rightarrow> u32 \<Rightarrow> u32 \<Rightarrow> ksem \<times> pworld \<Rightarrow> (ksem \<times> pworld) \<times> outcome" where
  "ksem_wait_begin cur timeout_ms now = (\<lambda>(s, w).
     if 0 < sem_count s then ((s\<lparr>sem_count := sem_count s - 1\<rparr>, w), Returned 0)
     else case cur of
       None \<Rightarrow> ((s, w), Returned 1)
     | Some me \<Rightarrow>
         if KSEM_MAX_WAITERS \<le> nwaiters s then ((s, w), Returned 1)
         else
           let s = s\<lparr>waiters := (waiters s)[nwaiters s := Some me], nwaiters := nwaiters s + 1\<rparr>;
               w = set_pstate me PROCESS_BLOCKED w;
               w = (if 0 < timeout_ms
                    then set_pstate me PROCESS_SLEEPING (set_wake me (now + timeout_ticks timeout_ms) w)
                    else w)
           in ((s, w), Blocking))"

text \<open>The loop that closes the gap behind an array entry, and the removal of an entry.\<close>

function shift_down :: "'a list \<Rightarrow> nat \<Rightarrow> nat \<Rightarrow> 'a list" where
  "shift_down a j n = (if j + 1 < n then shift_down (a[j := a ! (j + 1)]) (j + 1) n else a)"
  by auto
termination by (relation "measure (\<lambda>(_, j, n). n - j)") auto

definition remove_waiter :: "nat \<Rightarrow> nat option list \<Rightarrow> nat \<Rightarrow> nat option list" where
  "remove_waiter i a n = (shift_down a i n)[n - 1 := None]"

definition ksem_wait_resume :: "nat \<Rightarrow> u32 \<Rightarrow> ksem \<times> pworld \<Rightarrow> (ksem \<times> pworld) \<times> int" where
  "ksem_wait_resume me timeout_ms = (\<lambda>(s, w).
     case find (\<lambda>i. waiters s ! i = Some me) [0..<nwaiters s] of
       None \<Rightarrow> ((s, w), 0)
     | Some i \<Rightarrow>
         let s = s\<lparr>waiters := remove_waiter i (waiters s) (nwaiters s), nwaiters := nwaiters s - 1\<rparr>
         in ((s, w), if 0 < timeout_ms \<and> pstate w me = PROCESS_READY then -1 else 1))"

definition can_wake :: "pworld \<Rightarrow> nat option \<Rightarrow> bool" where
  "can_wake w x = (case x of None \<Rightarrow> False | Some p \<Rightarrow> pstate w p = PROCESS_BLOCKED \<or> pstate w p = PROCESS_SLEEPING)"

definition make_ready :: "nat \<Rightarrow> pworld \<Rightarrow> pworld" where
  "make_ready p w = set_wake p 0 (set_pstate p PROCESS_READY w)"

definition ksem_signal :: "ksem \<times> pworld \<Rightarrow> ksem \<times> pworld" where
  "ksem_signal = (\<lambda>(s, w).
     case find (\<lambda>i. can_wake w (waiters s ! i)) [0..<nwaiters s] of
       None \<Rightarrow> (s\<lparr>sem_count := sem_count s + 1\<rparr>, w)
     | Some i \<Rightarrow>
         let p = the (waiters s ! i);
             s = s\<lparr>waiters := remove_waiter i (waiters s) (nwaiters s), nwaiters := nwaiters s - 1\<rparr>
         in (s, enqueue_ready p (make_ready p w)))"

section \<open>Mutexes\<close>

record kmutex =
  msem :: ksem

definition kmutex_init :: kmutex where
  "kmutex_init = \<lparr>msem = ksem_init 1\<rparr>"

text \<open>
  \<^verbatim>\<open>kmutex_lock\<close> is \<^verbatim>\<open>ksem_wait\<close>: it repeats \<^verbatim>\<open>ksem_wait_timeout\<close> without a timeout, sleeping a tick after
  every failure, until it returns 0. One attempt is \<open>lock_begin\<close> and, when it blocks, \<open>lock_resume\<close>.
\<close>

definition lock_begin :: "nat \<Rightarrow> u32 \<Rightarrow> kmutex \<times> pworld \<Rightarrow> (kmutex \<times> pworld) \<times> outcome" where
  "lock_begin me now = (\<lambda>(m, w).
     let ((s, w), r) = ksem_wait_begin (Some me) 0 now (msem m, w) in ((m\<lparr>msem := s\<rparr>, w), r))"

definition lock_resume :: "nat \<Rightarrow> kmutex \<times> pworld \<Rightarrow> (kmutex \<times> pworld) \<times> int" where
  "lock_resume me = (\<lambda>(m, w).
     let ((s, w), r) = ksem_wait_resume me 0 (msem m, w) in ((m\<lparr>msem := s\<rparr>, w), r))"

definition kmutex_unlock :: "kmutex \<times> pworld \<Rightarrow> kmutex \<times> pworld" where
  "kmutex_unlock = (\<lambda>(m, w). let (s, w) = ksem_signal (msem m, w) in (m\<lparr>msem := s\<rparr>, w))"

section \<open>Mailboxes\<close>

definition KMBOX_MAX_MSGS :: nat where "KMBOX_MAX_MSGS = 32"

text \<open>Messages are pointers; the number of messages wraps around at \<open>2 ^ 32\<close>.\<close>

record kmbox =
  msgs :: "u32 list"
  mb_head :: nat
  mb_tail :: nat
  mb_count :: u32
  capacity :: u32
  not_empty :: ksem
  not_full :: ksem

definition kmbox_init :: "u32 \<Rightarrow> kmbox" where
  "kmbox_init sz =
     (let sz = (if sz = 0 \<or> of_nat KMBOX_MAX_MSGS < sz then of_nat KMBOX_MAX_MSGS else sz)
      in \<lparr>msgs = replicate KMBOX_MAX_MSGS 0, mb_head = 0, mb_tail = 0, mb_count = 0, capacity = sz,
          not_empty = ksem_init 0, not_full = ksem_init (int (unat sz))\<rparr>)"

definition kmbox_free :: "kmbox \<Rightarrow> kmbox" where
  "kmbox_free mb = mb\<lparr>mb_count := 0, mb_head := 0, mb_tail := 0\<rparr>"

text \<open>The two critical sections: append at the tail, take from the head.\<close>

definition mb_put :: "u32 \<Rightarrow> kmbox \<Rightarrow> kmbox" where
  "mb_put msg mb = mb\<lparr>msgs := (msgs mb)[mb_tail mb := msg],
     mb_tail := (mb_tail mb + 1) mod unat (capacity mb), mb_count := mb_count mb + 1\<rparr>"

definition mb_take :: "kmbox \<Rightarrow> kmbox \<times> u32" where
  "mb_take mb = (mb\<lparr>mb_head := (mb_head mb + 1) mod unat (capacity mb), mb_count := mb_count mb - 1\<rparr>,
     msgs mb ! mb_head mb)"

definition signal_not_empty :: "kmbox \<times> pworld \<Rightarrow> kmbox \<times> pworld" where
  "signal_not_empty = (\<lambda>(mb, w). let (s, w) = ksem_signal (not_empty mb, w) in (mb\<lparr>not_empty := s\<rparr>, w))"

definition signal_not_full :: "kmbox \<times> pworld \<Rightarrow> kmbox \<times> pworld" where
  "signal_not_full = (\<lambda>(mb, w). let (s, w) = ksem_signal (not_full mb, w) in (mb\<lparr>not_full := s\<rparr>, w))"

text \<open>
  \<^verbatim>\<open>kmbox_post\<close>: the first part waits for room. When it got a token, at once or after it was resumed
  and the wait returned 0, \<open>kmbox_post_commit\<close> stores the message.
\<close>

definition kmbox_post_begin :: "nat option \<Rightarrow> u32 \<Rightarrow> kmbox \<times> pworld \<Rightarrow> (kmbox \<times> pworld) \<times> outcome" where
  "kmbox_post_begin cur now = (\<lambda>(mb, w).
     let ((s, w), r) = ksem_wait_begin cur 0 now (not_full mb, w) in ((mb\<lparr>not_full := s\<rparr>, w), r))"

definition kmbox_post_commit :: "u32 \<Rightarrow> kmbox \<times> pworld \<Rightarrow> kmbox \<times> pworld" where
  "kmbox_post_commit msg = (\<lambda>(mb, w). signal_not_empty (mb_put msg mb, w))"

definition kmbox_trypost :: "u32 \<Rightarrow> kmbox \<times> pworld \<Rightarrow> (kmbox \<times> pworld) \<times> int" where
  "kmbox_trypost msg = (\<lambda>(mb, w).
     if capacity mb \<le> mb_count mb then ((mb, w), -1)
     else (signal_not_empty (mb_put msg mb, w), 0))"

definition kmbox_fetch_begin :: "nat option \<Rightarrow> u32 \<Rightarrow> u32 \<Rightarrow> kmbox \<times> pworld \<Rightarrow> (kmbox \<times> pworld) \<times> outcome" where
  "kmbox_fetch_begin cur timeout_ms now = (\<lambda>(mb, w).
     let ((s, w), r) = ksem_wait_begin cur timeout_ms now (not_empty mb, w) in ((mb\<lparr>not_empty := s\<rparr>, w), r))"

definition kmbox_fetch_commit :: "kmbox \<times> pworld \<Rightarrow> (kmbox \<times> pworld) \<times> u32" where
  "kmbox_fetch_commit = (\<lambda>(mb, w). let (mb, m) = mb_take mb in (signal_not_full (mb, w), m))"

definition kmbox_tryfetch :: "kmbox \<times> pworld \<Rightarrow> (kmbox \<times> pworld) \<times> u32 option" where
  "kmbox_tryfetch = (\<lambda>(mb, w).
     if mb_count mb = 0 then ((mb, w), None)
     else let (mb, m) = mb_take mb in (signal_not_full (mb, w), Some m))"

section \<open>Condition variables\<close>

definition KCOND_MAX_WAITERS :: nat where "KCOND_MAX_WAITERS = 64"

record kcond =
  cv_waiters :: "nat option list"
  cv_nwaiters :: nat

definition kcond_init :: kcond where
  "kcond_init = \<lparr>cv_waiters = replicate KCOND_MAX_WAITERS None, cv_nwaiters = 0\<rparr>"

text \<open>\<open>None\<close> is the early return with 1; otherwise the caller goes to sleep after releasing the mutex.\<close>

definition kcond_wait_begin ::
    "nat option \<Rightarrow> u32 \<Rightarrow> u32 \<Rightarrow> kcond \<times> kmutex \<times> pworld \<Rightarrow> (kcond \<times> kmutex \<times> pworld) option" where
  "kcond_wait_begin cur timeout_ms now = (\<lambda>(cv, m, w).
     case cur of
       None \<Rightarrow> None
     | Some me \<Rightarrow>
         if KCOND_MAX_WAITERS \<le> cv_nwaiters cv then None
         else
           let cv = cv\<lparr>cv_waiters := (cv_waiters cv)[cv_nwaiters cv := Some me], cv_nwaiters := cv_nwaiters cv + 1\<rparr>;
               w = (if 0 < timeout_ms
                    then set_pstate me PROCESS_SLEEPING (set_wake me (now + timeout_ticks timeout_ms) w)
                    else set_pstate me PROCESS_BLOCKED w);
               (m, w) = kmutex_unlock (m, w)
           in Some (cv, m, w))"

text \<open>The last part, after the mutex was taken again.\<close>

definition kcond_wait_end :: "nat \<Rightarrow> kcond \<Rightarrow> kcond \<times> int" where
  "kcond_wait_end me cv =
     (case find (\<lambda>i. cv_waiters cv ! i = Some me) [0..<cv_nwaiters cv] of
        None \<Rightarrow> (cv, 0)
      | Some i \<Rightarrow>
          (cv\<lparr>cv_waiters := remove_waiter i (cv_waiters cv) (cv_nwaiters cv), cv_nwaiters := cv_nwaiters cv - 1\<rparr>, 1))"

definition kcond_signal :: "kcond \<times> pworld \<Rightarrow> kcond \<times> pworld" where
  "kcond_signal = (\<lambda>(cv, w).
     case find (\<lambda>i. can_wake w (cv_waiters cv ! i)) [0..<cv_nwaiters cv] of
       None \<Rightarrow> (cv, w)
     | Some i \<Rightarrow>
         let p = the (cv_waiters cv ! i);
             cv = cv\<lparr>cv_waiters := remove_waiter i (cv_waiters cv) (cv_nwaiters cv), cv_nwaiters := cv_nwaiters cv - 1\<rparr>
         in (cv, enqueue_ready p (make_ready p w)))"

text \<open>The loop of \<^verbatim>\<open>kcond_broadcast\<close> over the slots, then the loop over the processes it collected.\<close>

fun broadcast_loop :: "nat \<Rightarrow> nat \<Rightarrow> nat option list \<Rightarrow> pworld \<Rightarrow> nat list \<Rightarrow> nat option list \<times> pworld \<times> nat list" where
  "broadcast_loop i 0 a w wl = (a, w, wl)"
| "broadcast_loop i (Suc n) a w wl =
     (if can_wake w (a ! i)
      then broadcast_loop (i + 1) n (a[i := None]) (make_ready (the (a ! i)) w) (wl @ [the (a ! i)])
      else broadcast_loop (i + 1) n a w wl)"

definition kcond_broadcast :: "kcond \<times> pworld \<Rightarrow> kcond \<times> pworld" where
  "kcond_broadcast = (\<lambda>(cv, w).
     let (a, w, wl) = broadcast_loop 0 (cv_nwaiters cv) (cv_waiters cv) w []
     in (cv\<lparr>cv_waiters := a, cv_nwaiters := 0\<rparr>, fold enqueue_ready wl w))"

declare shift_down.simps [simp del]

section \<open>Waiter arrays as lists\<close>

text \<open>The waiters of an array of which the first \<open>n\<close> slots are in use.\<close>

definition warray :: "nat option list \<Rightarrow> nat \<Rightarrow> bool" where
  "warray a n \<longleftrightarrow> length a = 64 \<and> n \<le> 64 \<and> None \<notin> set (take n a)"

definition wlist :: "nat option list \<Rightarrow> nat \<Rightarrow> nat list" where
  "wlist a n = map the (take n a)"

lemma length_shift_down [simp]: "length (shift_down a j n) = length a"
  by (induction a j n rule: shift_down.induct) (subst shift_down.simps, simp)

lemma shift_down_nth:
  "n \<le> length a \<Longrightarrow> shift_down a j n ! k = (if j \<le> k \<and> k + 1 < n then a ! (k + 1) else a ! k)"
proof (induction a j n rule: shift_down.induct)
  case (1 a j n)
  show ?case
  proof (cases "j + 1 < n")
    case True
    then have "shift_down a j n ! k = shift_down (a[j := a ! (j + 1)]) (j + 1) n ! k"
      by (subst shift_down.simps) simp
    also have "\<dots> = (if j + 1 \<le> k \<and> k + 1 < n then (a[j := a ! (j + 1)]) ! (k + 1) else (a[j := a ! (j + 1)]) ! k)"
      using 1 True by simp
    finally show ?thesis using True 1(2) by (auto simp: nth_update_if)
  qed (subst shift_down.simps, auto)
qed

lemma take_remove_waiter:
  assumes "n \<le> length a" "i < n"
  shows "take (n - 1) (remove_waiter i a n) = take i a @ drop (Suc i) (take n a)"
proof (rule nth_equalityI)
  show "length (take (n - 1) (remove_waiter i a n)) = length (take i a @ drop (Suc i) (take n a))"
    using assms by (simp add: remove_waiter_def)
  fix k assume "k < length (take (n - 1) (remove_waiter i a n))"
  then have k: "k < n - 1" using assms by (simp add: remove_waiter_def)
  then have "take (n - 1) (remove_waiter i a n) ! k = shift_down a i n ! k"
    by (simp add: remove_waiter_def)
  also have "\<dots> = (if i \<le> k then a ! (k + 1) else a ! k)"
    using k assms by (auto simp: shift_down_nth)
  also have "\<dots> = (take i a @ drop (Suc i) (take n a)) ! k"
    using k assms by (auto simp: nth_append)
  finally show "take (n - 1) (remove_waiter i a n) ! k = (take i a @ drop (Suc i) (take n a)) ! k" .
qed

lemma remove_waiter_list:
  assumes "warray a n" "i < n"
  shows "warray (remove_waiter i a n) (n - 1)"
    and "wlist a n = take i (wlist a n) @ the (a ! i) # drop (Suc i) (wlist a n)"
    and "wlist (remove_waiter i a n) (n - 1) = take i (wlist a n) @ drop (Suc i) (wlist a n)"
proof -
  have n: "n \<le> length a" using assms(1) by (simp add: warray_def)
  note t = take_remove_waiter [OF n assms(2)]
  have "set (take i a @ drop (Suc i) (take n a)) \<subseteq> set (take n a)"
    using set_take_subset_set_take [of i n a] set_drop_subset [of "Suc i" "take n a"] assms(2) by auto
  then show "warray (remove_waiter i a n) (n - 1)"
    using assms(1) t by (auto simp: warray_def remove_waiter_def)
  show "wlist a n = take i (wlist a n) @ the (a ! i) # drop (Suc i) (wlist a n)"
    using id_take_nth_drop [of i "wlist a n"] assms(2) n by (simp add: wlist_def)
  show "wlist (remove_waiter i a n) (n - 1) = take i (wlist a n) @ drop (Suc i) (wlist a n)"
    using assms(2) unfolding wlist_def t by (simp add: take_map drop_map min_def)
qed

lemma push_waiter_list:
  assumes "warray a n" "n < 64"
  shows "warray (a[n := Some p]) (n + 1)" "wlist (a[n := Some p]) (n + 1) = wlist a n @ [p]"
  using assms by (auto simp: warray_def wlist_def take_Suc_conv_app_nth)

lemma warray_nth: "warray a n \<Longrightarrow> i < n \<Longrightarrow> a ! i = Some (wlist a n ! i)"
proof -
  assume a: "warray a n" and i: "i < n"
  then have "a ! i \<in> set (take n a)" by (metis (no_types, lifting) in_set_conv_nth length_take min.absorb2 nth_take warray_def)
  with a have "a ! i \<noteq> None" by (metis warray_def)
  with a i show ?thesis by (simp add: wlist_def warray_def)
qed

text \<open>The search loops over the array, seen on the list.\<close>

lemma find_waiter:
  assumes a: "warray a n"
  shows "case find (\<lambda>i. P (a ! i)) [0..<n] of
      None \<Rightarrow> (\<forall>p \<in> set (wlist a n). \<not> P (Some p))
    | Some i \<Rightarrow> i < n \<and> P (a ! i) \<and> (\<exists>p. a ! i = Some p \<and> wlist a n = take i (wlist a n) @ p # drop (Suc i) (wlist a n)) \<and>
        (\<forall>p \<in> set (take i (wlist a n)). \<not> P (Some p))"
proof (cases "find (\<lambda>i. P (a ! i)) [0..<n]")
  case None
  have len: "length (wlist a n) = n" using a by (simp add: wlist_def warray_def)
  have "\<not> P (Some p)" if "p \<in> set (wlist a n)" for p
    using None that warray_nth [OF a] len unfolding find_upt_None in_set_conv_nth by metis
  with None show ?thesis by simp
next
  case (Some i)
  then have i: "i < n" "P (a ! i)" "\<And>j. j < i \<Longrightarrow> \<not> P (a ! j)" by (auto simp: find_upt_Some)
  have len: "length (wlist a n) = n" using a by (simp add: wlist_def warray_def)
  have "\<not> P (Some p)" if p: "p \<in> set (take i (wlist a n))" for p
  proof -
    obtain j where "j < i" "p = wlist a n ! j" using p i(1) len by (auto simp: in_set_conv_nth)
    with warray_nth [OF a, of j] i show ?thesis by force
  qed
  with Some i warray_nth [OF a i(1)] remove_waiter_list(2) [OF a i(1)] show ?thesis by auto
qed

section \<open>Semaphores as counters with a list of waiters\<close>

definition sem_ok :: "ksem \<Rightarrow> bool" where
  "sem_ok s \<longleftrightarrow> warray (waiters s) (nwaiters s)"

definition sem_list :: "ksem \<Rightarrow> nat list" where
  "sem_list s = wlist (waiters s) (nwaiters s)"

lemma sem_init [simp]: "sem_ok (ksem_init n)" "sem_list (ksem_init n) = []" "sem_count (ksem_init n) = n"
  by (auto simp: sem_ok_def sem_list_def ksem_init_def warray_def wlist_def KSEM_MAX_WAITERS_def)

lemma sem_count_update [simp]: "sem_ok (s\<lparr>sem_count := c\<rparr>) = sem_ok s" "sem_list (s\<lparr>sem_count := c\<rparr>) = sem_list s"
  by (simp_all add: sem_ok_def sem_list_def)

lemma ksem_signal_cases:
  assumes "sem_ok s"
  obtains (post) "ksem_signal (s, w) = (s\<lparr>sem_count := sem_count s + 1\<rparr>, w)"
      "\<And>p. p \<in> set (sem_list s) \<Longrightarrow> \<not> can_wake w (Some p)"
  | (wake) s' as p bs where "ksem_signal (s, w) = (s', enqueue_ready p (make_ready p w))"
      "sem_ok s'" "sem_count s' = sem_count s" "sem_list s = as @ p # bs" "sem_list s' = as @ bs"
      "can_wake w (Some p)" "\<And>q. q \<in> set as \<Longrightarrow> \<not> can_wake w (Some q)"
proof -
  have a: "warray (waiters s) (nwaiters s)" using assms by (simp add: sem_ok_def)
  note f = find_waiter [OF a, of "can_wake w"]
  show thesis
  proof (cases "find (\<lambda>i. can_wake w (waiters s ! i)) [0..<nwaiters s]")
    case None
    with f show thesis by (intro post) (auto simp: ksem_signal_def sem_list_def)
  next
    case (Some i)
    with f obtain p where p: "i < nwaiters s" "can_wake w (Some p)" "waiters s ! i = Some p"
        "sem_list s = take i (sem_list s) @ p # drop (Suc i) (sem_list s)"
        "\<forall>q \<in> set (take i (sem_list s)). \<not> can_wake w (Some q)" by (auto simp: sem_list_def)
    let ?s = "s\<lparr>waiters := remove_waiter i (waiters s) (nwaiters s), nwaiters := nwaiters s - 1\<rparr>"
    note r = remove_waiter_list [OF a p(1)]
    show thesis
      by (rule wake [of ?s p "take i (sem_list s)" "drop (Suc i) (sem_list s)"])
        (use Some p r in \<open>auto simp: ksem_signal_def sem_ok_def sem_list_def\<close>)
  qed
qed

lemma ksem_wait_begin_cases:
  assumes "sem_ok s" "ksem_wait_begin cur tmo now (s, w) = ((s', w'), r)"
  obtains (taken) "0 < sem_count s" "s' = s\<lparr>sem_count := sem_count s - 1\<rparr>" "w' = w" "r = Returned 0"
  | (full) "sem_count s \<le> 0" "s' = s" "w' = w" "r = Returned 1" "cur = None \<or> length (sem_list s) = 64"
  | (block) me where "cur = Some me" "sem_count s \<le> 0" "sem_ok s'" "sem_count s' = sem_count s"
      "sem_list s' = sem_list s @ [me]" "r = Blocking"
      "\<And>p. pstate w' p = (if p = me then (if 0 < tmo then PROCESS_SLEEPING else PROCESS_BLOCKED) else pstate w p)"
proof (cases "0 < sem_count s")
  case True
  with assms(2) show thesis by (intro taken) (auto simp: ksem_wait_begin_def)
next
  case False
  have a: "warray (waiters s) (nwaiters s)" using assms(1) by (simp add: sem_ok_def)
  show thesis
  proof (cases "cur = None \<or> 64 \<le> nwaiters s")
    case True
    have "cur = None \<or> length (sem_list s) = 64" using True a by (auto simp: sem_list_def wlist_def warray_def)
    with True False assms(2) show thesis
      by (intro full) (auto simp: ksem_wait_begin_def KSEM_MAX_WAITERS_def split: option.splits if_splits)
  next
    case room: False
    then obtain me where me: "cur = Some me" "nwaiters s < 64" by auto
    show thesis
      by (rule block [OF me(1)])
        (use False me assms(2) push_waiter_list [OF a me(2), of me] in
          \<open>auto simp: ksem_wait_begin_def KSEM_MAX_WAITERS_def Let_def sem_ok_def sem_list_def split: if_splits\<close>)
  qed
qed

lemma ksem_wait_resume_cases:
  assumes "sem_ok s" "ksem_wait_resume me tmo (s, w) = ((s', w'), r)"
  obtains (granted) "me \<notin> set (sem_list s)" "s' = s" "w' = w" "r = 0"
  | (removed) as bs where "sem_list s = as @ me # bs" "me \<notin> set as" "sem_list s' = as @ bs" "sem_ok s'"
      "sem_count s' = sem_count s" "w' = w" "r \<noteq> 0"
proof -
  have a: "warray (waiters s) (nwaiters s)" using assms by (simp add: sem_ok_def)
  note f = find_waiter [OF a, of "\<lambda>x. x = Some me"]
  show thesis
  proof (cases "find (\<lambda>i. waiters s ! i = Some me) [0..<nwaiters s]")
    case None
    with f assms(2) show thesis by (intro granted) (auto simp: ksem_wait_resume_def sem_list_def)
  next
    case (Some i)
    with f have i: "i < nwaiters s" "sem_list s = take i (sem_list s) @ me # drop (Suc i) (sem_list s)"
        "me \<notin> set (take i (sem_list s))" by (auto simp: sem_list_def)
    note r = remove_waiter_list [OF a i(1)]
    show thesis
      by (rule removed [of "take i (sem_list s)" "drop (Suc i) (sem_list s)"])
        (use Some i r assms(2) in \<open>auto simp: ksem_wait_resume_def sem_ok_def sem_list_def Let_def split: if_splits\<close>)
  qed
qed

section \<open>The mutex as a protocol\<close>

text \<open>
  Processes that lock and unlock one mutex. A process is outside, between two attempts of
  \<^verbatim>\<open>ksem_wait\<close>, asleep inside an attempt, or holding the mutex. \<open>wake\<close> is any event other than an
  unlock that makes a sleeping process ready: a timer, a signal. \<open>run\<close> lets a process that is not
  asleep on the mutex change its state for any other reason.
\<close>

datatype mpc = Outside | Retrying | Asleep | Holding

record msys =
  mx :: kmutex
  mw :: pworld
  pcs :: "nat \<Rightarrow> mpc"

inductive mstep :: "msys \<Rightarrow> msys \<Rightarrow> bool" where
  lock: "pcs s p = Outside \<or> pcs s p = Retrying \<Longrightarrow> lock_begin p now (mx s, mw s) = ((m, w), r) \<Longrightarrow>
    mstep s \<lparr>mx = m, mw = w, pcs = (pcs s)(p :=
      (case r of Returned rc \<Rightarrow> if rc = 0 then Holding else Retrying | Blocking \<Rightarrow> Asleep))\<rparr>"
| resume: "pcs s p = Asleep \<Longrightarrow> pstate (mw s) p = PROCESS_READY \<Longrightarrow>
    lock_resume p (mx s, set_pstate p PROCESS_RUNNING (mw s)) = ((m, w), rc) \<Longrightarrow>
    mstep s \<lparr>mx = m, mw = w, pcs = (pcs s)(p := (if rc = 0 then Holding else Retrying))\<rparr>"
| unlock: "pcs s p = Holding \<Longrightarrow> kmutex_unlock (mx s, mw s) = (m, w) \<Longrightarrow>
    mstep s \<lparr>mx = m, mw = w, pcs = (pcs s)(p := Outside)\<rparr>"
| wake: "pstate (mw s) p = PROCESS_BLOCKED \<or> pstate (mw s) p = PROCESS_SLEEPING \<Longrightarrow>
    mstep s (s\<lparr>mw := set_pstate p PROCESS_READY (mw s)\<rparr>)"
| run: "pcs s p \<noteq> Asleep \<Longrightarrow> mstep s (s\<lparr>mw := set_pstate p st (mw s)\<rparr>)"

definition minit :: "msys \<Rightarrow> bool" where
  "minit s \<longleftrightarrow> mx s = kmutex_init \<and> (\<forall>p. pcs s p = Outside)"

inductive mreach :: "msys \<Rightarrow> bool" where
  mreach_init: "minit s \<Longrightarrow> mreach s"
| mreach_step: "mreach s \<Longrightarrow> mstep s s' \<Longrightarrow> mreach s'"

text \<open>
  The token of the mutex is in the counter, with the holder, or on its way to a process that was
  taken off the waiter list but has not run yet; and it is in exactly one of these places.
\<close>

definition token :: "msys \<Rightarrow> nat set" where
  "token s = {p. pcs s p = Holding \<or> pcs s p = Asleep \<and> p \<notin> set (sem_list (msem (mx s)))}"

definition minv :: "msys \<Rightarrow> bool" where
  "minv s \<longleftrightarrow>
     sem_ok (msem (mx s)) \<and> distinct (sem_list (msem (mx s))) \<and>
     (\<forall>p \<in> set (sem_list (msem (mx s))). pcs s p = Asleep) \<and>
     (sem_count (msem (mx s)) = 1 \<and> token s = {} \<or> sem_count (msem (mx s)) = 0 \<and> (\<exists>p. token s = {p}))"

lemma minv_init: "minit s \<Longrightarrow> minv s"
  by (auto simp: minit_def minv_def token_def kmutex_init_def)

lemma minv_lock:
  assumes inv: "minv s" and pc: "pcs s p = Outside \<or> pcs s p = Retrying"
    and l: "lock_begin p now (mx s, mw s) = ((m, w), r)"
    and s': "s' = \<lparr>mx = m, mw = w, pcs = (pcs s)(p :=
      (case r of Returned rc \<Rightarrow> if rc = 0 then Holding else Retrying | Blocking \<Rightarrow> Asleep))\<rparr>"
  shows "minv s'"
proof -
  obtain q where b: "ksem_wait_begin (Some p) 0 now (msem (mx s), mw s) = ((q, w), r)" "m = (mx s)\<lparr>msem := q\<rparr>"
    using l by (auto simp: lock_begin_def split: prod.splits)
  have p: "p \<notin> set (sem_list (msem (mx s)))" "p \<notin> token s" using inv pc by (auto simp: minv_def token_def)
  have ok: "sem_ok (msem (mx s))" using inv by (simp add: minv_def)
  from ok b(1) show ?thesis
  proof (cases rule: ksem_wait_begin_cases)
    case taken
    then have "token s' = insert p (token s)" using p pc b(2) by (auto simp: s' token_def)
    with taken inv p b(2) show ?thesis by (auto simp: minv_def s')
  next
    case full
    then have "token s' = token s" using pc b(2) by (auto simp: s' token_def)
    with full inv p b(2) show ?thesis by (auto simp: minv_def s')
  next
    case (block me)
    then have "token s' = token s" using p pc b(2) by (auto simp: s' token_def)
    with block inv p b(2) show ?thesis by (auto simp: minv_def s')
  qed
qed

lemma minv_resume:
  assumes inv: "minv s" and pc: "pcs s p = Asleep"
    and l: "lock_resume p (mx s, w0) = ((m, w), rc)"
    and s': "s' = \<lparr>mx = m, mw = w, pcs = (pcs s)(p := (if rc = 0 then Holding else Retrying))\<rparr>"
  shows "minv s'"
proof -
  obtain q where b: "ksem_wait_resume p 0 (msem (mx s), w0) = ((q, w), rc)" "m = (mx s)\<lparr>msem := q\<rparr>"
    using l by (auto simp: lock_resume_def split: prod.splits)
  have ok: "sem_ok (msem (mx s))" using inv by (simp add: minv_def)
  from ok b(1) show ?thesis
  proof (cases rule: ksem_wait_resume_cases)
    case granted
    then have "token s' = token s" using pc b(2) by (auto simp: s' token_def)
    with granted inv b(2) show ?thesis by (auto simp: minv_def s')
  next
    case (removed as bs)
    have "p \<notin> set bs" using inv removed(1) by (auto simp: minv_def)
    then have "token s' = token s" using removed pc b(2) by (auto simp: s' token_def)
    with removed inv b(2) show ?thesis by (auto simp: minv_def s')
  qed
qed

lemma minv_unlock:
  assumes inv: "minv s" and pc: "pcs s p = Holding" and l: "kmutex_unlock (mx s, mw s) = (m, w)"
    and s': "s' = \<lparr>mx = m, mw = w, pcs = (pcs s)(p := Outside)\<rparr>"
  shows "minv s'"
proof -
  obtain q where b: "ksem_signal (msem (mx s), mw s) = (q, w)" "m = (mx s)\<lparr>msem := q\<rparr>"
    using l by (auto simp: kmutex_unlock_def split: prod.splits)
  have "p \<in> token s" using pc by (simp add: token_def)
  then have tok: "token s = {p}" "sem_count (msem (mx s)) = 0" using inv by (auto simp: minv_def)
  have p: "p \<notin> set (sem_list (msem (mx s)))" using inv pc by (auto simp: minv_def)
  have ok: "sem_ok (msem (mx s))" using inv by (simp add: minv_def)
  from ok show ?thesis
  proof (cases rule: ksem_signal_cases [where w = "mw s"])
    case post
    then have q: "q = (msem (mx s))\<lparr>sem_count := sem_count (msem (mx s)) + 1\<rparr>" using b(1) by simp
    have "token s' = token s - {p}" using p b(2) q by (auto simp: s' token_def)
    with q tok inv p b(2) show ?thesis by (auto simp: minv_def s')
  next
    case (wake q' as r bs)
    then have q: "q' = q" using b(1) by simp
    have r: "r \<noteq> p" "pcs s r = Asleep" "r \<notin> set (as @ bs)" using inv p wake(4) by (auto simp: minv_def)
    have "token s' = insert r (token s - {p})" using p b(2) q wake(4,5) r by (auto simp: s' token_def)
    with q tok inv p b(2) wake r show ?thesis by (auto simp: minv_def s')
  qed
qed

lemma minv_world: "minv (s\<lparr>mw := w\<rparr>) = minv s"
  by (simp add: minv_def token_def)

lemma minv_reach: "mreach s \<Longrightarrow> minv s"
proof (induction rule: mreach.induct)
  case (mreach_step s s')
  from mreach_step.hyps(2) mreach_step.IH show ?case
    by (cases rule: mstep.cases) (auto simp: minv_world intro: minv_lock minv_resume minv_unlock)
qed (rule minv_init)

text \<open>
  C11. Mutual exclusion. In every state that processes can reach by locking and unlocking a mutex, with
  any wake-ups in between, at most one process holds the mutex.
\<close>

theorem kmutex_mutual_exclusion:
  assumes "mreach s" "pcs s p = Holding" "pcs s q = Holding"
  shows "p = q"
proof -
  have "p \<in> token s" "q \<in> token s" using assms(2,3) by (auto simp: token_def)
  with minv_reach [OF assms(1)] show ?thesis by (auto simp: minv_def)
qed

theorem kmutex_mutual_exclusion_witness:
  "\<exists>s. mreach s \<and> pcs s 5 = Holding \<and> (\<forall>q. pcs s q = Holding \<longrightarrow> q = 5)"
proof -
  let ?w = "\<lparr>pstate = \<lambda>_. PROCESS_RUNNING, wake_at_tick = \<lambda>_. 0, enqueued = []\<rparr>"
  let ?s0 = "\<lparr>mx = kmutex_init, mw = ?w, pcs = \<lambda>_. Outside\<rparr>"
  let ?m = "kmutex_init\<lparr>msem := ksem_init 0\<rparr>"
  have "mreach ?s0" by (rule mreach_init) (simp add: minit_def)
  moreover have "mstep ?s0 \<lparr>mx = ?m, mw = ?w, pcs = (pcs ?s0)(5 := (case Returned 0 of Returned rc \<Rightarrow>
      if rc = 0 then Holding else Retrying | Blocking \<Rightarrow> Asleep))\<rparr>"
    by (rule lock [of _ 5 0]) (simp_all add: lock_begin_def ksem_wait_begin_def kmutex_init_def ksem_init_def)
  ultimately have r: "mreach \<lparr>mx = ?m, mw = ?w, pcs = (\<lambda>_. Outside)(5 := Holding)\<rparr>"
    using mreach_step by fastforce
  show ?thesis
  proof (intro exI conjI allI impI)
    show "mreach \<lparr>mx = ?m, mw = ?w, pcs = (\<lambda>_. Outside)(5 := Holding)\<rparr>" by (rule r)
    fix q assume "pcs \<lparr>mx = ?m, mw = ?w, pcs = (\<lambda>_. Outside)(5 := Holding)\<rparr> q = Holding"
    from kmutex_mutual_exclusion [OF r this, of 5] show "q = 5" by simp
  qed simp
qed

text \<open>
  A signal is never lost and never doubled: if some process of the waiter list is still blocked or
  sleeping, the first such process, and only it, leaves the list, becomes ready and is handed to
  the scheduler, while the counter and the order of the others stay; if there is none, only the
  counter goes up by one.
\<close>

theorem ksem_signal_fifo:
  assumes "sem_ok s" "ksem_signal (s, w) = (s', w')"
  shows "sem_ok s' \<and>
    (case find (\<lambda>p. can_wake w (Some p)) (sem_list s) of
       None \<Rightarrow> sem_list s' = sem_list s \<and> sem_count s' = sem_count s + 1 \<and> w' = w
     | Some p \<Rightarrow> sem_list s' = remove1 p (sem_list s) \<and> sem_count s' = sem_count s \<and>
         pstate w' = (pstate w)(p := PROCESS_READY) \<and> enqueued w' = enqueued w @ [p])"
  using assms(1)
proof (cases rule: ksem_signal_cases [where w = w])
  case post
  then have "find (\<lambda>p. can_wake w (Some p)) (sem_list s) = None" by (auto simp: find_None_iff)
  with post assms show ?thesis by simp
next
  case (wake s1 as p bs)
  then have "p \<notin> set as" by auto
  moreover have "find (\<lambda>p. can_wake w (Some p)) (sem_list s) = Some p"
    unfolding wake(4) using wake(6,7) by (intro find_append_Cons) auto
  ultimately show ?thesis using wake assms(2) by (simp add: remove1_append make_ready_def)
qed

theorem ksem_signal_fifo_witness:
  "\<exists>s' w'. ksem_signal (ksem_init 0, \<lparr>pstate = \<lambda>_. PROCESS_READY, wake_at_tick = \<lambda>_. 0, enqueued = []\<rparr>) = (s', w') \<and>
     sem_count s' = 1"
proof -
  obtain s' w' where r: "ksem_signal (ksem_init 0, \<lparr>pstate = \<lambda>_. PROCESS_READY, wake_at_tick = \<lambda>_. 0, enqueued = []\<rparr>) = (s', w')"
    by fastforce
  with ksem_signal_fifo [OF _ r] show ?thesis by simp
qed

section \<open>Mailboxes as queues\<close>

definition mbox_ok :: "kmbox \<times> pworld \<Rightarrow> bool" where
  "mbox_ok = (\<lambda>(mb, w). length (msgs mb) = 32 \<and> 0 < capacity mb \<and> capacity mb \<le> 32 \<and>
     mb_head mb < unat (capacity mb) \<and> mb_count mb \<le> capacity mb \<and>
     mb_tail mb = (mb_head mb + unat (mb_count mb)) mod unat (capacity mb) \<and>
     sem_ok (not_empty mb) \<and> sem_ok (not_full mb))"

definition mbox_list :: "kmbox \<times> pworld \<Rightarrow> u32 list" where
  "mbox_list = (\<lambda>(mb, w). ring_list (msgs mb) (mb_head mb) (unat (mb_count mb)) (unat (capacity mb)))"

definition mbox_cap :: "kmbox \<times> pworld \<Rightarrow> nat" where
  "mbox_cap = (\<lambda>(mb, w). unat (capacity mb))"

definition trypost :: "u32 \<Rightarrow> kmbox \<times> pworld \<Rightarrow> (kmbox \<times> pworld) \<times> bool" where
  "trypost msg s = (let (s, r) = kmbox_trypost msg s in (s, r = 0))"

lemma ksem_signal_ok: "sem_ok s \<Longrightarrow> sem_ok (fst (ksem_signal (s, w)))"
  by (cases rule: ksem_signal_cases [of s w]) auto

lemma signal_not_empty_fields:
  "sem_ok (not_empty mb) \<Longrightarrow> \<exists>s w'. signal_not_empty (mb, w) = (mb\<lparr>not_empty := s\<rparr>, w') \<and> sem_ok s"
  using ksem_signal_ok [of "not_empty mb" w] by (auto simp: signal_not_empty_def split: prod.splits)

lemma signal_not_full_fields:
  "sem_ok (not_full mb) \<Longrightarrow> \<exists>s w'. signal_not_full (mb, w) = (mb\<lparr>not_full := s\<rparr>, w') \<and> sem_ok s"
  using ksem_signal_ok [of "not_full mb" w] by (auto simp: signal_not_full_def split: prod.splits)

lemma unat_succ_le: "(x :: u32) < y \<Longrightarrow> unat (x + 1) = unat x + 1"
proof -
  assume "x < y"
  moreover have "unat y < 2 ^ LENGTH(32)" by (rule unsigned_less)
  ultimately have "unat x + unat (1 :: u32) < 2 ^ LENGTH(32)" by (simp add: word_less_nat_alt)
  then show ?thesis using unat_add_lem [of x 1] by simp
qed

lemma unat_pred: "(x :: u32) \<noteq> 0 \<Longrightarrow> unat (x - 1) = unat x - 1"
  by (simp add: unat_minus_one)

interpretation mbox: bounded_fifo mbox_ok mbox_list mbox_cap trypost kmbox_tryfetch
proof unfold_locales
  fix s :: "kmbox \<times> pworld" and x
  obtain mb w where s: "s = (mb, w)" by fastforce
  assume ok: "mbox_ok s" and len: "length (mbox_list s) < mbox_cap s"
  let ?c = "unat (capacity mb)" and ?n = "unat (mb_count mb)"
  have lt: "mb_count mb < capacity mb" using len by (simp add: s mbox_list_def mbox_cap_def word_less_nat_alt)
  note n1 = unat_succ_le [OF lt]
  have b: "length (msgs mb) = 32" "?c \<le> 32" "mb_head mb < ?c" "mb_tail mb = (mb_head mb + ?n) mod ?c" "?n < ?c"
    "sem_ok (not_empty mb)" "sem_ok (not_full mb)"
    using ok lt by (auto simp: s mbox_ok_def word_le_nat_alt word_less_nat_alt)
  have l: "ring_list ((msgs mb)[mb_tail mb := x]) (mb_head mb) (Suc ?n) ?c = ring_list (msgs mb) (mb_head mb) ?n ?c @ [x]"
    unfolding b(4) by (rule ring_list_push) (use b in auto)
  obtain e w' where e: "signal_not_empty (mb_put x mb, w) = ((mb_put x mb)\<lparr>not_empty := e\<rparr>, w')" "sem_ok e"
    using signal_not_empty_fields [of "mb_put x mb" w] b(6) by (auto simp: mb_put_def)
  have "trypost x s = (((mb_put x mb)\<lparr>not_empty := e\<rparr>, w'), True)"
    using lt e(1) by (simp add: trypost_def kmbox_trypost_def s linorder_not_le [symmetric])
  moreover have "mbox_ok ((mb_put x mb)\<lparr>not_empty := e\<rparr>, w')"
    using ok b n1 e(2) by (auto simp: mbox_ok_def mb_put_def s word_le_nat_alt mod_Suc_eq)
  moreover have "mbox_list ((mb_put x mb)\<lparr>not_empty := e\<rparr>, w') = mbox_list s @ [x]"
    using l n1 by (simp add: mbox_list_def mb_put_def s)
  ultimately show "\<exists>s'. trypost x s = (s', True) \<and> mbox_ok s' \<and> mbox_list s' = mbox_list s @ [x] \<and> mbox_cap s' = mbox_cap s"
    by (auto simp: mbox_cap_def mb_put_def s)
next
  fix s :: "kmbox \<times> pworld" and x
  assume "mbox_ok s" "mbox_cap s \<le> length (mbox_list s)"
  then show "trypost x s = (s, False)"
    by (cases s) (auto simp: trypost_def kmbox_trypost_def mbox_cap_def mbox_list_def word_le_nat_alt)
next
  fix s :: "kmbox \<times> pworld" and x xs
  obtain mb w where s: "s = (mb, w)" by fastforce
  assume ok: "mbox_ok s" and len: "mbox_list s = x # xs"
  let ?c = "unat (capacity mb)" and ?n = "unat (mb_count mb)"
  have nz: "mb_count mb \<noteq> 0" using len by (auto simp: s mbox_list_def)
  have b: "mb_head mb < ?c" "mb_tail mb = (mb_head mb + ?n) mod ?c" "?n \<le> ?c" "0 < ?n"
    "sem_ok (not_empty mb)" "sem_ok (not_full mb)"
    using ok nz by (auto simp: s mbox_ok_def word_le_nat_alt unat_gt_0)
  note l = ring_list_pop [OF b(4) b(1), of "msgs mb"]
  define mb' where "mb' = fst (mb_take mb)"
  obtain f w' where f: "signal_not_full (mb', w) = (mb'\<lparr>not_full := f\<rparr>, w')" "sem_ok f"
    using signal_not_full_fields [of mb' w] b(6) by (auto simp: mb_take_def mb'_def)
  have hd: "msgs mb ! mb_head mb = x" "ring_list (msgs mb) ((mb_head mb + 1) mod ?c) (?n - 1) ?c = xs"
    using l len by (auto simp: s mbox_list_def)
  have "kmbox_tryfetch s = ((mb'\<lparr>not_full := f\<rparr>, w'), Some x)"
    using nz f(1) hd(1) by (simp add: kmbox_tryfetch_def s mb_take_def mb'_def)
  moreover have "((mb_head mb + 1) mod ?c + (?n - 1)) mod ?c = (mb_head mb + ?n) mod ?c"
    using b(4) mod_add_left_eq [of "mb_head mb + 1" ?c "?n - 1"] by simp
  then have "mbox_ok (mb'\<lparr>not_full := f\<rparr>, w')"
    using ok b f(2) nz unat_pred [OF nz] by (auto simp: mbox_ok_def mb_take_def mb'_def s word_le_nat_alt)
  moreover have "mbox_list (mb'\<lparr>not_full := f\<rparr>, w') = xs"
    using hd(2) unat_pred [OF nz] by (simp add: mbox_list_def mb_take_def mb'_def)
  ultimately show "\<exists>s'. kmbox_tryfetch s = (s', Some x) \<and> mbox_ok s' \<and> mbox_list s' = xs \<and> mbox_cap s' = mbox_cap s"
    by (auto simp: mbox_cap_def s mb_take_def mb'_def)
next
  fix s :: "kmbox \<times> pworld"
  assume "mbox_ok s" "mbox_list s = []"
  then have "length (mbox_list s) = 0" by simp
  then show "kmbox_tryfetch s = (s, None)"
    by (cases s) (auto simp: kmbox_tryfetch_def mbox_list_def unat_eq_zero)
qed

lemma kmbox_init_ok: "mbox_ok (kmbox_init n, w)" "mbox_list (kmbox_init n, w) = []"
  by (auto simp: mbox_ok_def mbox_list_def kmbox_init_def Let_def KMBOX_MAX_MSGS_def word_less_nat_alt
      word_le_nat_alt unat_gt_0)



text \<open>
  The non-blocking operations do not take the tokens of the semaphores, so mixing them with the
  blocking ones breaks the count: after one message was posted and fetched without blocking, the
  mailbox is empty, yet \<^verbatim>\<open>kmbox_fetch\<close> finds a token, returns at once and wraps the count below zero.
\<close>

theorem kmbox_fetch_underflow:
  "\<exists>s1 s2 s3. kmbox_trypost m (kmbox_init n, w) = (s1, 0) \<and> kmbox_tryfetch s1 = (s2, Some m) \<and>
     mb_count (fst s2) = 0 \<and> kmbox_fetch_begin cur timeout_ms now s2 = (s3, Returned 0) \<and>
     mb_count (fst (fst (kmbox_fetch_commit s3))) = 0xFFFFFFFF"
proof -
  have post: "ksem_signal (ksem_init c, w) = (ksem_init (c + 1), w)" for c w
    by (simp add: ksem_signal_def ksem_init_def)
  have wait: "ksem_wait_begin cur timeout_ms now (ksem_init 1, w) = ((ksem_init 0, w), Returned 0)" for w
    by (simp add: ksem_wait_begin_def ksem_init_def)
  have cap: "0 < capacity (kmbox_init n)"
    using kmbox_init_ok(1) [of n w] by (simp add: mbox_ok_def)
  then show ?thesis
    by (simp add: kmbox_trypost_def kmbox_tryfetch_def kmbox_fetch_begin_def kmbox_fetch_commit_def
        signal_not_empty_def signal_not_full_def mb_put_def mb_take_def kmbox_init_def Let_def
        KMBOX_MAX_MSGS_def post wait)
qed

section \<open>Condition variables\<close>

lemma broadcast_loop_spec:
  assumes "distinct (map the xs)" "None \<notin> set xs" "drop i a = xs @ ys" "i + length xs \<le> length a"
    "broadcast_loop i (length xs) a w wl = (a', w', wl')"
  shows "wl' = wl @ filter (\<lambda>p. can_wake w (Some p)) (map the xs) \<and> length a' = length a \<and>
    (\<forall>p. pstate w' p = (if p \<in> set (map the xs) \<and> can_wake w (Some p) then PROCESS_READY else pstate w p)) \<and>
    enqueued w' = enqueued w"
  using assms
proof (induction xs arbitrary: i a w wl)
  case (Cons x xs)
  obtain p where x: "x = Some p" using Cons.prems(2) by (cases x) auto
  have ai: "a ! i = Some p" using Cons.prems(3,4) x by (metis Cons_nth_drop_Suc append_Cons drop_all list.inject list.simps(3) not_le)
  have dr: "drop (Suc i) (a[i := v]) = xs @ ys" for v
    using Cons.prems(3) by (metis append_Cons drop_Suc drop_update_cancel lessI list.sel(3) tl_drop)
  have dr': "drop (Suc i) a = xs @ ys"
    using Cons.prems(3) by (metis append_Cons drop_Suc list.sel(3) tl_drop)
  have np: "p \<notin> set (map the xs)" using Cons.prems(1) x by simp
  show ?case
  proof (cases "can_wake w (Some p)")
    case True
    let ?w = "make_ready p w"
    have st: "can_wake ?w (Some q) = can_wake w (Some q)" if "q \<noteq> p" for q
      using that by (simp add: can_wake_def make_ready_def)
    have "broadcast_loop (Suc i) (length xs) (a[i := None]) ?w (wl @ [p]) = (a', w', wl')"
      using Cons.prems(5) True ai x by simp
    from Cons.IH [OF _ _ dr _ this] Cons.prems(1,2,4)
    have *: "wl' = (wl @ [p]) @ filter (\<lambda>q. can_wake ?w (Some q)) (map the xs)" "length a' = length a"
      "\<forall>q. pstate w' q = (if q \<in> set (map the xs) \<and> can_wake ?w (Some q) then PROCESS_READY else pstate ?w q)"
      "enqueued w' = enqueued w" by (auto simp: make_ready_def)
    have "filter (\<lambda>q. can_wake ?w (Some q)) (map the xs) = filter (\<lambda>q. can_wake w (Some q)) (map the xs)"
      by (rule filter_cong [OF refl st]) (use np in blast)
    moreover have "pstate w' q = (if q \<in> set (map the (x # xs)) \<and> can_wake w (Some q) then PROCESS_READY else pstate w q)" for q
      using *(3) np st [of q] True x by (cases "q = p") (auto simp: make_ready_def)
    ultimately show ?thesis using *(1,2,4) True x by simp
  next
    case False
    have "broadcast_loop (Suc i) (length xs) a w wl = (a', w', wl')" using Cons.prems(5) False ai x by simp
    from Cons.IH [OF _ _ dr' _ this] Cons.prems(1,2,4) show ?thesis using False x by auto
  qed
qed simp

lemma fold_enqueue_ready:
  "pstate (fold enqueue_ready ps w) = pstate w" "enqueued (fold enqueue_ready ps w) = enqueued w @ ps"
  by (induction ps arbitrary: w) simp_all

text \<open>
  C13. A broadcast makes every process that waits on the condition variable ready and hands each to the
  scheduler once, in the order of arrival; afterwards nobody waits.
\<close>

theorem kcond_broadcast_wakes_all:
  assumes "warray (cv_waiters cv) (cv_nwaiters cv)" "distinct (wlist (cv_waiters cv) (cv_nwaiters cv))"
    and "kcond_broadcast (cv, w) = (cv', w')"
  shows "wlist (cv_waiters cv') (cv_nwaiters cv') = [] \<and>
    enqueued w' = enqueued w @ filter (\<lambda>p. can_wake w (Some p)) (wlist (cv_waiters cv) (cv_nwaiters cv)) \<and>
    (\<forall>p. pstate w' p = (if p \<in> set (wlist (cv_waiters cv) (cv_nwaiters cv)) \<and> can_wake w (Some p)
       then PROCESS_READY else pstate w p))"
proof -
  let ?n = "cv_nwaiters cv" and ?a = "cv_waiters cv"
  obtain a' w1 wl where b: "broadcast_loop 0 ?n ?a w [] = (a', w1, wl)" by (metis prod_cases3)
  have n: "?n = length (take ?n ?a)" using assms(1) by (simp add: warray_def)
  have "wl = [] @ filter (\<lambda>p. can_wake w (Some p)) (map the (take ?n ?a)) \<and> length a' = length ?a \<and>
    (\<forall>p. pstate w1 p = (if p \<in> set (map the (take ?n ?a)) \<and> can_wake w (Some p) then PROCESS_READY else pstate w p)) \<and>
    enqueued w1 = enqueued w"
    by (rule broadcast_loop_spec [where i = 0 and ys = "drop ?n ?a"])
      (use assms b n in \<open>auto simp: warray_def wlist_def\<close>)
  moreover have "cv_nwaiters cv' = 0" "w' = fold enqueue_ready wl w1"
    using assms(3) b by (auto simp: kcond_broadcast_def)
  ultimately show ?thesis by (simp add: wlist_def fold_enqueue_ready)
qed

theorem kcond_broadcast_wakes_all_witness:
  "\<exists>cv' w'. kcond_broadcast (\<lparr>cv_waiters = [Some 4, Some 8] @ replicate 62 None, cv_nwaiters = 2\<rparr>,
       \<lparr>pstate = (\<lambda>_. PROCESS_READY)(8 := PROCESS_SLEEPING), wake_at_tick = \<lambda>_. 0, enqueued = []\<rparr>) = (cv', w') \<and>
     enqueued w' = [8]"
proof -
  let ?cv = "\<lparr>cv_waiters = [Some 4, Some 8] @ replicate 62 None, cv_nwaiters = 2\<rparr>"
  let ?w = "\<lparr>pstate = (\<lambda>_. PROCESS_READY)(8 := PROCESS_SLEEPING), wake_at_tick = \<lambda>_. 0, enqueued = []\<rparr>"
  obtain cv' w' where r: "kcond_broadcast (?cv, ?w) = (cv', w')" by fastforce
  have "warray (cv_waiters ?cv) (cv_nwaiters ?cv)" by (simp add: warray_def)
  from kcond_broadcast_wakes_all [OF this _ r] have "enqueued w' = [8]" by (simp add: wlist_def can_wake_def)
  with r show ?thesis by blast
qed

end
