(* ===== verification/Scheduler.thy ===== *)
theory Scheduler
  imports Process
begin

unbundle bit_operations_syntax

text \<open>
  The scheduler of \<^verbatim>\<open>src/kernel/scheduler.c\<close>: choosing the next process, sleeping and waking, alarms and
  interval timers, and balancing the load of the CPUs. Every operation takes the number of the CPU it
  runs on (\<^verbatim>\<open>percpu_cpu_index()\<close>); each runs under \<^verbatim>\<open>sched_lock\<close> and is one step of the state. The
  switch to another stack at the end of \<^verbatim>\<open>schedule\<close> is the change of \<^verbatim>\<open>current_process\<close>.
\<close>

section \<open>The code\<close>

definition sched_ipi_resched :: "nat \<Rightarrow> nat \<Rightarrow> sched \<Rightarrow> sched" where
  "sched_ipi_resched my target s = (if target = my then s else emit (Ipi target) s)"

definition enqueue_on :: "nat \<Rightarrow> nat \<Rightarrow> sched \<Rightarrow> sched" where
  "enqueue_on r p s = s\<lparr>rqs := rq_enqueue r (priority (procs s p)) p (rqs s)\<rparr>"

definition dequeue_from :: "nat \<Rightarrow> nat \<Rightarrow> sched \<Rightarrow> sched" where
  "dequeue_from r p s = s\<lparr>rqs := rq_dequeue r (priority (procs s p)) p (rqs s)\<rparr>"

definition sleep_remove :: "nat \<Rightarrow> sched \<Rightarrow> sched" where
  "sleep_remove p s = s\<lparr>sleepq := sleep_queue_remove p (sleepq s)\<rparr>"

definition sleep_insert :: "nat \<Rightarrow> sched \<Rightarrow> sched" where
  "sleep_insert p s =
     s\<lparr>sleepq := sleep_queue_insert (length (plist s)) (\<lambda>q. wake_at (procs s q)) p (sleepq s)\<rparr>"

definition alarm_remove :: "nat \<Rightarrow> sched \<Rightarrow> sched" where
  "alarm_remove p s = s\<lparr>alarmq := alarm_queue_remove p (alarmq s)\<rparr>"

definition alarm_insert :: "nat \<Rightarrow> sched \<Rightarrow> sched" where
  "alarm_insert p s =
     s\<lparr>alarmq := alarm_queue_insert (length (plist s)) (\<lambda>q. alarm_tick (procs s q)) p (alarmq s)\<rparr>"

definition rq_pick_next :: "nat \<Rightarrow> sched \<Rightarrow> sched \<times> nat option" where
  "rq_pick_next c s =
     (let a = active_rq s c; m = rq_map (rqs s) a in
      if m \<noteq> 0 then (s, qhead (rqs s) a (bsf32 m))
      else let s = s\<lparr>active_store := (active_store s)(c := 1 - active_store s c)\<rparr>;
               a = active_rq s c; m = rq_map (rqs s) a in
           if m \<noteq> 0 then (s, qhead (rqs s) a (bsf32 m)) else (s, None))"

definition rq_remove_if_queued :: "nat \<Rightarrow> sched \<Rightarrow> sched" where
  "rq_remove_if_queued p s =
     (let c = clamp_cpu (cpu_id (procs s p)) in
      case find (\<lambda>(r, k). bit (rq_map (rqs s) r) k \<and>
                   on_list (Suc (length (plist s))) (rqs s) (qhead (rqs s) r k) p)
             (map (Pair (active_rq s c)) [0..<SCHED_NUM_PRIOS] @ map (Pair (expired_rq s c)) [0..<SCHED_NUM_PRIOS]) of
        Some (r, k) \<Rightarrow> dequeue_from r p s
      | None \<Rightarrow> s)"

text \<open>What four places of the code do with a process that has become ready.\<close>

definition wake_process :: "nat \<Rightarrow> nat \<Rightarrow> sched \<Rightarrow> sched" where
  "wake_process c p s =
     (let s = upd p (state_update (\<lambda>_. PROCESS_READY)) s;
          s = enqueue_on (active_rq s c) p s
      in sched_pcpu_inc_load c s)"

definition sched_enqueue_ready :: "nat \<Rightarrow> nat \<Rightarrow> sched \<Rightarrow> sched" where
  "sched_enqueue_ready my p s =
     (let s = sleep_remove p s in
      if state (procs s p) = PROCESS_READY
      then let t = clamp_cpu (cpu_id (procs s p));
               s = enqueue_on (active_rq s t) p s;
               s = sched_pcpu_inc_load t s
           in sched_ipi_resched my t s
      else s)"

text \<open>The process that gave up the CPU, before the next one is chosen: \<^term>\<open>None\<close> if it keeps it.\<close>

definition schedule_prev :: "nat \<Rightarrow> nat \<Rightarrow> sched \<Rightarrow> sched" where
  "schedule_prev c prev s =
     (if state (procs s prev) = PROCESS_RUNNING
      then let s = upd prev (\<lambda>p. p\<lparr>state := PROCESS_READY,
                 priority := (if priority p < SCHED_NUM_PRIOS - 1 then priority p + 1 else priority p)\<rparr>) s
           in enqueue_on (expired_rq s c) prev s
      else if state (procs s prev) = PROCESS_SLEEPING \<and> \<not> tq_in (sleepq s) prev
      then sleep_insert prev (sleep_remove prev s)
      else s)"

definition schedule_next :: "nat \<Rightarrow> nat \<Rightarrow> sched \<Rightarrow> sched \<times> nat option" where
  "schedule_next c prev s =
     (let (s, nxt) = rq_pick_next c s in
      case nxt of
        Some n \<Rightarrow> (sched_pcpu_dec_load c (dequeue_from (active_rq s c) n s), Some n)
      | None \<Rightarrow>
          if state (procs s prev) = PROCESS_READY
          then (dequeue_from (active_rq s c) prev s, Some prev)
          else case idle_of s c of
                 Some i \<Rightarrow> (s, Some i)
               | None \<Rightarrow> (case find (\<lambda>p. pid (procs s p) = 0) (plist s) of
                            Some i \<Rightarrow> (s, Some i)
                          | None \<Rightarrow> (s, case plist s of [] \<Rightarrow> None | p # _ \<Rightarrow> Some p)))"

definition KSTACK_SIZE :: u32 where "KSTACK_SIZE = 0x2000"

definition switch_to :: "nat \<Rightarrow> nat \<Rightarrow> nat \<Rightarrow> sched \<Rightarrow> sched" where
  "switch_to c prev n s =
     (let s = upd n (\<lambda>p. p\<lparr>state := PROCESS_RUNNING, time_slice := SCHED_TIME_SLICE\<rparr>) s in
      if prev = n then s
      else let s = s\<lparr>current := (current s)(c := Some n)\<rparr>;
               a = addr_space (procs s n);
               s = (if a \<noteq> 0 \<and> a \<noteq> addr_space (procs s prev) then emit (Set_as a) s else s);
               k = kernel_stack (procs s n)
           in if k \<noteq> 0 then emit (Set_kstack (k + KSTACK_SIZE)) s else s)"

definition schedule :: "nat \<Rightarrow> sched \<Rightarrow> sched" where
  "schedule c s =
     (case current s c of
        None \<Rightarrow> s
      | Some prev \<Rightarrow>
          if state (procs s prev) = PROCESS_RUNNING \<and> 0 < time_slice (procs s prev)
          then upd prev (\<lambda>p. p\<lparr>time_slice := time_slice p - 1\<rparr>) s
          else (case schedule_next c prev (schedule_prev c prev s) of
                  (s, Some n) \<Rightarrow> switch_to c prev n s
                | (s, None) \<Rightarrow> s))"

definition process_sleep :: "u32 \<Rightarrow> u32 \<Rightarrow> nat \<Rightarrow> sched \<Rightarrow> sched" where
  "process_sleep now ticks c s =
     (case current s c of
        None \<Rightarrow> s
      | Some p \<Rightarrow>
          let s = upd p (\<lambda>x. x\<lparr>wake_at := now + ticks, state := PROCESS_SLEEPING\<rparr>) s;
              s = sleep_insert p (sleep_remove p s)
          in schedule c s)"

text \<open>The two loops of the timer interrupt, with fuel; the second one may run forever.\<close>

fun wake_loop :: "nat \<Rightarrow> u32 \<Rightarrow> u32 \<Rightarrow> sched \<Rightarrow> sched \<times> u32" where
  "wake_loop 0 now ipis s = (s, ipis)"
| "wake_loop (Suc n) now ipis s =
     (case tq_head (sleepq s) of
        None \<Rightarrow> (s, ipis)
      | Some p \<Rightarrow>
          if wake_at (procs s p) \<le> now
          then let s = sleep_remove p s in
               if state (procs s p) = PROCESS_SLEEPING
               then let s = upd p (\<lambda>x. x\<lparr>priority := priority x - 1\<rparr>) s;
                        t = clamp_cpu (cpu_id (procs s p));
                        s = wake_process t p s
                    in wake_loop n now (if t < 32 then ipis OR push_bit t 1 else ipis) s
               else wake_loop n now ipis s
          else (s, ipis))"

definition alarm_fire :: "u32 \<Rightarrow> nat \<Rightarrow> sched \<Rightarrow> sched" where
  "alarm_fire now p s =
     (let s = alarm_remove p s;
          s = upd p (\<lambda>x. x\<lparr>sig_pending_mask := sig_pending_mask x OR push_bit 14 1\<rparr>) s
      in if alarm_interval (procs s p) \<noteq> 0
         then alarm_insert p (upd p (\<lambda>x. x\<lparr>alarm_tick := now + alarm_interval x\<rparr>) s)
         else upd p (\<lambda>x. x\<lparr>alarm_tick := 0\<rparr>) s)"

definition alarm_due :: "u32 \<Rightarrow> sched \<Rightarrow> nat option" where
  "alarm_due now s =
     (case tq_head (alarmq s) of None \<Rightarrow> None | Some p \<Rightarrow> if alarm_tick (procs s p) \<le> now then Some p else None)"

partial_function (option) alarm_loop :: "u32 \<Rightarrow> sched \<Rightarrow> sched option" where
  "alarm_loop now s =
     (case alarm_due now s of None \<Rightarrow> Some s | Some p \<Rightarrow> alarm_loop now (alarm_fire now p s))"

text \<open>The interval timers of a running process count down one tick.\<close>

definition itimers_tick :: "process \<Rightarrow> process" where
  "itimers_tick p =
     (let p = (if 0 < itimer_virt_value p
               then if itimer_virt_value p - 1 = 0
                    then p\<lparr>sig_pending_mask := sig_pending_mask p OR push_bit 26 1, itimer_virt_value := itimer_virt_interval p\<rparr>
                    else p\<lparr>itimer_virt_value := itimer_virt_value p - 1\<rparr>
               else p)
      in if 0 < itimer_prof_value p
         then if itimer_prof_value p - 1 = 0
              then p\<lparr>sig_pending_mask := sig_pending_mask p OR push_bit 27 1, itimer_prof_value := itimer_prof_interval p\<rparr>
              else p\<lparr>itimer_prof_value := itimer_prof_value p - 1\<rparr>
         else p)"

definition charge_tick :: "(process \<Rightarrow> process) \<Rightarrow> nat \<Rightarrow> sched \<Rightarrow> sched" where
  "charge_tick f c s =
     (case current s c of
        Some p \<Rightarrow> if state (procs s p) = PROCESS_RUNNING then upd p f s else s
      | None \<Rightarrow> s)"

fun send_ipis :: "nat \<Rightarrow> nat \<Rightarrow> u32 \<Rightarrow> sched \<Rightarrow> sched" where
  "send_ipis 0 my m s = s"
| "send_ipis (Suc n) my m s =
     (if m = 0 then s
      else let k = bsf32 m in send_ipis n my (m AND NOT (push_bit k 1)) (sched_ipi_resched my k s))"

definition process_wake_check :: "u32 \<Rightarrow> nat \<Rightarrow> sched \<Rightarrow> sched option" where
  "process_wake_check now c s =
     (if plist s = [] then Some s
      else let s = charge_tick (\<lambda>p. p\<lparr>utime := utime p + 1\<rparr>) c s;
               (s, ipis) = wake_loop (Suc (length (plist s))) now 0 s
           in case alarm_loop now s of
                None \<Rightarrow> None
              | Some s \<Rightarrow> Some (send_ipis 32 c (ipis AND NOT (push_bit c 1)) (charge_tick itimers_tick c s)))"

definition sched_ap_tick :: "nat \<Rightarrow> sched \<Rightarrow> sched" where
  "sched_ap_tick c s = charge_tick (\<lambda>p. itimers_tick (p\<lparr>utime := utime p + 1\<rparr>)) c s"

definition process_alarm_set :: "nat \<Rightarrow> u32 \<Rightarrow> sched \<Rightarrow> sched \<times> u32" where
  "process_alarm_set p tick s =
     (let old = alarm_tick (procs s p);
          s = alarm_remove p s
      in if tick \<noteq> 0 then (alarm_insert p (upd p (\<lambda>x. x\<lparr>alarm_tick := tick\<rparr>) s), old)
         else (upd p (\<lambda>x. x\<lparr>alarm_tick := 0\<rparr>) s, old))"

text \<open>The first process of a queue that may be moved to another CPU.\<close>

fun migratable :: "nat \<Rightarrow> sched \<Rightarrow> nat option \<Rightarrow> nat option \<Rightarrow> nat option" where
  "migratable 0 s idle it = None"
| "migratable (Suc n) s idle None = None"
| "migratable (Suc n) s idle (Some p) =
     (if Some p \<noteq> idle \<and> state (procs s p) = PROCESS_READY then Some p
      else migratable n s idle (rq_next (rqs s) p))"

definition queue_victim :: "nat \<Rightarrow> sched \<Rightarrow> nat \<times> nat \<Rightarrow> nat option" where
  "queue_victim c s x =
     (if bit (rq_map (rqs s) (fst x)) (snd x)
      then migratable (Suc (length (plist s))) s (idle_of s c) (qhead (rqs s) (fst x) (snd x)) else None)"

definition find_victim :: "nat \<Rightarrow> sched \<Rightarrow> (nat \<times> nat) option" where
  "find_victim c s =
     (let prios = rev [0..<SCHED_NUM_PRIOS];
          queues = map (Pair (expired_rq s c)) prios @ map (Pair (active_rq s c)) prios
      in case find (\<lambda>x. queue_victim c s x \<noteq> None) queues of
           None \<Rightarrow> None
         | Some x \<Rightarrow> map_option (Pair (fst x)) (queue_victim c s x))"

definition load_extremes :: "sched \<Rightarrow> (nat \<times> u32) \<times> (nat \<times> u32)" where
  "load_extremes s =
     foldl (\<lambda>(mx, mn) i.
         let l = sched_pcpu_get_load i s in
         (if snd mx < l then (i, l) else mx, if l < snd mn then (i, l) else mn))
       ((0, 0), (0, -1)) [0..<min (sched_pcpu_count s) SCHED_MAX_CPUS]"

definition sched_load_balance :: "nat \<Rightarrow> sched \<Rightarrow> sched" where
  "sched_load_balance my s =
     (if sched_pcpu_count s \<le> 1 then s
      else let ((maxc, maxl), (minc, minl)) = load_extremes s in
           if maxc = minc \<or> maxl < minl + 2 then s
           else case find_victim maxc s of
                  None \<Rightarrow> s
                | Some (r, v) \<Rightarrow>
                    let s = dequeue_from r v s;
                        s = upd v (\<lambda>p. p\<lparr>cpu_id := minc\<rparr>) s;
                        s = enqueue_on (active_rq s minc) v s;
                        s = sched_pcpu_inc_load minc (sched_pcpu_dec_load maxc s)
                    in sched_ipi_resched my minc s)"

section \<open>The invariant\<close>

text \<open>
  \<open>core\<close> says that the pointers of the queues stand for the lists \<open>Q\<close>, \<open>S\<close> and \<open>A\<close>: a process is queued
  under its own priority, and the timer queues are sorted. \<open>ready_ok\<close> ties the runqueues to the states:
  the queued processes are exactly the ready ones.
\<close>

definition core :: "sched \<Rightarrow> (nat \<Rightarrow> nat \<Rightarrow> nat list) \<Rightarrow> nat list \<Rightarrow> nat list \<Rightarrow> bool" where
  "core s Q S A \<longleftrightarrow>
     rq_ok (rqs s) Q \<and> (\<forall>r k p. p \<in> set (Q r k) \<longrightarrow> priority (procs s p) = k \<and> p \<in> set (plist s)) \<and>
     (\<forall>p. priority (procs s p) < 32) \<and> (\<forall>c. active_store s c \<le> 1) \<and> distinct (plist s) \<and>
     tq_rep (sleepq s) S \<and> sorted (map (\<lambda>p. wake_at (procs s p)) S) \<and> set S \<subseteq> set (plist s) \<and>
     tq_rep (alarmq s) A \<and> sorted (map (\<lambda>p. alarm_tick (procs s p)) A) \<and> set A \<subseteq> set (plist s)"

definition ready_ok :: "sched \<Rightarrow> (nat \<Rightarrow> nat \<Rightarrow> nat list) \<Rightarrow> bool" where
  "ready_ok s Q \<longleftrightarrow> (\<forall>p. queued Q p \<longleftrightarrow> p \<in> set (plist s) \<and> state (procs s p) = PROCESS_READY)"

definition sched_inv :: "sched \<Rightarrow> (nat \<Rightarrow> nat \<Rightarrow> nat list) \<Rightarrow> nat list \<Rightarrow> nat list \<Rightarrow> bool" where
  "sched_inv s Q S A \<longleftrightarrow> core s Q S A \<and> ready_ok s Q"

named_theorems sched_frame \<open>the fields of the scheduler an operation leaves alone\<close>

lemma upd_frame [sched_frame]:
  "procs (upd p f s) = (procs s)(p := f (procs s p))" "plist (upd p f s) = plist s" "rqs (upd p f s) = rqs s"
  "active_store (upd p f s) = active_store s" "idle_of (upd p f s) = idle_of s" "current (upd p f s) = current s"
  "sleepq (upd p f s) = sleepq s" "alarmq (upd p f s) = alarmq s"
  "pcpu_load (upd p f s) = pcpu_load s" "pcpu_count (upd p f s) = pcpu_count s" "events (upd p f s) = events s"
  by (simp_all add: upd_def)

lemma load_frame [sched_frame]:
  "procs (sched_pcpu_inc_load c s) = procs s" "plist (sched_pcpu_inc_load c s) = plist s"
  "rqs (sched_pcpu_inc_load c s) = rqs s" "active_store (sched_pcpu_inc_load c s) = active_store s"
  "idle_of (sched_pcpu_inc_load c s) = idle_of s" "current (sched_pcpu_inc_load c s) = current s"
  "sleepq (sched_pcpu_inc_load c s) = sleepq s" "alarmq (sched_pcpu_inc_load c s) = alarmq s"
  "procs (sched_pcpu_dec_load c s) = procs s" "plist (sched_pcpu_dec_load c s) = plist s"
  "rqs (sched_pcpu_dec_load c s) = rqs s" "active_store (sched_pcpu_dec_load c s) = active_store s"
  "idle_of (sched_pcpu_dec_load c s) = idle_of s" "current (sched_pcpu_dec_load c s) = current s"
  "sleepq (sched_pcpu_dec_load c s) = sleepq s" "alarmq (sched_pcpu_dec_load c s) = alarmq s"
  by (simp_all add: sched_pcpu_inc_load_def sched_pcpu_dec_load_def)

lemma emit_frame [sched_frame]:
  "procs (emit e s) = procs s" "plist (emit e s) = plist s" "rqs (emit e s) = rqs s"
  "active_store (emit e s) = active_store s" "idle_of (emit e s) = idle_of s" "current (emit e s) = current s"
  "sleepq (emit e s) = sleepq s" "alarmq (emit e s) = alarmq s" "pcpu_load (emit e s) = pcpu_load s"
  by (simp_all add: emit_def)

lemma queue_frame [sched_frame]:
  "procs (enqueue_on r p s) = procs s" "plist (enqueue_on r p s) = plist s"
  "active_store (enqueue_on r p s) = active_store s" "idle_of (enqueue_on r p s) = idle_of s"
  "current (enqueue_on r p s) = current s" "sleepq (enqueue_on r p s) = sleepq s" "alarmq (enqueue_on r p s) = alarmq s"
  "procs (dequeue_from r p s) = procs s" "plist (dequeue_from r p s) = plist s"
  "active_store (dequeue_from r p s) = active_store s" "idle_of (dequeue_from r p s) = idle_of s"
  "current (dequeue_from r p s) = current s" "sleepq (dequeue_from r p s) = sleepq s" "alarmq (dequeue_from r p s) = alarmq s"
  "rqs (enqueue_on r p s) = rq_enqueue r (priority (procs s p)) p (rqs s)"
  "rqs (dequeue_from r p s) = rq_dequeue r (priority (procs s p)) p (rqs s)"
  by (simp_all add: enqueue_on_def dequeue_from_def)

lemma timer_frame [sched_frame]:
  "procs (sleep_remove p s) = procs s" "plist (sleep_remove p s) = plist s" "rqs (sleep_remove p s) = rqs s"
  "active_store (sleep_remove p s) = active_store s" "idle_of (sleep_remove p s) = idle_of s"
  "current (sleep_remove p s) = current s" "alarmq (sleep_remove p s) = alarmq s"
  "procs (sleep_insert p s) = procs s" "plist (sleep_insert p s) = plist s" "rqs (sleep_insert p s) = rqs s"
  "active_store (sleep_insert p s) = active_store s" "idle_of (sleep_insert p s) = idle_of s"
  "current (sleep_insert p s) = current s" "alarmq (sleep_insert p s) = alarmq s"
  "procs (alarm_remove p s) = procs s" "plist (alarm_remove p s) = plist s" "rqs (alarm_remove p s) = rqs s"
  "active_store (alarm_remove p s) = active_store s" "sleepq (alarm_remove p s) = sleepq s"
  "current (alarm_remove p s) = current s" "idle_of (alarm_remove p s) = idle_of s"
  "procs (alarm_insert p s) = procs s" "plist (alarm_insert p s) = plist s" "rqs (alarm_insert p s) = rqs s"
  "active_store (alarm_insert p s) = active_store s" "sleepq (alarm_insert p s) = sleepq s"
  "current (alarm_insert p s) = current s" "idle_of (alarm_insert p s) = idle_of s"
  by (simp_all add: sleep_remove_def sleep_insert_def alarm_remove_def alarm_insert_def)

lemma rq_number_frame [sched_frame]:
  "active_rq (upd p f s) c = active_rq s c" "expired_rq (upd p f s) c = expired_rq s c"
  "active_rq (sched_pcpu_inc_load d s) c = active_rq s c" "expired_rq (sched_pcpu_inc_load d s) c = expired_rq s c"
  "active_rq (sched_pcpu_dec_load d s) c = active_rq s c" "expired_rq (sched_pcpu_dec_load d s) c = expired_rq s c"
  "active_rq (emit e s) c = active_rq s c" "expired_rq (emit e s) c = expired_rq s c"
  "active_rq (enqueue_on r p s) c = active_rq s c" "expired_rq (enqueue_on r p s) c = expired_rq s c"
  "active_rq (dequeue_from r p s) c = active_rq s c" "expired_rq (dequeue_from r p s) c = expired_rq s c"
  "active_rq (sleep_remove p s) c = active_rq s c" "expired_rq (sleep_remove p s) c = expired_rq s c"
  "active_rq (sleep_insert p s) c = active_rq s c" "expired_rq (sleep_insert p s) c = expired_rq s c"
  "active_rq (alarm_remove p s) c = active_rq s c" "expired_rq (alarm_remove p s) c = expired_rq s c"
  "active_rq (alarm_insert p s) c = active_rq s c" "expired_rq (alarm_insert p s) c = expired_rq s c"
  by (simp_all add: active_rq_def expired_rq_def sched_frame)

lemma core_cong:
  assumes "procs s' = procs s" "plist s' = plist s" "rqs s' = rqs s" "active_store s' = active_store s"
    "sleepq s' = sleepq s" "alarmq s' = alarmq s"
  shows "core s' Q S A = core s Q S A"
  using assms by (simp add: core_def)

lemma core_load [simp]:
  "core (sched_pcpu_inc_load c s) Q S A = core s Q S A" "core (sched_pcpu_dec_load c s) Q S A = core s Q S A"
  "core (emit e s) Q S A = core s Q S A"
  by (rule core_cong; simp add: sched_frame)+

lemma ready_load [simp]:
  "ready_ok (sched_pcpu_inc_load c s) Q = ready_ok s Q" "ready_ok (sched_pcpu_dec_load c s) Q = ready_ok s Q"
  "ready_ok (emit e s) Q = ready_ok s Q"
  by (simp_all add: ready_ok_def sched_frame)

lemma coreD:
  assumes "core s Q S A"
  shows "rq_ok (rqs s) Q" "p \<in> set (Q r k) \<Longrightarrow> priority (procs s p) = k" "p \<in> set (Q r k) \<Longrightarrow> p \<in> set (plist s)"
    "priority (procs s p) < 32" "active_store s c \<le> 1" "distinct (plist s)"
    "tq_rep (sleepq s) S" "sorted (map (\<lambda>p. wake_at (procs s p)) S)" "set S \<subseteq> set (plist s)"
    "tq_rep (alarmq s) A" "sorted (map (\<lambda>p. alarm_tick (procs s p)) A)" "set A \<subseteq> set (plist s)"
  using assms unfolding core_def by blast+

text \<open>Queueing and dequeueing, on the lists.\<close>

lemma queued_enqueue: "queued (set_queue r k (Q r k @ [p]) Q) q = (q = p \<or> queued Q q)"
  unfolding queued_def set_queue_apply by (auto split: if_splits)

lemma queued_dequeue:
  assumes "rq_ok t Q" "p \<in> set (Q r k)"
  shows "queued (set_queue r k (remove1 p (Q r k)) Q) q = (q \<noteq> p \<and> queued Q q)"
proof -
  have k: "k < 32" using rq_okD(2) [OF assms(1), of k r] assms(2) by (cases "k < 32") auto
  have d: "distinct (Q r k)" using queue_distinct [OF rq_okD(1) [OF assms(1) k]] .
  have only: "p \<in> set (Q r' k') \<Longrightarrow> r' = r \<and> k' = k" for r' k'
    using rq_okD(3) [OF assms(1), of r k r' k'] assms(2) by auto
  have "(q \<in> set (set_queue r k (remove1 p (Q r k)) Q r' k')) = (q \<noteq> p \<and> q \<in> set (Q r' k'))" for r' k'
  proof (cases "r' = r \<and> k' = k")
    case True
    then show ?thesis using d by (simp add: set_queue_apply conj_commute)
  next
    case False
    then have "p \<notin> set (Q r' k')" using only by blast
    moreover have "set_queue r k (remove1 p (Q r k)) Q r' k' = Q r' k'" unfolding set_queue_apply using False by (rule if_not_P)
    ultimately show ?thesis by metis
  qed
  then show ?thesis by (simp add: queued_def)
qed

lemma core_enqueue:
  assumes c: "core s Q S A" and p: "\<not> queued Q p" "p \<in> set (plist s)" and k: "k = priority (procs s p)"
  shows "core (enqueue_on r p s) (set_queue r k (Q r k @ [p]) Q) S A"
proof -
  have "rq_ok (rq_enqueue r k p (rqs s)) (set_queue r k (Q r k @ [p]) Q)"
    using rq_enqueue_ok [OF coreD(1) [OF c] _ p(1)] coreD(4) [OF c] k by simp
  moreover have "priority (procs s q) = k' \<and> q \<in> set (plist s)" if "q \<in> set (set_queue r k (Q r k @ [p]) Q r' k')" for q r' k'
    using that coreD(2,3) [OF c] p k by (auto simp: set_queue_apply split: if_splits)
  ultimately show ?thesis using c unfolding core_def sched_frame k [symmetric] by simp
qed

lemma core_dequeue:
  assumes c: "core s Q S A" and p: "p \<in> set (Q r k)"
  shows "core (dequeue_from r p s) (set_queue r k (remove1 p (Q r k)) Q) S A"
proof -
  have k: "k = priority (procs s p)" using coreD(2) [OF c p] by simp
  have "rq_ok (rq_dequeue r k p (rqs s)) (set_queue r k (remove1 p (Q r k)) Q)"
    using rq_dequeue_ok [OF coreD(1) [OF c] _ p] coreD(4) [OF c] k by simp
  moreover have "priority (procs s q) = k' \<and> q \<in> set (plist s)"
    if "q \<in> set (set_queue r k (remove1 p (Q r k)) Q r' k')" for q r' k'
  proof -
    have "q \<in> set (Q r' k')"
      using that set_remove1_subset [of p "Q r k"] by (auto simp: set_queue_apply split: if_splits)
    then show ?thesis using coreD(2,3) [OF c] by blast
  qed
  ultimately show ?thesis using c unfolding core_def sched_frame k [symmetric] by simp
qed

text \<open>Changing a process: its priority only while it is not queued, its ticks only while it is on no timer queue.\<close>

lemma core_upd:
  assumes c: "core s Q S A"
    and prio: "priority (f (procs s p)) < 32" "queued Q p \<Longrightarrow> priority (f (procs s p)) = priority (procs s p)"
    and wake: "p \<in> set S \<Longrightarrow> wake_at (f (procs s p)) = wake_at (procs s p)"
    and alarm: "p \<in> set A \<Longrightarrow> alarm_tick (f (procs s p)) = alarm_tick (procs s p)"
  shows "core (upd p f s) Q S A"
proof -
  have w: "map (\<lambda>q. wake_at (((procs s)(p := f (procs s p))) q)) S = map (\<lambda>q. wake_at (procs s q)) S"
    using wake by (intro map_cong) auto
  have a: "map (\<lambda>q. alarm_tick (((procs s)(p := f (procs s p))) q)) A = map (\<lambda>q. alarm_tick (procs s q)) A"
    using alarm by (intro map_cong) auto
  have q: "priority (((procs s)(p := f (procs s p))) q) = k \<and> q \<in> set (plist s)" if "q \<in> set (Q r k)" for q r k
  proof -
    have "queued Q q" using that by (auto simp: queued_def)
    then show ?thesis using coreD(2,3) [OF c that] prio(2) by auto
  qed
  have "priority (((procs s)(p := f (procs s p))) q) < 32" for q using prio(1) coreD(4) [OF c] by simp
  then show ?thesis unfolding core_def sched_frame w a using c [unfolded core_def] q by blast
qed

lemma remove1_sorted: "sorted (map f xs) \<Longrightarrow> sorted (map f (remove1 x xs))"
  by (induction xs) (auto dest: notin_set_remove1)

lemma core_sleep_remove:
  assumes c: "core s Q S A"
  shows "core (sleep_remove p s) Q (remove1 p S) A"
proof -
  have "tq_rep (sleepq (sleep_remove p s)) (remove1 p S)"
    using tq_remove_rep [OF coreD(7) [OF c]] by (simp add: sleep_remove_def timer_queue_defs)
  moreover have "set (remove1 p S) \<subseteq> set (plist s)" using coreD(9) [OF c] set_remove1_subset [of p S] by blast
  ultimately show ?thesis
    using c remove1_sorted [OF coreD(8) [OF c], of p] unfolding core_def sched_frame by blast
qed

lemma core_alarm_remove:
  assumes c: "core s Q S A"
  shows "core (alarm_remove p s) Q S (remove1 p A)"
proof -
  have "tq_rep (alarmq (alarm_remove p s)) (remove1 p A)"
    using tq_remove_rep [OF coreD(10) [OF c]] by (simp add: alarm_remove_def timer_queue_defs)
  moreover have "set (remove1 p A) \<subseteq> set (plist s)" using coreD(12) [OF c] set_remove1_subset [of p A] by blast
  ultimately show ?thesis
    using c remove1_sorted [OF coreD(11) [OF c], of p] unfolding core_def sched_frame by blast
qed

lemma tq_rep_distinct: "tq_rep q xs \<Longrightarrow> distinct xs"
  by (simp add: tq_rep_def ring_def distinct_map)

lemma length_le_plist: "tq_rep q xs \<Longrightarrow> set xs \<subseteq> set ps \<Longrightarrow> length xs \<le> length ps"
  using tq_rep_distinct [of q xs] card_mono [of "set ps" "set xs"] card_length [of ps] by (simp add: distinct_card)

lemma core_sleep_insert:
  assumes c: "core s Q S A" and p: "p \<in> set (plist s)" "p \<notin> set S"
  shows "core (sleep_insert p s) Q (insort_before (\<lambda>q. wake_at (procs s q)) p S) A"
proof -
  have "tq_rep (sleepq (sleep_insert p s)) (insort_before (\<lambda>q. wake_at (procs s q)) p S)"
    using tq_insert_rep [OF coreD(7) [OF c] p(2) length_le_plist [OF coreD(7) [OF c] coreD(9) [OF c]]]
    by (simp add: sleep_insert_def timer_queue_defs)
  moreover have "set (insort_before (\<lambda>q. wake_at (procs s q)) p S) \<subseteq> set (plist s)"
    using coreD(9) [OF c] p(1) by simp
  ultimately show ?thesis
    using c sorted_insort_before [OF coreD(8) [OF c], of p] unfolding core_def sched_frame by blast
qed

lemma core_alarm_insert:
  assumes c: "core s Q S A" and p: "p \<in> set (plist s)" "p \<notin> set A"
  shows "core (alarm_insert p s) Q S (insort_before (\<lambda>q. alarm_tick (procs s q)) p A)"
proof -
  have "tq_rep (alarmq (alarm_insert p s)) (insort_before (\<lambda>q. alarm_tick (procs s q)) p A)"
    using tq_insert_rep [OF coreD(10) [OF c] p(2) length_le_plist [OF coreD(10) [OF c] coreD(12) [OF c]]]
    by (simp add: alarm_insert_def timer_queue_defs)
  moreover have "set (insort_before (\<lambda>q. alarm_tick (procs s q)) p A) \<subseteq> set (plist s)"
    using coreD(12) [OF c] p(1) by simp
  ultimately show ?thesis
    using c sorted_insort_before [OF coreD(11) [OF c], of p] unfolding core_def sched_frame by blast
qed

lemma not_in_remove1: "tq_rep q xs \<Longrightarrow> p \<notin> set (remove1 p xs)"
  using tq_rep_distinct [of q xs] by simp

section \<open>Choosing the next process\<close>

text \<open>The process at the head of the most urgent queue of a runqueue.\<close>

definition most_urgent :: "(nat \<Rightarrow> nat \<Rightarrow> nat list) \<Rightarrow> nat \<Rightarrow> nat option" where
  "most_urgent Q r = map_option (\<lambda>k. hd (Q r k)) (find (\<lambda>k. Q r k \<noteq> []) [0..<32])"

lemma most_urgent_rq:
  assumes ok: "rq_ok t Q"
  shows "rq_map t r = 0 \<Longrightarrow> most_urgent Q r = None"
    and "rq_map t r \<noteq> 0 \<Longrightarrow> qhead t r (bsf32 (rq_map t r)) = most_urgent Q r"
    and "rq_map t r \<noteq> 0 \<Longrightarrow> most_urgent Q r \<noteq> None"
proof -
  show "rq_map t r = 0 \<Longrightarrow> most_urgent Q r = None"
    using rq_map_zero [OF ok, of r] by (simp add: most_urgent_def find_None_iff)
  assume ne: "rq_map t r \<noteq> 0"
  note f = rq_first [OF ok ne]
  have "find (\<lambda>k. Q r k \<noteq> []) [0..<32] = Some (bsf32 (rq_map t r))"
    unfolding find_upt_Some using f by simp
  then show "qhead t r (bsf32 (rq_map t r)) = most_urgent Q r" "most_urgent Q r \<noteq> None"
    using f(3) by (simp_all add: most_urgent_def)
qed

lemma most_urgent_in:
  assumes "most_urgent Q r = Some p"
  obtains k where "k < 32" "p \<in> set (Q r k)" "p = hd (Q r k)" "\<And>j. j < k \<Longrightarrow> Q r j = []"
proof -
  obtain k where k: "find (\<lambda>k. Q r k \<noteq> []) [0..<32] = Some k" "p = hd (Q r k)"
    using assms by (auto simp: most_urgent_def)
  then have "k < 32 \<and> Q r k \<noteq> [] \<and> (\<forall>j<k. \<not> Q r j \<noteq> [])" unfolding find_upt_Some by blast
  with k that [of k] show ?thesis by simp
qed

text \<open>\<open>rq_pick_next\<close> looks at the active queues, and at the expired ones only if no active one has a process.\<close>

lemma rq_pick_next_spec:
  assumes c: "core s Q S A" and r: "rq_pick_next c s = (s', x)"
  shows "core s' Q S A" "procs s' = procs s" "plist s' = plist s" "current s' = current s" "idle_of s' = idle_of s"
    "ready_ok s' Q = ready_ok s Q"
    "x = (case most_urgent Q (active_rq s c) of Some p \<Rightarrow> Some p | None \<Rightarrow> most_urgent Q (expired_rq s c))"
    "x \<noteq> None \<Longrightarrow> most_urgent Q (active_rq s' c) = x"
proof -
  note u = most_urgent_rq [OF coreD(1) [OF c]]
  have sw: "active_rq (s\<lparr>active_store := (active_store s)(c := 1 - active_store s c)\<rparr>) c = expired_rq s c"
    by (simp add: active_rq_def expired_rq_def)
  have c': "core (s\<lparr>active_store := (active_store s)(c := 1 - active_store s c)\<rparr>) Q S A"
    using c by (simp add: core_def)
  show "core s' Q S A" "procs s' = procs s" "plist s' = plist s" "current s' = current s" "idle_of s' = idle_of s"
    using r c c' by (auto simp: rq_pick_next_def Let_def split: if_splits)
  then show "ready_ok s' Q = ready_ok s Q" by (simp add: ready_ok_def)
  show "x = (case most_urgent Q (active_rq s c) of Some p \<Rightarrow> Some p | None \<Rightarrow> most_urgent Q (expired_rq s c))"
    using r u [of "active_rq s c"] u [of "expired_rq s c"] sw
    by (auto simp: rq_pick_next_def Let_def split: if_splits option.splits)
  show "x \<noteq> None \<Longrightarrow> most_urgent Q (active_rq s' c) = x"
    using r u [of "active_rq s c"] u [of "expired_rq s c"] sw
    by (auto simp: rq_pick_next_def Let_def split: if_splits option.splits)
qed

text \<open>Where the process that gives up the CPU goes: behind the others of its new priority in the expired queues.\<close>

definition after_prev :: "sched \<Rightarrow> nat \<Rightarrow> nat \<Rightarrow> (nat \<Rightarrow> nat \<Rightarrow> nat list) \<Rightarrow> nat \<Rightarrow> nat \<Rightarrow> nat list" where
  "after_prev s c prev Q =
     (if state (procs s prev) = PROCESS_RUNNING
      then let r = expired_rq s c; k = min (priority (procs s prev) + 1) 31 in set_queue r k (Q r k @ [prev]) Q
      else Q)"

definition next_process :: "(nat \<Rightarrow> nat \<Rightarrow> nat list) \<Rightarrow> nat \<Rightarrow> nat \<Rightarrow> nat \<Rightarrow> nat" where
  "next_process Q act expd idle =
     (case most_urgent Q act of
        Some p \<Rightarrow> p
      | None \<Rightarrow> (case most_urgent Q expd of Some p \<Rightarrow> p | None \<Rightarrow> idle))"

text \<open>A process waits in the runqueues of its own CPU only.\<close>

definition home :: "(nat \<Rightarrow> nat \<Rightarrow> nat list) \<Rightarrow> sched \<Rightarrow> nat \<Rightarrow> nat \<Rightarrow> bool" where
  "home Q s c p \<longleftrightarrow> (\<forall>r k. p \<in> set (Q r k) \<longrightarrow> r = active_rq s c \<or> r = expired_rq s c)"

lemma sched_invD: "sched_inv s Q S A \<Longrightarrow> core s Q S A" "sched_inv s Q S A \<Longrightarrow> ready_ok s Q"
  by (simp_all add: sched_inv_def)

lemma ready_okD: "ready_ok s Q \<Longrightarrow> queued Q p \<longleftrightarrow> p \<in> set (plist s) \<and> state (procs s p) = PROCESS_READY"
  by (simp add: ready_ok_def)

lemma schedule_prev_inv:
  fixes c :: nat
  assumes inv: "sched_inv s Q S A" and prev: "prev \<in> set (plist s)"
  defines "s' \<equiv> schedule_prev c prev s"
  shows "\<exists>S'. sched_inv s' (after_prev s c prev Q) S' A"
    and "plist s' = plist s" "active_store s' = active_store s" "idle_of s' = idle_of s" "current s' = current s"
    and "p \<noteq> prev \<Longrightarrow> procs s' p = procs s p" "state (procs s' prev) = PROCESS_READY \<Longrightarrow> queued (after_prev s c prev Q) prev"
proof -
  note c = sched_invD(1) [OF inv] and rd = sched_invD(2) [OF inv]
  define f :: "process \<Rightarrow> process" where "f = (\<lambda>p. p\<lparr>state := PROCESS_READY,
      priority := (if priority p < SCHED_NUM_PRIOS - 1 then priority p + 1 else priority p)\<rparr>)"
  consider (run) "state (procs s prev) = PROCESS_RUNNING"
    | (sleep) "state (procs s prev) = PROCESS_SLEEPING" "\<not> tq_in (sleepq s) prev"
    | (other) "state (procs s prev) \<noteq> PROCESS_RUNNING" "s' = s"
    by (cases "state (procs s prev) = PROCESS_SLEEPING \<and> \<not> tq_in (sleepq s) prev") (auto simp: s'_def schedule_prev_def)
  then show ex: "\<exists>S'. sched_inv s' (after_prev s c prev Q) S' A"
  proof cases
    case run
    let ?k = "min (priority (procs s prev) + 1) 31" and ?s = "upd prev f s"
    have nq: "\<not> queued Q prev" using ready_okD [OF rd] run by simp
    have k: "priority (f (procs s prev)) = ?k" using coreD(4) [OF c, of prev] by (simp add: f_def SCHED_NUM_PRIOS_def)
    have s': "s' = enqueue_on (expired_rq s c) prev ?s"
      using run by (simp add: s'_def schedule_prev_def Let_def f_def sched_frame)
    have "core ?s Q S A" by (rule core_upd [OF c]) (use nq k in \<open>auto simp: f_def\<close>)
    then have "core s' (after_prev s c prev Q) S A"
      unfolding s' after_prev_def Let_def using core_enqueue [of ?s Q S A prev ?k] nq prev k run
      by (simp add: sched_frame)
    moreover have "ready_ok s' (after_prev s c prev Q)"
      using rd prev run by (auto simp: s' ready_ok_def after_prev_def Let_def queued_enqueue sched_frame f_def)
    ultimately show ?thesis by (auto simp: sched_inv_def)
  next
    case sleep
    have "prev \<notin> set S" using sleep(2) coreD(7) [OF c] by (simp add: tq_rep_def)
    have "\<exists>S'. core (sleep_insert prev (sleep_remove prev s)) Q S' A"
      using core_sleep_insert [OF core_sleep_remove [OF c]] prev not_in_remove1 [OF coreD(7) [OF c]]
      by (auto simp: sched_frame)
    moreover have "ready_ok (sleep_insert prev (sleep_remove prev s)) Q" using rd by (simp add: ready_ok_def sched_frame)
    ultimately show ?thesis using sleep by (auto simp: s'_def schedule_prev_def after_prev_def sched_inv_def)
  next
    case other
    then show ?thesis using inv by (auto simp: after_prev_def)
  qed
  show fr: "plist s' = plist s" "active_store s' = active_store s" "idle_of s' = idle_of s" "current s' = current s"
    by (simp_all add: s'_def schedule_prev_def Let_def sched_frame)
  show "p \<noteq> prev \<Longrightarrow> procs s' p = procs s p" by (simp add: s'_def schedule_prev_def Let_def sched_frame)
  show "state (procs s' prev) = PROCESS_READY \<Longrightarrow> queued (after_prev s c prev Q) prev"
    using ex ready_okD [of s' _ prev] prev fr(1) by (auto simp: sched_inv_def)
qed

lemma schedule_next_spec:
  assumes c: "core s Q S A" and r: "schedule_next c prev s = (s', x)" and idle: "idle_of s c = Some i"
    and prev: "state (procs s prev) = PROCESS_READY \<Longrightarrow> queued Q prev" "home Q s c prev" and hi: "home Q s c i"
  shows "x = Some (next_process Q (active_rq s c) (expired_rq s c) i)"
    and "procs s' = procs s" "plist s' = plist s" "current s' = current s"
    and "\<exists>Q'. core s' Q' S A \<and> (\<forall>p. queued Q' p \<longleftrightarrow> queued Q p \<and> Some p \<noteq> x)"
proof -
  obtain s1 y where pk: "rq_pick_next c s = (s1, y)" by fastforce
  note sp = rq_pick_next_spec [OF c pk]
  have none: "\<not> queued Q p" if "y = None" "home Q s c p" for p
  proof
    assume "queued Q p"
    then obtain r k where p: "p \<in> set (Q r k)" by (auto simp: queued_def)
    then have k: "k < 32" using rq_okD(2) [OF coreD(1) [OF c], of k r] by (cases "k < 32") auto
    have "find (\<lambda>k. Q r k \<noteq> []) [0..<32] \<noteq> None" using p k by (auto simp: find_None_iff)
    then have "most_urgent Q r \<noteq> None" by (simp add: most_urgent_def)
    then show False using that p sp(7) unfolding home_def by (auto split: option.splits)
  qed
  have res: "x = Some (next_process Q (active_rq s c) (expired_rq s c) i) \<and> procs s' = procs s \<and> plist s' = plist s \<and>
    current s' = current s \<and> (\<exists>Q'. core s' Q' S A \<and> (\<forall>p. queued Q' p \<longleftrightarrow> queued Q p \<and> Some p \<noteq> x))"
  proof (cases y)
    case None
    then have "state (procs s1 prev) \<noteq> PROCESS_READY" using none [OF None prev(2)] prev(1) sp(2) by auto
    then have "s' = s1" "x = Some i" using r pk None idle sp(5) by (auto simp: schedule_next_def)
    moreover have "next_process Q (active_rq s c) (expired_rq s c) i = i"
      using sp(7) None by (auto simp: next_process_def split: option.splits)
    ultimately show ?thesis using sp none [OF None hi] by auto
  next
    case (Some n)
    have u: "most_urgent Q (active_rq s1 c) = Some n" using sp(8) Some by simp
    obtain k where k: "n \<in> set (Q (active_rq s1 c) k)" using most_urgent_in [OF u] .
    have eq: "s' = sched_pcpu_dec_load c (dequeue_from (active_rq s1 c) n s1)" "x = Some n"
      using r pk Some by (auto simp: schedule_next_def)
    have "next_process Q (active_rq s c) (expired_rq s c) i = n"
      using sp(7) Some by (auto simp: next_process_def split: option.splits)
    moreover have "core s' (set_queue (active_rq s1 c) k (remove1 n (Q (active_rq s1 c) k)) Q) S A"
      using core_dequeue [OF sp(1) k] by (simp add: eq)
    ultimately show ?thesis using queued_dequeue [OF coreD(1) [OF c] k] sp eq by (auto simp: sched_frame)
  qed
  then show "x = Some (next_process Q (active_rq s c) (expired_rq s c) i)" "procs s' = procs s" "plist s' = plist s"
    "current s' = current s" "\<exists>Q'. core s' Q' S A \<and> (\<forall>p. queued Q' p \<longleftrightarrow> queued Q p \<and> Some p \<noteq> x)" by blast+
qed

lemma switch_to_frame:
  "procs (switch_to c prev n s) = (procs s)(n := (procs s n)\<lparr>state := PROCESS_RUNNING, time_slice := SCHED_TIME_SLICE\<rparr>)"
  "plist (switch_to c prev n s) = plist s" "rqs (switch_to c prev n s) = rqs s"
  "active_store (switch_to c prev n s) = active_store s" "sleepq (switch_to c prev n s) = sleepq s"
  "alarmq (switch_to c prev n s) = alarmq s"
  "current s c = Some prev \<Longrightarrow> current (switch_to c prev n s) = (current s)(c := Some n)"
  by (simp_all add: switch_to_def Let_def sched_frame fun_upd_idem)

lemma core_switch_to:
  "core (switch_to c prev n s) Q S A =
     core (upd n (\<lambda>p. p\<lparr>state := PROCESS_RUNNING, time_slice := SCHED_TIME_SLICE\<rparr>) s) Q S A"
  by (rule core_cong) (simp_all add: switch_to_frame sched_frame)

text \<open>
  C14. When the running process gives up the CPU (it blocks, sleeps or exits, or its time slice is over),
  \<^verbatim>\<open>schedule\<close> gives the CPU to the first process of the most urgent active queue, to the first of the most
  urgent expired queue if no process is active, and to the idle process of the CPU only if nothing is
  ready. A process whose slice is over is queued with its priority one lower in the expired queues.
  The chosen process is running and in no queue, every other ready process stays queued, no other process changes, and the
  invariant of the scheduler is kept.
\<close>

theorem schedule_correct:
  assumes inv: "sched_inv s Q S A" and cur: "current s c = Some prev" and prev: "prev \<in> set (plist s)"
    and idle: "idle_of s c = Some i" and i: "i \<in> set (plist s)" and home: "home Q s c prev" "home Q s c i"
    and yields: "state (procs s prev) = PROCESS_RUNNING \<Longrightarrow> time_slice (procs s prev) = 0"
  shows "\<exists>Q' S' n. n = next_process (after_prev s c prev Q) (active_rq s c) (expired_rq s c) i \<and>
     current (schedule c s) c = Some n \<and> state (procs (schedule c s) n) = PROCESS_RUNNING \<and>
     sched_inv (schedule c s) Q' S' A \<and> (\<forall>p. queued Q' p \<longleftrightarrow> queued (after_prev s c prev Q) p \<and> p \<noteq> n) \<and>
     (\<forall>p. p \<noteq> prev \<longrightarrow> p \<noteq> n \<longrightarrow> procs (schedule c s) p = procs s p)"
proof -
  define Q1 where "Q1 = after_prev s c prev Q"
  define n where "n = next_process Q1 (active_rq s c) (expired_rq s c) i"
  note pv = schedule_prev_inv [where c = c, OF inv prev, folded Q1_def]
  obtain S1 where inv1: "sched_inv (schedule_prev c prev s) Q1 S1 A" using pv(1) by blast
  have act: "active_rq (schedule_prev c prev s) c = active_rq s c" "expired_rq (schedule_prev c prev s) c = expired_rq s c"
    by (simp_all add: active_rq_def expired_rq_def pv(3))
  have hm: "home Q1 (schedule_prev c prev s) c prev" "home Q1 (schedule_prev c prev s) c i"
    using home unfolding home_def act by (auto simp: Q1_def after_prev_def set_queue_apply Let_def split: if_splits)
  obtain s1 x where nx: "schedule_next c prev (schedule_prev c prev s) = (s1, x)" by fastforce
  note sn = schedule_next_spec [OF sched_invD(1) [OF inv1] nx _ pv(7) hm, unfolded pv(4) act, OF idle, folded n_def]
  obtain Q' where Q': "core s1 Q' S1 A" "\<And>p. queued Q' p \<longleftrightarrow> queued Q1 p \<and> p \<noteq> n" using sn(1,5) by auto
  have curs: "current s1 c = Some prev" using sn(4) pv(5) cur by simp
  have y: "\<not> (state (procs s prev) = PROCESS_RUNNING \<and> 0 < time_slice (procs s prev))" using yields by auto
  have sch: "schedule c s = switch_to c prev n s1"
    using cur y nx sn(1) by (auto simp: schedule_def)
  have "core (schedule c s) Q' S1 A"
    unfolding sch core_switch_to by (rule core_upd [OF Q'(1)]) (use coreD(4) [OF Q'(1)] in auto)
  moreover have "ready_ok (schedule c s) Q'"
    unfolding ready_ok_def sch switch_to_frame
    using Q'(2) ready_okD [OF sched_invD(2) [OF inv1]] sn(2,3) pv(2) by simp
  ultimately have "sched_inv (schedule c s) Q' S1 A" by (simp add: sched_inv_def)
  moreover have "current (schedule c s) c = Some n \<and> state (procs (schedule c s) n) = PROCESS_RUNNING \<and>
      (\<forall>p. p \<noteq> prev \<longrightarrow> p \<noteq> n \<longrightarrow> procs (schedule c s) p = procs s p)"
    using sn(2) pv(6) by (simp add: sch switch_to_frame curs)
  ultimately show ?thesis using Q'(2) unfolding Q1_def n_def by blast
qed

subsection \<open>A small system\<close>

text \<open>One CPU with its idle process 0 and two blocked processes, 1 and 2.\<close>

definition empty_rqs :: rqs where
  "empty_rqs = \<lparr>rq_next = (\<lambda>_. None), rq_prev = (\<lambda>_. None), qhead = (\<lambda>_ _. None), qtail = (\<lambda>_ _. None), rq_map = (\<lambda>_. 0)\<rparr>"

definition empty_tq :: tqueue where
  "empty_tq = \<lparr>tq_next = (\<lambda>_. None), tq_prev = (\<lambda>_. None), tq_head = None, tq_in = (\<lambda>_. False)\<rparr>"

definition demo_sched :: sched where
  "demo_sched = \<lparr>procs = (\<lambda>p. zero_process\<lparr>pid := of_nat p, priority := if p = 0 then 31 else 16,
       state := if p = 0 then PROCESS_RUNNING else PROCESS_BLOCKED\<rparr>),
     plist = [0, 1, 2], rqs = empty_rqs, active_store = (\<lambda>_. 0), idle_of = (\<lambda>_. Some 0), current = (\<lambda>_. Some 0),
     sleepq = empty_tq, alarmq = empty_tq, pcpu_load = replicate 16 0, pcpu_count = 1, next_pid = 3, init_pid = 0,
     kernel_as = 0, as_refcnt = replicate 64 (0, 0), kstk = \<lparr>next_slot = 0, free_slots = []\<rparr>,
     file_refs = (\<lambda>_. 0), events = []\<rparr>"

lemma demo_fields:
  "plist demo_sched = [0, 1, 2]" "active_store demo_sched c = 0" "idle_of demo_sched c = Some 0" "current demo_sched c = Some 0"
  "priority (procs demo_sched p) = (if p = 0 then 31 else 16)" "time_slice (procs demo_sched p) = 0"
  "state (procs demo_sched p) = (if p = 0 then PROCESS_RUNNING else PROCESS_BLOCKED)" "pid (procs demo_sched p) = of_nat p"
  "active_rq demo_sched c = 2 * c" "expired_rq demo_sched c = 2 * c + 1" "cpu_id (procs demo_sched p) = 0"
  "euid (procs demo_sched p) = 0" "uid (procs demo_sched p) = 0"
  by (simp_all add: demo_sched_def zero_process_def active_rq_def expired_rq_def)

lemma rq_ok_empty: "rq_ok empty_rqs (\<lambda>_ _. [])"
  by (simp add: rq_ok_def empty_rqs_def queue_rep_def ring_def nxv_def pvv_def)

lemma tq_rep_empty: "tq_rep empty_tq []"
  by (simp add: tq_rep_def empty_tq_def ring_def tnx_def tpv_def)

lemma demo_sched_inv: "sched_inv demo_sched (\<lambda>_ _. []) [] []"
  using rq_ok_empty tq_rep_empty
  by (auto simp: sched_inv_def core_def ready_ok_def demo_sched_def queued_def zero_process_def)

lemma wake_process_inv:
  assumes inv: "sched_inv s Q S A" and p: "p \<in> set (plist s)" "state (procs s p) \<noteq> PROCESS_READY"
    and k: "k = priority (procs s p)"
  shows "sched_inv (wake_process c p s) (set_queue (active_rq s c) k (Q (active_rq s c) k @ [p]) Q) S A"
proof -
  note c = sched_invD(1) [OF inv] and rd = sched_invD(2) [OF inv]
  have nq: "\<not> queued Q p" using ready_okD [OF rd] p by simp
  let ?s = "upd p (state_update (\<lambda>_. PROCESS_READY)) s"
  have c1: "core ?s Q S A" by (rule core_upd [OF c]) (use coreD(4) [OF c] in auto)
  have "core (enqueue_on (active_rq s c) p ?s) (set_queue (active_rq s c) k (Q (active_rq s c) k @ [p]) Q) S A"
    by (rule core_enqueue [OF c1 nq]) (use p k in \<open>auto simp: sched_frame\<close>)
  moreover have "ready_ok (enqueue_on (active_rq s c) p ?s) (set_queue (active_rq s c) k (Q (active_rq s c) k @ [p]) Q)"
    using rd p by (auto simp: ready_ok_def queued_enqueue sched_frame)
  ultimately show ?thesis by (simp add: wake_process_def Let_def sched_inv_def sched_frame)
qed

lemma wake_process_frame:
  "procs (wake_process c p s) = (procs s)(p := (procs s p)\<lparr>state := PROCESS_READY\<rparr>)" "plist (wake_process c p s) = plist s"
  "active_store (wake_process c p s) = active_store s" "idle_of (wake_process c p s) = idle_of s"
  "current (wake_process c p s) = current s" "sleepq (wake_process c p s) = sleepq s" "alarmq (wake_process c p s) = alarmq s"
  "active_rq (wake_process c p s) d = active_rq s d" "expired_rq (wake_process c p s) d = expired_rq s d"
  by (simp_all add: wake_process_def Let_def sched_frame)

text \<open>The idle process of the small system gives way to process 1, which has been woken.\<close>

lemma schedule_correct_witness:
  "\<exists>Q' S'. sched_inv (schedule 0 (wake_process 0 1 demo_sched)) Q' S' [] \<and> current (schedule 0 (wake_process 0 1 demo_sched)) 0 = Some 1"
proof -
  let ?s = "wake_process 0 1 demo_sched"
  define Q where "Q = set_queue 0 16 [1] (\<lambda>_ _. [])"
  have inv: "sched_inv ?s Q [] []"
    using wake_process_inv [OF demo_sched_inv, of 1 16 0] by (simp add: Q_def demo_fields)
  have st: "state (procs ?s 0) = PROCESS_RUNNING" "time_slice (procs ?s 0) = 0" "priority (procs ?s 0) = 31"
    by (simp_all add: wake_process_frame demo_fields)
  have Q1: "after_prev ?s 0 0 Q = set_queue 1 31 [0] Q"
    by (simp add: after_prev_def st wake_process_frame demo_fields Let_def Q_def set_queue_apply)
  have "find (\<lambda>k. set_queue 1 31 [0] Q 0 k \<noteq> []) [0..<32] = Some 16"
    unfolding find_upt_Some by (simp add: Q_def set_queue_apply)
  then have next1: "next_process (after_prev ?s 0 0 Q) 0 1 0 = 1"
    unfolding Q1 next_process_def most_urgent_def by (simp add: Q_def set_queue_apply)
  have home: "home Q ?s 0 0" by (auto simp: home_def Q_def set_queue_apply split: if_splits)
  have "0 \<in> set (plist ?s)" "current ?s 0 = Some 0" "idle_of ?s 0 = Some 0" "active_rq ?s 0 = 0" "expired_rq ?s 0 = 1"
    by (simp_all add: wake_process_frame demo_fields)
  then show ?thesis
    using schedule_correct [OF inv, of 0 0 0] home st next1 by auto
qed

section \<open>Sleeping and waking\<close>

definition woken :: "process \<Rightarrow> process" where
  "woken x = (if state x = PROCESS_SLEEPING then x\<lparr>priority := priority x - 1, state := PROCESS_READY\<rparr> else x)"

lemma tq_head_core: "core s Q (p # S) A \<Longrightarrow> tq_head (sleepq s) = Some p" "core s Q [] A \<Longrightarrow> tq_head (sleepq s) = None"
  using tq_head_rep [OF coreD(7)] by fastforce+

lemma wake_one:
  assumes inv: "sched_inv s Q (p # S) A" and due: "wake_at (procs s p) \<le> now"
  shows "\<exists>s' Q' m. wake_loop (Suc n) now ipis s = wake_loop n now m s' \<and> sched_inv s' Q' S A \<and>
    procs s' = (procs s)(p := woken (procs s p)) \<and> plist s' = plist s \<and> current s' = current s \<and> idle_of s' = idle_of s \<and>
    (\<forall>q. queued Q q \<longrightarrow> queued Q' q)"
proof -
  note c = sched_invD(1) [OF inv] and rd = sched_invD(2) [OF inv]
  have h: "tq_head (sleepq s) = Some p" using tq_head_core(1) [OF c] .
  have c1: "core (sleep_remove p s) Q S A" using core_sleep_remove [OF c, of p] by simp
  have inv1: "sched_inv (sleep_remove p s) Q S A" using c1 rd by (simp add: sched_inv_def ready_ok_def sched_frame)
  show ?thesis
  proof (cases "state (procs s p) = PROCESS_SLEEPING")
    case True
    let ?t = "clamp_cpu (cpu_id (procs s p))"
    let ?s = "upd p (\<lambda>x. x\<lparr>priority := priority x - 1\<rparr>) (sleep_remove p s)"
    have nq: "\<not> queued Q p" using ready_okD [OF rd] True by simp
    have ps: "p \<notin> set S" "p \<in> set (plist s)" using tq_rep_distinct [OF coreD(7) [OF c]] coreD(9) [OF c] by auto
    have "core ?s Q S A"
      by (rule core_upd [OF c1]) (use nq ps coreD(4) [OF c, of p] in \<open>auto simp: sched_frame\<close>)
    moreover have "ready_ok ?s Q" using rd by (simp add: ready_ok_def sched_frame)
    ultimately have inv2: "sched_inv ?s Q S A" by (simp add: sched_inv_def)
    define Q' where "Q' = set_queue (active_rq ?s ?t) (priority (procs ?s p)) (Q (active_rq ?s ?t) (priority (procs ?s p)) @ [p]) Q"
    have "sched_inv (wake_process ?t p ?s) Q' S A"
      using wake_process_inv [OF inv2, of p _ ?t] ps True by (simp add: sched_frame Q'_def)
    moreover have "queued Q q \<Longrightarrow> queued Q' q" for q by (simp add: Q'_def queued_enqueue)
    ultimately show ?thesis using h due True
      by (intro exI [of _ "wake_process ?t p ?s"] exI [of _ Q'] exI)
        (auto simp: Let_def sched_frame wake_process_frame woken_def fun_upd_def fun_eq_iff)
  next
    case False
    then show ?thesis using h due inv1
      by (intro exI [of _ "sleep_remove p s"] exI [of _ Q] exI [of _ ipis]) (simp add: Let_def sched_frame woken_def fun_upd_idem)
  qed
qed

text \<open>The loop wakes the processes at the front of the queue whose tick has come, and no others.\<close>

lemma wake_loop_spec:
  assumes "sched_inv s Q S A" "length S \<le> n"
  shows "\<exists>s' m Q'. wake_loop n now ipis s = (s', m) \<and> sched_inv s' Q' (dropWhile (\<lambda>p. wake_at (procs s p) \<le> now) S) A \<and>
    procs s' = (\<lambda>p. if p \<in> set (takeWhile (\<lambda>p. wake_at (procs s p) \<le> now) S) then woken (procs s p) else procs s p) \<and>
    plist s' = plist s \<and> current s' = current s \<and> idle_of s' = idle_of s \<and> (\<forall>q. queued Q q \<longrightarrow> queued Q' q)"
  using assms
proof (induction S arbitrary: n s Q ipis)
  case Nil
  then have "tq_head (sleepq s) = None" using tq_head_core(2) sched_invD(1) by blast
  then have "wake_loop n now ipis s = (s, ipis)" by (cases n) auto
  then show ?case using Nil by auto
next
  case (Cons p S)
  then obtain m where n: "n = Suc m" "length S \<le> m" by (cases n) auto
  note c = sched_invD(1) [OF Cons.prems(1)]
  show ?case
  proof (cases "wake_at (procs s p) \<le> now")
    case False
    then have "wake_loop n now ipis s = (s, ipis)" using tq_head_core(1) [OF c] n by simp
    then show ?thesis using False Cons.prems by auto
  next
    case True
    obtain s1 Q1 i where s1: "wake_loop n now ipis s = wake_loop m now i s1" "sched_inv s1 Q1 S A"
      "procs s1 = (procs s)(p := woken (procs s p))" "plist s1 = plist s" "current s1 = current s" "idle_of s1 = idle_of s"
      "\<And>q. queued Q q \<Longrightarrow> queued Q1 q"
      using wake_one [OF Cons.prems(1) True, of m ipis] n by blast
    have p: "p \<notin> set S" using tq_rep_distinct [OF coreD(7) [OF c]] by simp
    have w: "wake_at (procs s1 q) = wake_at (procs s q)" for q by (simp add: s1(3) woken_def)
    obtain s' j Q' where s': "wake_loop m now i s1 = (s', j)"
      "sched_inv s' Q' (dropWhile (\<lambda>p. wake_at (procs s p) \<le> now) S) A"
      "procs s' = (\<lambda>q. if q \<in> set (takeWhile (\<lambda>p. wake_at (procs s p) \<le> now) S) then woken (procs s1 q) else procs s1 q)"
      "plist s' = plist s1" "current s' = current s1" "idle_of s' = idle_of s1" "\<And>q. queued Q1 q \<Longrightarrow> queued Q' q"
      using Cons.IH [OF s1(2) n(2), of i] unfolding w by blast
    have "p \<notin> set (takeWhile (\<lambda>p. wake_at (procs s p) \<le> now) S)" using p set_takeWhileD by fastforce
    then have "procs s' = (\<lambda>q. if q \<in> set (takeWhile (\<lambda>p. wake_at (procs s p) \<le> now) (p # S)) then woken (procs s q) else procs s q)"
      using True by (auto simp: s'(3) s1(3) fun_eq_iff)
    then show ?thesis using s' s1 True by (intro exI [of _ s'] exI [of _ j] exI [of _ Q']) simp
  qed
qed

section \<open>Alarms\<close>

definition fired :: "u32 \<Rightarrow> process \<Rightarrow> process" where
  "fired now x = x\<lparr>sig_pending_mask := sig_pending_mask x OR push_bit 14 1,
     alarm_tick := if alarm_interval x \<noteq> 0 then now + alarm_interval x else 0\<rparr>"

lemma alarm_fire_spec:
  assumes c: "core s Q S (p # A)"
  shows "\<exists>A'. core (alarm_fire now p s) Q S A' \<and> set A' = (if alarm_interval (procs s p) \<noteq> 0 then insert p (set A) else set A) \<and>
    length A' = (if alarm_interval (procs s p) \<noteq> 0 then Suc (length A) else length A)"
    and "procs (alarm_fire now p s) = (procs s)(p := fired now (procs s p))"
    and "plist (alarm_fire now p s) = plist s" "current (alarm_fire now p s) = current s"
proof -
  have c1: "core (alarm_remove p s) Q S A" using core_alarm_remove [OF c, of p] by simp
  have ps: "p \<notin> set A" "p \<in> set (plist s)" using tq_rep_distinct [OF coreD(10) [OF c]] coreD(12) [OF c] by auto
  let ?s = "upd p (fired now) (alarm_remove p s)"
  have c2: "core ?s Q S A"
    by (rule core_upd [OF c1]) (use ps coreD(4) [OF c] in \<open>auto simp: sched_frame fired_def\<close>)
  have ev: "alarm_fire now p s = (if alarm_interval (procs s p) \<noteq> 0 then alarm_insert p ?s else ?s)"
    by (auto simp: alarm_fire_def Let_def sched_frame upd_def fired_def)
  have len: "length (insort_before k p A) = Suc (length A)" for k by (induction A) auto
  show "\<exists>A'. core (alarm_fire now p s) Q S A' \<and> set A' = (if alarm_interval (procs s p) \<noteq> 0 then insert p (set A) else set A) \<and>
      length A' = (if alarm_interval (procs s p) \<noteq> 0 then Suc (length A) else length A)"
  proof (cases "alarm_interval (procs s p) \<noteq> 0")
    case True
    then show ?thesis using core_alarm_insert [OF c2, of p] ps len unfolding ev by (auto simp: sched_frame)
  next
    case False
    then show ?thesis using c2 ev by auto
  qed
  show "procs (alarm_fire now p s) = (procs s)(p := fired now (procs s p))" "plist (alarm_fire now p s) = plist s"
    "current (alarm_fire now p s) = current s"
    by (simp_all add: ev sched_frame)
qed

lemma alarm_due_core:
  assumes c: "core s Q S A"
  shows "(alarm_due now s = None) = (\<forall>p \<in> set A. now < alarm_tick (procs s p))"
    and "alarm_due now s = Some p \<Longrightarrow> \<exists>T. A = p # T \<and> alarm_tick (procs s p) \<le> now"
proof -
  have h: "tq_head (alarmq s) = (case A of [] \<Rightarrow> None | x # _ \<Rightarrow> Some x)" using tq_head_rep [OF coreD(10) [OF c]] .
  show "(alarm_due now s = None) = (\<forall>p \<in> set A. now < alarm_tick (procs s p))"
    using h coreD(11) [OF c] by (cases A) (auto simp: alarm_due_def)
  show "alarm_due now s = Some p \<Longrightarrow> \<exists>T. A = p # T \<and> alarm_tick (procs s p) \<le> now"
    using h by (cases A) (auto simp: alarm_due_def split: if_splits)
qed

text \<open>If no re-armed alarm is due again at once, every due alarm fires once and the loop ends.\<close>

lemma alarm_loop_spec:
  assumes "core s Q S A" "\<And>p. p \<in> set A \<Longrightarrow> alarm_interval (procs s p) \<noteq> 0 \<Longrightarrow> now < now + alarm_interval (procs s p)"
  shows "\<exists>s' A'. alarm_loop now s = Some s' \<and> core s' Q S A' \<and> (\<forall>p \<in> set A'. now < alarm_tick (procs s' p)) \<and>
    procs s' = (\<lambda>p. if p \<in> set A \<and> alarm_tick (procs s p) \<le> now then fired now (procs s p) else procs s p) \<and>
    plist s' = plist s \<and> current s' = current s"
  using assms
proof (induction "card {p \<in> set A. alarm_tick (procs s p) \<le> now}" arbitrary: s A rule: less_induct)
  case less
  note c = less.prems(1)
  show ?case
  proof (cases "alarm_due now s")
    case None
    then have "alarm_loop now s = Some s" by (simp add: alarm_loop.simps)
    moreover have nd: "\<forall>p \<in> set A. now < alarm_tick (procs s p)" using None alarm_due_core(1) [OF c] by simp
    moreover have "procs s = (\<lambda>p. if p \<in> set A \<and> alarm_tick (procs s p) \<le> now then fired now (procs s p) else procs s p)"
      using nd by (auto simp: fun_eq_iff not_le [symmetric])
    ultimately show ?thesis using c by auto
  next
    case (Some p)
    obtain T where A: "A = p # T" and due: "alarm_tick (procs s p) \<le> now" using alarm_due_core(2) [OF c Some] by blast
    let ?s = "alarm_fire now p s"
    note f = alarm_fire_spec [OF c [unfolded A], of now]
    obtain A' where A': "core ?s Q S A'" "set A' = (if alarm_interval (procs s p) \<noteq> 0 then insert p (set T) else set T)"
      using f(1) by blast
    have p: "p \<notin> set T" using tq_rep_distinct [OF coreD(10) [OF c]] A by simp
    have next_tick: "now < alarm_tick (procs ?s p)" if "p \<in> set A'"
      using that A'(2) p less.prems(2) [of p] A by (simp add: f(2) fired_def split: if_splits)
    have sub: "{q \<in> set A'. alarm_tick (procs ?s q) \<le> now} = {q \<in> set T. alarm_tick (procs s q) \<le> now}"
    proof (intro set_eqI iffI)
      fix q assume q: "q \<in> {q \<in> set A'. alarm_tick (procs ?s q) \<le> now}"
      then have "q \<noteq> p" using next_tick by auto
      then show "q \<in> {q \<in> set T. alarm_tick (procs s q) \<le> now}" using q A'(2) by (simp add: f(2) split: if_splits)
    next
      fix q assume q: "q \<in> {q \<in> set T. alarm_tick (procs s q) \<le> now}"
      then have "q \<noteq> p" using p by auto
      then show "q \<in> {q \<in> set A'. alarm_tick (procs ?s q) \<le> now}" using q A'(2) by (simp add: f(2))
    qed
    have "{q \<in> set A. alarm_tick (procs s q) \<le> now} = insert p {q \<in> set T. alarm_tick (procs s q) \<le> now}"
      using A due by auto
    then have less_card: "card {q \<in> set A'. alarm_tick (procs ?s q) \<le> now} < card {q \<in> set A. alarm_tick (procs s q) \<le> now}"
      unfolding sub using p by simp
    have nowrap: "now < now + alarm_interval (procs ?s q)" if "q \<in> set A'" "alarm_interval (procs ?s q) \<noteq> 0" for q
    proof -
      have "q \<in> set A" using that(1) A'(2) A by (auto split: if_splits)
      moreover have "alarm_interval (procs ?s q) = alarm_interval (procs s q)" by (simp add: f(2) fired_def)
      ultimately show ?thesis using less.prems(2) that(2) by simp
    qed
    obtain s' A'' where s': "alarm_loop now ?s = Some s'" "core s' Q S A''" "\<forall>p \<in> set A''. now < alarm_tick (procs s' p)"
      "procs s' = (\<lambda>q. if q \<in> set A' \<and> alarm_tick (procs ?s q) \<le> now then fired now (procs ?s q) else procs ?s q)"
      "plist s' = plist ?s" "current s' = current ?s"
      using less.hyps [OF less_card A'(1) nowrap] by blast
    have cond: "(q \<in> set A' \<and> alarm_tick (procs ?s q) \<le> now) = (q \<in> set T \<and> alarm_tick (procs s q) \<le> now)" for q
      using sub by blast
    have "procs s' = (\<lambda>q. if q \<in> set A \<and> alarm_tick (procs s q) \<le> now then fired now (procs s q) else procs s q)"
      unfolding s'(4) cond using p A due by (auto simp: f(2) fun_eq_iff)
    moreover have "alarm_loop now s = Some s'" using Some s'(1) by (simp add: alarm_loop.simps)
    moreover have "plist s' = plist s" "current s' = current s" using s'(5,6) f(3,4) by simp_all
    ultimately show ?thesis using s'(2,3) by blast
  qed
qed

text \<open>In a sorted list the entries up to a bound stand in front.\<close>

lemma sorted_takeWhile:
  "sorted (map f xs) \<Longrightarrow> x \<in> set (takeWhile (\<lambda>x. f x \<le> b) xs) \<longleftrightarrow> x \<in> set xs \<and> f x \<le> b"
  by (induction xs) (auto intro: order_trans)

lemma charge_tick_frame:
  "plist (charge_tick f c s) = plist s" "current (charge_tick f c s) = current s"
  "procs (charge_tick f c s) p = (if current s c = Some p \<and> state (procs s p) = PROCESS_RUNNING then f (procs s p) else procs s p)"
  by (auto simp: charge_tick_def sched_frame split: option.splits)

lemma charge_tick_inv:
  assumes inv: "sched_inv s Q S A"
    and f: "\<And>x. priority (f x) = priority x \<and> state (f x) = state x \<and> wake_at (f x) = wake_at x \<and> alarm_tick (f x) = alarm_tick x"
  shows "sched_inv (charge_tick f c s) Q S A"
proof -
  note cr = sched_invD(1) [OF inv] and rd = sched_invD(2) [OF inv]
  have "core (upd p f s) Q S A" for p by (rule core_upd [OF cr]) (use f coreD(4) [OF cr] in auto)
  moreover have "ready_ok (upd p f s) Q" for p using rd f by (auto simp: ready_ok_def sched_frame)
  ultimately show ?thesis using inv by (auto simp: charge_tick_def sched_inv_def split: option.splits)
qed

lemma itimers_tick_frame:
  "priority (itimers_tick x) = priority x" "state (itimers_tick x) = state x" "wake_at (itimers_tick x) = wake_at x"
  "alarm_tick (itimers_tick x) = alarm_tick x" "alarm_interval (itimers_tick x) = alarm_interval x"
  "bit (sig_pending_mask x) 14 \<Longrightarrow> bit (sig_pending_mask (itimers_tick x)) 14"
  by (auto simp: itimers_tick_def Let_def bit_or_iff)

lemma send_ipis_frame:
  "procs (send_ipis n c m s) = procs s" "plist (send_ipis n c m s) = plist s" "current (send_ipis n c m s) = current s"
  "core (send_ipis n c m s) Q S A = core s Q S A" "ready_ok (send_ipis n c m s) Q = ready_ok s Q"
  by (induction n arbitrary: m s) (simp_all add: Let_def sched_ipi_resched_def sched_frame)

text \<open>
  C15. The timer interrupt. If no repeating alarm has an interval that would make the tick counter wrap,
  \<^verbatim>\<open>process_wake_check\<close> returns; it wakes exactly the sleeping processes whose tick has come: they are
  ready, queued, and no longer in the sleep queue, and the processes that are not due stay in it in
  their order. Every process whose alarm is due gets \<^verbatim>\<open>SIGALRM\<close>, and no due alarm is left.
\<close>

theorem process_wake_check_correct:
  assumes inv: "sched_inv s Q S A"
    and nowrap: "\<And>p. p \<in> set A \<Longrightarrow> alarm_interval (procs s p) \<noteq> 0 \<Longrightarrow> now < now + alarm_interval (procs s p)"
  shows "\<exists>s' Q' A'. process_wake_check now c s = Some s' \<and>
    sched_inv s' Q' (dropWhile (\<lambda>p. wake_at (procs s p) \<le> now) S) A' \<and> (\<forall>p. queued Q p \<longrightarrow> queued Q' p) \<and>
    (\<forall>p \<in> set S. wake_at (procs s p) \<le> now \<longrightarrow> state (procs s p) = PROCESS_SLEEPING \<longrightarrow>
        state (procs s' p) = PROCESS_READY \<and> queued Q' p) \<and>
    (\<forall>p. \<not> (p \<in> set S \<and> wake_at (procs s p) \<le> now) \<longrightarrow> state (procs s' p) = state (procs s p)) \<and>
    (\<forall>p \<in> set A. alarm_tick (procs s p) \<le> now \<longrightarrow> bit (sig_pending_mask (procs s' p)) 14) \<and>
    (\<forall>p \<in> set A'. now < alarm_tick (procs s' p))"
proof (cases "plist s = []")
  case True
  then have "S = []" "A = []" using coreD(9,12) [OF sched_invD(1) [OF inv]] by auto
  then show ?thesis using True inv
    by (intro exI [of _ s] exI [of _ Q] exI [of _ "[]"]) (simp add: process_wake_check_def)
next
  case False
  define s0 where "s0 = charge_tick (\<lambda>p. p\<lparr>utime := utime p + 1\<rparr>) c s"
  have inv0: "sched_inv s0 Q S A" unfolding s0_def by (rule charge_tick_inv [OF inv]) simp
  have f0: "wake_at (procs s0 p) = wake_at (procs s p)" "alarm_tick (procs s0 p) = alarm_tick (procs s p)"
    "alarm_interval (procs s0 p) = alarm_interval (procs s p)" "state (procs s0 p) = state (procs s p)" for p
    by (simp_all add: s0_def charge_tick_frame)
  have len: "length S \<le> Suc (length (plist s0))"
    using length_le_plist [OF coreD(7) coreD(9), OF sched_invD(1) sched_invD(1), OF inv0 inv0] by simp
  obtain s1 m Q1 where w: "wake_loop (Suc (length (plist s0))) now 0 s0 = (s1, m)"
    "sched_inv s1 Q1 (dropWhile (\<lambda>p. wake_at (procs s p) \<le> now) S) A"
    "procs s1 = (\<lambda>p. if p \<in> set (takeWhile (\<lambda>p. wake_at (procs s p) \<le> now) S) then woken (procs s0 p) else procs s0 p)"
    "plist s1 = plist s0" "current s1 = current s0" "\<And>q. queued Q q \<Longrightarrow> queued Q1 q"
    using wake_loop_spec [OF inv0 len, of now 0] unfolding f0 by blast
  have f1: "alarm_tick (procs s1 p) = alarm_tick (procs s p)" "alarm_interval (procs s1 p) = alarm_interval (procs s p)" for p
    by (simp_all add: w(3) woken_def f0)
  have nw: "now < now + alarm_interval (procs s1 p)" if "p \<in> set A" "alarm_interval (procs s1 p) \<noteq> 0" for p
    using nowrap that by (simp add: f1)
  obtain s2 A' where a: "alarm_loop now s1 = Some s2" "core s2 Q1 (dropWhile (\<lambda>p. wake_at (procs s p) \<le> now) S) A'"
    "\<forall>p \<in> set A'. now < alarm_tick (procs s2 p)"
    "procs s2 = (\<lambda>p. if p \<in> set A \<and> alarm_tick (procs s1 p) \<le> now then fired now (procs s1 p) else procs s1 p)"
    "plist s2 = plist s1" "current s2 = current s1"
    using alarm_loop_spec [OF sched_invD(1) [OF w(2)] nw] by blast
  have rd2: "ready_ok s2 Q1" using sched_invD(2) [OF w(2)] a(4,5) by (auto simp: ready_ok_def fired_def)
  define s' where "s' = send_ipis 32 c (m AND NOT (push_bit c 1)) (charge_tick itimers_tick c s2)"
  have run: "process_wake_check now c s = Some s'"
    using False w(1) a(1) by (simp add: process_wake_check_def Let_def s0_def s'_def)
  have inv3: "sched_inv (charge_tick itimers_tick c s2) Q1 (dropWhile (\<lambda>p. wake_at (procs s p) \<le> now) S) A'"
    by (rule charge_tick_inv) (use a(2) rd2 in \<open>auto simp: sched_inv_def itimers_tick_frame\<close>)
  then have inv': "sched_inv s' Q1 (dropWhile (\<lambda>p. wake_at (procs s p) \<le> now) S) A'"
    by (simp add: sched_inv_def s'_def send_ipis_frame)
  have st: "state (procs s' p) = state (procs s1 p)" "alarm_tick (procs s' p) = alarm_tick (procs s2 p)" for p
    by (simp_all add: s'_def send_ipis_frame charge_tick_frame itimers_tick_frame a(4) fired_def)
  have sig: "bit (sig_pending_mask (procs s' p)) 14" if "p \<in> set A" "alarm_tick (procs s p) \<le> now" for p
    using that by (simp add: s'_def send_ipis_frame charge_tick_frame itimers_tick_frame a(4) fired_def f1 bit_or_iff bit_exp_iff)
  have tw: "p \<in> set (takeWhile (\<lambda>p. wake_at (procs s p) \<le> now) S) \<longleftrightarrow> p \<in> set S \<and> wake_at (procs s p) \<le> now" for p
    using sorted_takeWhile [OF coreD(8) [OF sched_invD(1) [OF inv]]] by blast
  have woke: "state (procs s' p) = PROCESS_READY \<and> queued Q1 p"
    if "p \<in> set S" "wake_at (procs s p) \<le> now" "state (procs s p) = PROCESS_SLEEPING" for p
  proof -
    have "state (procs s1 p) = PROCESS_READY" using that tw by (simp add: w(3) woken_def f0)
    moreover have "p \<in> set (plist s1)"
      using that(1) coreD(9) [OF sched_invD(1) [OF inv]] w(4) by (auto simp: s0_def charge_tick_frame)
    ultimately show ?thesis using ready_okD [OF sched_invD(2) [OF w(2)]] st by simp
  qed
  have same: "state (procs s' p) = state (procs s p)" if "\<not> (p \<in> set S \<and> wake_at (procs s p) \<le> now)" for p
    using that unfolding st w(3) tw by (auto simp: f0)
  have left: "\<forall>p \<in> set A'. now < alarm_tick (procs s' p)" using a(3) st(2) by simp
  show ?thesis using run inv' w(6) woke same sig left by blast
qed

lemma set_pstate_inv:
  assumes inv: "sched_inv s Q S A" and f: "\<And>x. priority (f x) = priority x" "\<And>x. alarm_tick (f x) = alarm_tick x"
    and w: "p \<in> set S \<Longrightarrow> wake_at (f (procs s p)) = wake_at (procs s p)"
    and st: "state (procs s p) \<noteq> PROCESS_READY" "state (f (procs s p)) \<noteq> PROCESS_READY"
  shows "sched_inv (upd p f s) Q S A"
proof -
  note cr = sched_invD(1) [OF inv] and rd = sched_invD(2) [OF inv]
  have "core (upd p f s) Q S A" by (rule core_upd [OF cr]) (use f w coreD(4) [OF cr] in auto)
  moreover have "ready_ok (upd p f s) Q" using rd st by (auto simp: ready_ok_def sched_frame)
  ultimately show ?thesis by (simp add: sched_inv_def)
qed

text \<open>The small system with process 1 asleep until tick 5.\<close>

definition demo_sleep :: sched where
  "demo_sleep = sleep_insert 1 (upd 1 (\<lambda>x. x\<lparr>wake_at := 5, state := PROCESS_SLEEPING\<rparr>) demo_sched)"

lemma demo_sleep_inv: "sched_inv demo_sleep (\<lambda>_ _. []) [1] []"
proof -
  let ?s = "upd 1 (\<lambda>x. x\<lparr>wake_at := 5, state := PROCESS_SLEEPING\<rparr>) demo_sched"
  have inv: "sched_inv ?s (\<lambda>_ _. []) [] []"
    by (rule set_pstate_inv [OF demo_sched_inv]) (simp_all add: demo_fields)
  have "core demo_sleep (\<lambda>_ _. []) [1] []"
    using core_sleep_insert [OF sched_invD(1) [OF inv], of 1] by (simp add: demo_sleep_def sched_frame demo_fields)
  moreover have "ready_ok demo_sleep (\<lambda>_ _. [])"
    using sched_invD(2) [OF inv] by (simp add: demo_sleep_def ready_ok_def sched_frame)
  ultimately show ?thesis by (simp add: sched_inv_def)
qed

lemma process_wake_check_correct_witness:
  "\<exists>s' Q' A'. process_wake_check 7 0 demo_sleep = Some s' \<and> sched_inv s' Q' [] A' \<and> state (procs s' 1) = PROCESS_READY"
proof -
  have "wake_at (procs demo_sleep 1) = 5" "state (procs demo_sleep 1) = PROCESS_SLEEPING"
    by (simp_all add: demo_sleep_def sched_frame)
  with process_wake_check_correct [OF demo_sleep_inv, of 7 0] show ?thesis by (simp, blast)
qed

lemma alarm_loop_diverges:
  "alarm_loop now s = Some t \<Longrightarrow> core s Q S A \<Longrightarrow> p \<in> set A \<Longrightarrow> alarm_tick (procs s p) \<le> now \<Longrightarrow>
     alarm_interval (procs s p) \<noteq> 0 \<Longrightarrow> now + alarm_interval (procs s p) \<le> now \<Longrightarrow> False"
proof (induction arbitrary: A rule: alarm_loop.raw_induct [rotated, consumes 1, case_names step])
  case (step loop now s t)
  note c = step.prems(1)
  obtain q where q: "alarm_due now s = Some q"
    using alarm_due_core(1) [OF c] step.prems(2,3) by (cases "alarm_due now s") (auto simp: not_le [symmetric])
  obtain T where A: "A = q # T" using alarm_due_core(2) [OF c q] by blast
  note f = alarm_fire_spec [OF c [unfolded A], of now]
  obtain A' where A': "core (alarm_fire now q s) Q S A'"
    "set A' = (if alarm_interval (procs s q) \<noteq> 0 then insert q (set T) else set T)" using f(1) by blast
  have "loop now (alarm_fire now q s) = Some t" using step(2) q by simp
  moreover have "p \<in> set A'" using A' A step.prems(2,4) by auto
  moreover have "alarm_tick (procs (alarm_fire now q s) p) \<le> now" "alarm_interval (procs (alarm_fire now q s) p) = alarm_interval (procs s p)"
    using step.prems(3-5) by (auto simp: f(2) fired_def)
  ultimately show False using step(1) [OF _ A'(1)] step.prems(4,5) by simp
qed

text \<open>
  A repeating alarm whose interval reaches past the end of the 32 bit tick counter is due again as
  soon as it has been re-armed: the loop of \<^verbatim>\<open>process_wake_check\<close> never ends, with the scheduler lock
  held. A process chooses the interval with \<^verbatim>\<open>setitimer\<close>, so a large interval stops the machine.
\<close>

theorem alarm_interval_wrap_hangs:
  assumes inv: "sched_inv s Q S A" and p: "p \<in> set A" "alarm_tick (procs s p) \<le> now"
    and wrap: "alarm_interval (procs s p) \<noteq> 0" "now + alarm_interval (procs s p) \<le> now"
  shows "process_wake_check now c s = None"
proof -
  define s0 where "s0 = charge_tick (\<lambda>p. p\<lparr>utime := utime p + 1\<rparr>) c s"
  have inv0: "sched_inv s0 Q S A" unfolding s0_def by (rule charge_tick_inv [OF inv]) simp
  have len: "length S \<le> Suc (length (plist s0))"
    using length_le_plist [OF coreD(7) coreD(9), OF sched_invD(1) sched_invD(1), OF inv0 inv0] by simp
  obtain s1 m Q1 S1 where w: "wake_loop (Suc (length (plist s0))) now 0 s0 = (s1, m)" "sched_inv s1 Q1 S1 A"
    "\<And>q. procs s1 q \<in> {woken (procs s0 q), procs s0 q}"
    using wake_loop_spec [OF inv0 len, of now 0] by (metis (no_types, lifting) insertCI)
  have "alarm_tick (procs s1 p) = alarm_tick (procs s p)" "alarm_interval (procs s1 p) = alarm_interval (procs s p)"
    using w(3) [of p] by (auto simp: woken_def s0_def charge_tick_frame)
  then have "alarm_loop now s1 = None"
    using alarm_loop_diverges [OF _ sched_invD(1) [OF w(2)] p(1)] p(2) wrap by (cases "alarm_loop now s1") auto
  moreover have "plist s \<noteq> []" using p(1) coreD(12) [OF sched_invD(1) [OF inv]] by auto
  ultimately show ?thesis using w(1) by (simp add: process_wake_check_def Let_def s0_def)
qed

text \<open>The small system after process 1 has set an alarm for tick 3 that repeats every \<open>2 ^ 32 - 1\<close> ticks.\<close>

definition demo_alarm :: sched where
  "demo_alarm = fst (process_alarm_set 1 3 (upd 1 (\<lambda>x. x\<lparr>alarm_interval := -1\<rparr>) demo_sched))"

lemma demo_alarm_inv: "sched_inv demo_alarm (\<lambda>_ _. []) [] [1]"
proof -
  let ?s = "upd 1 (\<lambda>x. x\<lparr>alarm_interval := -1\<rparr>) demo_sched"
  have inv: "sched_inv ?s (\<lambda>_ _. []) [] []"
    by (rule set_pstate_inv [OF demo_sched_inv]) (simp_all add: demo_fields)
  have c1: "core (alarm_remove 1 ?s) (\<lambda>_ _. []) [] []" using core_alarm_remove [OF sched_invD(1) [OF inv], of 1] by simp
  have c2: "core (upd 1 (\<lambda>x. x\<lparr>alarm_tick := 3\<rparr>) (alarm_remove 1 ?s)) (\<lambda>_ _. []) [] []"
    by (rule core_upd [OF c1]) (simp_all add: sched_frame queued_def demo_fields)
  have "core demo_alarm (\<lambda>_ _. []) [] [1]"
    using core_alarm_insert [OF c2, of 1] by (simp add: demo_alarm_def process_alarm_set_def sched_frame demo_fields)
  moreover have "ready_ok demo_alarm (\<lambda>_ _. [])"
    using sched_invD(2) [OF inv] by (simp add: demo_alarm_def process_alarm_set_def ready_ok_def sched_frame)
  ultimately show ?thesis by (simp add: sched_inv_def)
qed

lemma alarm_interval_wrap_hangs_witness: "process_wake_check 7 0 demo_alarm = None"
  using alarm_interval_wrap_hangs [OF demo_alarm_inv, of 1 7 0]
  by (simp add: demo_alarm_def process_alarm_set_def sched_frame)

section \<open>Balancing the load\<close>

lemma find_Some_mem: "find P xs = Some x \<Longrightarrow> x \<in> set xs \<and> P x"
  by (auto simp: find_Some_iff)

lemma migratable_spec:
  assumes "seg (nxv (rqs s) r k) (pvv (rqs s) r k) a (map Some xs) None" "length xs < n"
  shows "migratable n s idle (case xs of [] \<Rightarrow> None | x # _ \<Rightarrow> Some x) =
    find (\<lambda>p. Some p \<noteq> idle \<and> state (procs s p) = PROCESS_READY) xs"
  using assms
proof (induction xs arbitrary: n a)
  case Nil
  then show ?case by (cases n) auto
next
  case (Cons x xs)
  then obtain m where n: "n = Suc m" by (cases n) auto
  have "rq_next (rqs s) x = (case xs of [] \<Rightarrow> None | y # _ \<Rightarrow> Some y)"
    using Cons.prems(1) by (cases xs) (auto simp: nxv_def)
  with Cons.IH [of "Some x" m] Cons.prems n show ?case by auto
qed

lemma find_victim_spec:
  assumes c: "core s Q S A" and v: "find_victim m s = Some (r, p)"
  shows "\<exists>k. p \<in> set (Q r k)" "r = active_rq s m \<or> r = expired_rq s m" "Some p \<noteq> idle_of s m" "state (procs s p) = PROCESS_READY"
proof -
  obtain x where x: "find (\<lambda>x. queue_victim m s x \<noteq> None) (map (Pair (expired_rq s m)) (rev [0..<SCHED_NUM_PRIOS]) @
      map (Pair (active_rq s m)) (rev [0..<SCHED_NUM_PRIOS])) = Some x" "queue_victim m s x = Some p" "fst x = r"
    using v unfolding find_victim_def Let_def by (auto split: option.splits simp del: map_append rev_map)
  define k where "k = snd x"
  have "x \<in> set (map (Pair (expired_rq s m)) (rev [0..<SCHED_NUM_PRIOS]) @ map (Pair (active_rq s m)) (rev [0..<SCHED_NUM_PRIOS]))"
    using find_Some_mem [OF x(1)] by simp
  then have k32: "k < 32" and r: "r = active_rq s m \<or> r = expired_rq s m"
    using x(3) by (auto simp: SCHED_NUM_PRIOS_def k_def)
  show "r = active_rq s m \<or> r = expired_rq s m" by (rule r)
  have rep: "queue_rep (rqs s) r k (Q r k)" using rq_okD(1) [OF coreD(1) [OF c] k32] .
  have "set (Q r k) \<subseteq> set (plist s)" using coreD(3) [OF c] by blast
  then have len: "length (Q r k) < Suc (length (plist s))"
    using queue_distinct [OF rep] card_mono [of "set (plist s)" "set (Q r k)"] card_length [of "plist s"]
    by (simp add: distinct_card)
  have "migratable (Suc (length (plist s))) s (idle_of s m) (qhead (rqs s) r k) = Some p"
    using x(2,3) by (simp add: queue_victim_def k_def split: if_splits)
  then have "find (\<lambda>p. Some p \<noteq> idle_of s m \<and> state (procs s p) = PROCESS_READY) (Q r k) = Some p"
    using migratable_spec [of s r k None "Q r k" "Suc (length (plist s))" "idle_of s m"] rep len queue_head [OF rep]
    by (simp add: queue_rep_def ring_def)
  then have "p \<in> set (Q r k) \<and> Some p \<noteq> idle_of s m \<and> state (procs s p) = PROCESS_READY"
    by (auto simp: find_Some_iff)
  then show "\<exists>k. p \<in> set (Q r k)" "Some p \<noteq> idle_of s m" "state (procs s p) = PROCESS_READY" by blast+
qed

lemma foldl_pair: "foldl (\<lambda>(a, b) i. (f a i, g b i)) (a0, b0) xs = (foldl f a0 xs, foldl g b0 xs)"
  by (induction xs arbitrary: a0 b0) auto

lemma load_max:
  fixes f :: "nat \<Rightarrow> u32"
  defines "m xs \<equiv> foldl (\<lambda>mx i. if snd mx < f i then (i, f i) else mx) (0, 0) xs"
  shows "(fst (m xs) \<in> set xs \<and> snd (m xs) = f (fst (m xs)) \<or> m xs = (0, 0)) \<and> (\<forall>i \<in> set xs. f i \<le> snd (m xs))"
proof (induction xs rule: rev_induct)
  case (snoc x xs)
  have e: "m (xs @ [x]) = (if snd (m xs) < f x then (x, f x) else m xs)" by (simp add: m_def)
  show ?case
  proof (cases "snd (m xs) < f x")
    case True
    then show ?thesis using snoc by (auto simp: e intro: less_imp_le order_trans)
  next
    case False
    then have "f x \<le> snd (m xs)" "m (xs @ [x]) = m xs" by (simp_all add: e)
    then show ?thesis using snoc by auto
  qed
qed (simp add: m_def)

lemma load_min:
  fixes f :: "nat \<Rightarrow> u32"
  defines "m xs \<equiv> foldl (\<lambda>mn i. if f i < snd mn then (i, f i) else mn) (0, -1) xs"
  shows "(fst (m xs) \<in> set xs \<and> snd (m xs) = f (fst (m xs)) \<or> m xs = (0, -1)) \<and> (\<forall>i \<in> set xs. snd (m xs) \<le> f i)"
proof (induction xs rule: rev_induct)
  case (snoc x xs)
  have e: "m (xs @ [x]) = (if f x < snd (m xs) then (x, f x) else m xs)" by (simp add: m_def)
  show ?case
  proof (cases "f x < snd (m xs)")
    case True
    then show ?thesis using snoc by (auto simp: e intro: less_imp_le order_trans)
  next
    case False
    then have "snd (m xs) \<le> f x" "m (xs @ [x]) = m xs" by (simp_all add: e)
    then show ?thesis using snoc by auto
  qed
qed (simp add: m_def)

text \<open>The busiest and the idlest CPU.\<close>

lemma load_extremes_spec:
  assumes e: "load_extremes s = ((maxc, maxl), (minc, minl))" and n: "0 < pcpu_count s" "pcpu_count s \<le> 16"
  shows "maxc < pcpu_count s" "minc < pcpu_count s"
    "i < pcpu_count s \<Longrightarrow> sched_pcpu_get_load minc s \<le> sched_pcpu_get_load i s \<and> sched_pcpu_get_load i s \<le> sched_pcpu_get_load maxc s"
proof -
  let ?f = "\<lambda>i. sched_pcpu_get_load i s"
  have "min (sched_pcpu_count s) SCHED_MAX_CPUS = pcpu_count s"
    using n(2) by (simp add: sched_pcpu_count_def SCHED_MAX_CPUS_def)
  then have mx: "(maxc, maxl) = foldl (\<lambda>mx i. if snd mx < ?f i then (i, ?f i) else mx) (0, 0) [0..<pcpu_count s]"
    and mn: "(minc, minl) = foldl (\<lambda>mn i. if ?f i < snd mn then (i, ?f i) else mn) (0, -1) [0..<pcpu_count s]"
    using e unfolding load_extremes_def Let_def foldl_pair by simp_all
  have M: "(maxc < pcpu_count s \<and> maxl = ?f maxc \<or> maxc = 0 \<and> maxl = 0)" "\<And>i. i < pcpu_count s \<Longrightarrow> ?f i \<le> maxl"
    using load_max [of ?f "[0..<pcpu_count s]"] unfolding mx [symmetric] by auto
  have N: "(minc < pcpu_count s \<and> minl = ?f minc \<or> minc = 0 \<and> minl = -1)" "\<And>i. i < pcpu_count s \<Longrightarrow> minl \<le> ?f i"
    using load_min [of ?f "[0..<pcpu_count s]"] unfolding mn [symmetric] by auto
  have maxl: "maxl = ?f maxc"
  proof (cases "maxc = 0 \<and> maxl = 0")
    case True
    then show ?thesis using M(2) [OF n(1)] by simp
  qed (use M(1) in auto)
  have minl: "minl = ?f minc"
  proof (cases "minc = 0 \<and> minl = -1")
    case True
    then have "-1 \<le> ?f 0" using N(2) [OF n(1)] by simp
    then show ?thesis using True by (simp add: antisym word_order.extremum)
  qed (use N(1) in auto)
  show "maxc < pcpu_count s" "minc < pcpu_count s" using M(1) N(1) n(1) by auto
  show "i < pcpu_count s \<Longrightarrow> ?f minc \<le> ?f i \<and> ?f i \<le> ?f maxc" using M(2) N(2) maxl minl by simp
qed


text \<open>Two CPUs, of which the first has the ready processes 1 and 2 and the second none.\<close>

definition demo_smp :: sched where
  "demo_smp = wake_process 0 2 (wake_process 0 1 (demo_sched\<lparr>pcpu_count := 2\<rparr>))"

lemma demo_smp_inv: "sched_inv demo_smp (set_queue 0 16 [1, 2] (\<lambda>_ _. [])) [] []"
proof -
  have "core (demo_sched\<lparr>pcpu_count := 2\<rparr>) (\<lambda>_ _. []) [] [] = core demo_sched (\<lambda>_ _. []) [] []" by (rule core_cong) simp_all
  then have inv0: "sched_inv (demo_sched\<lparr>pcpu_count := 2\<rparr>) (\<lambda>_ _. []) [] []"
    using demo_sched_inv by (simp add: sched_inv_def ready_ok_def)
  have a: "active_rq (demo_sched\<lparr>pcpu_count := 2\<rparr>) 0 = 0" by (simp add: active_rq_def demo_fields)
  have inv1: "sched_inv (wake_process 0 1 (demo_sched\<lparr>pcpu_count := 2\<rparr>)) (set_queue 0 16 [1] (\<lambda>_ _. [])) [] []"
    using wake_process_inv [OF inv0, of 1 16 0] by (simp add: demo_fields a)
  show ?thesis
    using wake_process_inv [OF inv1, of 2 16 0] unfolding demo_smp_def
    by (simp add: wake_process_frame demo_fields a set_queue_def)
qed


end
