(* ===== verification/Process_Life.thy ===== *)
theory Process_Life
  imports Scheduler
begin

unbundle bit_operations_syntax

text \<open>
  The life of a process in \<^verbatim>\<open>src/kernel/scheduler.c\<close>: its kernel stack, its creation by fork, clone and as
  a kernel thread, signals, exit, and the parent that waits for it and frees it. The results of the
  calls that leave the scheduler are arguments: \<open>np\<close> is the process \<^verbatim>\<open>kmalloc\<close> returned (if any) and
  \<open>pg i\<close> the \<open>i\<close>-th frame \<^verbatim>\<open>pmm_alloc_page\<close> returned, 0 for none.
\<close>

section \<open>Kernel stacks\<close>

definition KSTACK_REGION :: nat where "KSTACK_REGION = 0xC8000000"
definition KSTACK_PAGES :: nat where "KSTACK_PAGES = 2"
definition KSTACK_SLOT :: nat where "KSTACK_SLOT = 0x3000"
definition KSTACK_MAX :: nat where "KSTACK_MAX = 10922"
definition KSTACK_FREE_MAX :: nat where "KSTACK_FREE_MAX = 256"

definition kstack_take_slot :: "kstacks \<Rightarrow> (kstacks \<times> nat) option" where
  "kstack_take_slot k =
     (case free_slots k of
        slot # rest \<Rightarrow> Some (k\<lparr>free_slots := rest\<rparr>, slot)
      | [] \<Rightarrow> if next_slot k < KSTACK_MAX then Some (k\<lparr>next_slot := next_slot k + 1\<rparr>, next_slot k) else None)"

definition kstack_alloc :: "(nat \<Rightarrow> u32) \<Rightarrow> sched \<Rightarrow> sched \<times> u32" where
  "kstack_alloc pg s =
     (case kstack_take_slot (kstk s) of
        None \<Rightarrow> (s, 0)
      | Some (k, slot) \<Rightarrow>
          let s = s\<lparr>kstk := k\<rparr>;
              base = of_nat KSTACK_REGION + of_nat slot * of_nat KSTACK_SLOT :: u32
          in if pg 0 = 0 then (s, 0)
             else let s = emit (Map_page (pg 0) (base + 0x1000)) s in
                  if pg 1 = 0 then (s, 0)
                  else (emit (Map_page (pg 1) (base + 0x1000 + 0x1000)) s, base + 0x1000))"

definition kstack_free :: "u32 \<Rightarrow> sched \<Rightarrow> sched" where
  "kstack_free addr s =
     (if addr = 0 then s
      else if unat addr < KSTACK_REGION \<or> KSTACK_REGION + KSTACK_MAX * KSTACK_SLOT \<le> unat addr then s
      else let s = emit (Unmap_page (addr + 0x1000)) (emit (Unmap_page addr) s);
               slot = unat (addr - 0x1000 - of_nat KSTACK_REGION) div KSTACK_SLOT;
               k = kstk s
           in if length (free_slots k) < KSTACK_FREE_MAX then s\<lparr>kstk := k\<lparr>free_slots := slot # free_slots k\<rparr>\<rparr> else s)"

section \<open>Finding, closing, reaping\<close>

definition process_find_locked :: "u32 \<Rightarrow> sched \<Rightarrow> nat option" where
  "process_find_locked n s = find (\<lambda>p. pid (procs s p) = n) (plist s)"

definition process_find_by_pid :: "u32 \<Rightarrow> sched \<Rightarrow> nat option" where
  "process_find_by_pid n s = process_find_locked n s"

definition process_is_current_somewhere :: "nat \<Rightarrow> sched \<Rightarrow> bool" where
  "process_is_current_somewhere p s \<longleftrightarrow> current s (clamp_cpu (cpu_id (procs s p))) = Some p"

definition process_mount_ref_cwd :: "process \<Rightarrow> sched \<Rightarrow> sched" where
  "process_mount_ref_cwd p s = emit (Mount_ref (cwd p)) s"

definition process_mount_unref_cwd :: "process \<Rightarrow> sched \<Rightarrow> sched" where
  "process_mount_unref_cwd p s = emit (Mount_unref (cwd p)) s"

definition process_release_file_refs :: "process \<Rightarrow> sched \<Rightarrow> sched" where
  "process_release_file_refs p s =
     foldl (\<lambda>s x. case x of None \<Rightarrow> s | Some f \<Rightarrow> s\<lparr>file_refs := (file_refs s)(f := file_refs s f - 1)\<rparr>) s (files p)"

text \<open>Releasing a shared address space: the last reference destroys it.\<close>

definition release_as :: "nat \<Rightarrow> sched \<Rightarrow> sched" where
  "release_as p s =
     (let a = addr_space (procs s p) in
      if a = 0 \<or> a = kernel_as s then s
      else let s = (if pflags (procs s p) AND PROCESS_FLAG_THREAD \<noteq> 0 \<or> 0 < as_refcount_get a (as_refcnt s)
                    then let (t, r) = as_refcount_dec a (as_refcnt s);
                             s = s\<lparr>as_refcnt := t\<rparr>
                         in if r = 0 then emit (As_destroy a) s else s
                    else emit (As_destroy a) s)
           in upd p (\<lambda>x. x\<lparr>addr_space := 0\<rparr>) s)"

definition process_reap_locked :: "nat \<Rightarrow> sched \<Rightarrow> sched" where
  "process_reap_locked p s =
     (if pid (procs s p) = 0 then s
      else let s = alarm_remove p (sleep_remove p (rq_remove_if_queued p s)) in
           if plist s = [p] then s
           else let s = s\<lparr>plist := remove1 p (plist s)\<rparr>;
                    s = (if kernel_stack (procs s p) \<noteq> 0
                         then upd p (\<lambda>x. x\<lparr>kernel_stack := 0\<rparr>) (kstack_free (kernel_stack (procs s p)) s) else s)
                in emit (Free_process p) (release_as p s))"

definition process_close_all_files_locked :: "nat \<Rightarrow> sched \<Rightarrow> sched" where
  "process_close_all_files_locked p s =
     foldl (\<lambda>s fd. case files (procs s p) ! fd of
          None \<Rightarrow> s
        | Some f \<Rightarrow>
            let s = upd p (\<lambda>x. x\<lparr>files := (files x)[fd := None]\<rparr>) s;
                s = s\<lparr>file_refs := (file_refs s)(f := file_refs s f - 1)\<rparr>
            in if file_refs s f = 0 then emit (File_close f) s else s)
       s [0..<PROCESS_MAX_FILES]"

section \<open>Exit\<close>

text \<open>One child of the exiting process \<open>me\<close>; \<open>ip\<close> is the init process.\<close>

definition reparent :: "nat \<Rightarrow> nat \<Rightarrow> nat \<Rightarrow> sched \<Rightarrow> sched" where
  "reparent me ip it s =
     (if parent_pid (procs s it) = pid (procs s me) \<and> it \<noteq> me
      then let s = upd it (\<lambda>x. x\<lparr>parent_pid := init_pid s\<rparr>) s in
           if state (procs s it) = PROCESS_ZOMBIE \<and> state (procs s ip) = PROCESS_BLOCKED \<and>
              waiting (procs s ip) \<and> wait_pid (procs s ip) = -1
           then let s = upd ip (\<lambda>x. x\<lparr>wait_result_pid := sint (pid (procs s it)),
                                     wait_result_status := exit_status (procs s it), state := PROCESS_READY\<rparr>) s
                in enqueue_on (active_rq s (cpu_id (procs s ip))) ip s
           else s
      else s)"

definition exit_reparent :: "nat \<Rightarrow> sched \<Rightarrow> sched" where
  "exit_reparent me s =
     (case (if init_pid s \<noteq> 0 then process_find_locked (init_pid s) s else None) of
        Some ip \<Rightarrow> foldl (\<lambda>s it. reparent me ip it s) s (plist s)
      | None \<Rightarrow> s)"

definition exit_wake_parent :: "nat \<Rightarrow> nat \<Rightarrow> int \<Rightarrow> sched \<Rightarrow> sched" where
  "exit_wake_parent c me status s =
     (if pid (procs s me) = 0 then s
      else case process_find_locked (parent_pid (procs s me)) s of
             None \<Rightarrow> s
           | Some par \<Rightarrow>
               if state (procs s par) = PROCESS_BLOCKED \<and> waiting (procs s par) \<and>
                  (wait_pid (procs s par) = -1 \<or> wait_pid (procs s par) = sint (pid (procs s me)))
               then let s = upd par (\<lambda>x. x\<lparr>wait_result_pid := sint (pid (procs s me)), wait_result_status := status\<rparr>) s;
                        t = clamp_cpu (cpu_id (procs s par))
                    in sched_ipi_resched c t (wake_process t par s)
               else s)"

definition process_exit_notify :: "nat \<Rightarrow> int \<Rightarrow> sched \<Rightarrow> sched" where
  "process_exit_notify c status s =
     (case current s c of
        None \<Rightarrow> s
      | Some me \<Rightarrow>
          let s = process_mount_unref_cwd (procs s me) s;
              s = upd me (\<lambda>x. x\<lparr>exit_status := status, state := PROCESS_ZOMBIE\<rparr>) s;
              s = alarm_remove me s;
              s = exit_reparent me s
          in exit_wake_parent c me status s)"

section \<open>Signals\<close>

text \<open>What \<^verbatim>\<open>process_kill\<close> and \<^verbatim>\<open>process_kill_pgrp\<close> do to a process that gets the signal.\<close>

definition send_signal :: "int \<Rightarrow> nat \<Rightarrow> sched \<Rightarrow> sched" where
  "send_signal sig p s =
     (let t = clamp_cpu (cpu_id (procs s p));
          s = upd p (\<lambda>x. x\<lparr>sig_pending_mask := sig_pending_mask x OR push_bit (nat sig) 1\<rparr>) s;
          s = (if sig = 9 then upd p (\<lambda>x. x\<lparr>sig_blocked_mask := sig_blocked_mask x AND NOT (push_bit (nat sig) 1)\<rparr>) s else s)
      in if state (procs s p) = PROCESS_BLOCKED \<or> state (procs s p) = PROCESS_SLEEPING
         then wake_process t p (sleep_remove p s) else s)"

definition may_signal :: "nat option \<Rightarrow> nat \<Rightarrow> sched \<Rightarrow> bool" where
  "may_signal cur p s =
     (case cur of
        None \<Rightarrow> True
      | Some me \<Rightarrow> euid (procs s me) = 0 \<or> euid (procs s me) = uid (procs s p) \<or> uid (procs s me) = uid (procs s p))"

text \<open>A process that kills itself does not return: the result is \<^term>\<open>None\<close>.\<close>

definition process_kill :: "nat \<Rightarrow> u32 \<Rightarrow> int \<Rightarrow> sched \<Rightarrow> sched \<times> int option" where
  "process_kill c n sig s =
     (if n = 0 then (s, Some (- EINVAL))
      else if sig \<le> 0 \<or> PROCESS_MAX_SIG \<le> sig then (s, Some (- EINVAL))
      else if current s c \<noteq> None \<and> pid (procs s (the (current s c))) = n \<and> sig = 9
      then (schedule c (process_exit_notify c (128 + sig) (process_close_all_files_locked (the (current s c)) s)), None)
      else case process_find_locked n s of
             None \<Rightarrow> (s, Some (- ESRCH))
           | Some p \<Rightarrow>
               if pid (procs s p) = 0 then (s, Some (- ESRCH))
               else if state (procs s p) = PROCESS_ZOMBIE then (s, Some 0)
               else if \<not> may_signal (current s c) p s then (s, Some (- EPERM))
               else (sched_ipi_resched c (clamp_cpu (cpu_id (procs s p))) (send_signal sig p s), Some 0))"

text \<open>
  The loop over the process group. \<^verbatim>\<open>continue\<close> jumps to the loop condition without moving on to the
  next process: at the first process the loop ends there, at any other it starts again at the same one.
\<close>

definition in_group :: "u32 \<Rightarrow> nat \<Rightarrow> sched \<Rightarrow> bool" where
  "in_group g p s \<longleftrightarrow> pgrp_id (procs s p) = g \<and> pid (procs s p) \<noteq> 0 \<and> state (procs s p) \<noteq> PROCESS_ZOMBIE"

partial_function (option) kill_loop :: "nat option \<Rightarrow> u32 \<Rightarrow> int \<Rightarrow> nat \<Rightarrow> sched \<times> u32 \<times> bool \<Rightarrow> (sched \<times> u32 \<times> bool) option" where
  "kill_loop cur g sig i acc =
     (let s = fst acc; it = plist s ! i in
      if in_group g it s \<and> \<not> may_signal cur it s
      then if i = 0 then Some acc else kill_loop cur g sig i acc
      else let t = clamp_cpu (cpu_id (procs s it));
               acc = (if in_group g it s
                      then (send_signal sig it s, if t < 32 then fst (snd acc) OR push_bit t 1 else fst (snd acc), True)
                      else acc)
           in if i + 1 < length (plist s) then kill_loop cur g sig (i + 1) acc else Some acc)"

definition process_kill_pgrp :: "nat \<Rightarrow> u32 \<Rightarrow> int \<Rightarrow> sched \<Rightarrow> (sched \<times> int) option" where
  "process_kill_pgrp c g sig s =
     (if g = 0 then Some (s, - EINVAL)
      else if sig \<le> 0 \<or> PROCESS_MAX_SIG \<le> sig then Some (s, - EINVAL)
      else case (if plist s = [] then Some (s, 0, False) else kill_loop (current s c) g sig 0 (s, 0, False)) of
             None \<Rightarrow> None
           | Some (s, ipis, found) \<Rightarrow>
               Some (send_ipis 32 c (ipis AND NOT (push_bit c 1)) s, if found then 0 else - ESRCH))"

section \<open>Waiting for a child\<close>

datatype wait_step =
    Wait_return int "int option"
  | Wait_retry
  | Wait_block

text \<open>
  One pass of the loop of \<^verbatim>\<open>process_waitpid\<close>: it returns (with the status to store), sleeps one tick and
  tries again because the child has not left its CPU yet, or blocks until a child exits. After the block
  \<open>process_waitpid_resume\<close> clears the wait fields and the loop starts again.
\<close>

definition is_child :: "nat \<Rightarrow> nat \<Rightarrow> sched \<Rightarrow> bool" where
  "is_child me p s \<longleftrightarrow> parent_pid (procs s p) = pid (procs s me)"

definition process_waitpid_pass :: "nat \<Rightarrow> int \<Rightarrow> u32 \<Rightarrow> sched \<Rightarrow> sched \<times> wait_step" where
  "process_waitpid_pass c n options s =
     (case current s c of
        None \<Rightarrow> (s, Wait_return (- ECHILD) None)
      | Some me \<Rightarrow>
          (case find (\<lambda>p. is_child me p s \<and> (n = -1 \<or> sint (pid (procs s p)) = n) \<and> state (procs s p) = PROCESS_ZOMBIE) (plist s) of
             Some p \<Rightarrow>
               if process_is_current_somewhere p s
               then (s, if options AND 1 \<noteq> 0 then Wait_return 0 None else Wait_retry)
               else (process_reap_locked p s, Wait_return (sint (pid (procs s p))) (Some (exit_status (procs s p))))
           | None \<Rightarrow>
               if find (\<lambda>p. is_child me p s) (plist s) = None then (s, Wait_return (- ECHILD) None)
               else if options AND 1 \<noteq> 0 then (s, Wait_return 0 None)
               else (upd me (\<lambda>x. x\<lparr>waiting := True, wait_pid := n, wait_result_pid := -1, state := PROCESS_BLOCKED\<rparr>) s, Wait_block)))"

definition process_waitpid_resume :: "nat \<Rightarrow> sched \<Rightarrow> sched" where
  "process_waitpid_resume me s = upd me (\<lambda>x. x\<lparr>waiting := False, wait_pid := -1, wait_result_pid := -1\<rparr>) s"

definition sched_set_init_pid :: "u32 \<Rightarrow> sched \<Rightarrow> sched" where
  "sched_set_init_pid n s = s\<lparr>init_pid := n\<rparr>"

definition sched_assign_pid1 :: "nat option \<Rightarrow> sched \<Rightarrow> sched" where
  "sched_assign_pid1 p s =
     (case p of None \<Rightarrow> s | Some p \<Rightarrow> (upd p (\<lambda>x. x\<lparr>pid := 1, tgid := 1\<rparr>) s)\<lparr>init_pid := 1\<rparr>)"

section \<open>Creating processes\<close>

definition share_files :: "process \<Rightarrow> sched \<Rightarrow> sched" where
  "share_files p s =
     foldl (\<lambda>s x. case x of None \<Rightarrow> s | Some f \<Rightarrow> s\<lparr>file_refs := (file_refs s)(f := file_refs s f + 1)\<rparr>) s (files p)"

text \<open>The last steps of every creation: the process list, the runqueue and the load of the chosen CPU.\<close>

definition admit :: "nat \<Rightarrow> nat \<Rightarrow> nat \<Rightarrow> process \<Rightarrow> sched \<Rightarrow> sched" where
  "admit c t p x s =
     (let s = s\<lparr>procs := (procs s)(p := x), plist := plist s @ [p]\<rparr>;
          s = enqueue_on (active_rq s t) p s;
          s = sched_pcpu_inc_load t s
      in sched_ipi_resched c t s)"

text \<open>The child of a fork, before its kernel stack; \<open>cur\<close> is the running process, if any.\<close>

definition fork_image :: "process option \<Rightarrow> u32 \<Rightarrow> u32 \<Rightarrow> u32 list \<Rightarrow> nat \<Rightarrow> u8 list \<Rightarrow> process" where
  "fork_image cur n as regs target fpu0 =
     (let x = zero_process\<lparr>pid := n, state := PROCESS_READY, addr_space := as, wake_at := 0, exit_status := 0,
            waiting := False, wait_pid := -1, wait_result_pid := -1, wait_result_status := 0,
            user_regs := Some regs, tgid := n, pflags := 0, tls_base := 0, cpu_id := target\<rparr>
      in case cur of
           Some q \<Rightarrow> x\<lparr>parent_pid := pid q, session_id := session_id q, pgrp_id := pgrp_id q, uid := uid q, gid := gid q,
               euid := euid q, egid := egid q, suid := suid q, sgid := sgid q, priority := priority q, nice := nice q,
               cwd := cwd q, fpu_state := fpu_state q, sigactions := sigactions q, sig_blocked_mask := sig_blocked_mask q,
               files := files q, fd_flags := map2 (\<lambda>f g. if f = None then 0 else g) (files q) (fd_flags q), mmaps := mmaps q\<rparr>
         | None \<Rightarrow> x\<lparr>session_id := n, pgrp_id := n, priority := SCHED_DEFAULT_PRIO, cwd := ''/'', fpu_state := fpu0,
               mmaps := replicate PROCESS_MAX_MMAPS (0, 0, -1)\<rparr>)"

definition process_fork_create ::
  "nat \<Rightarrow> u32 \<Rightarrow> u32 list option \<Rightarrow> nat option \<Rightarrow> (nat \<Rightarrow> u32) \<Rightarrow> u8 list \<Rightarrow> sched \<Rightarrow> sched \<times> nat option" where
  "process_fork_create c child_as child_regs np pg fpu0 s =
     (case (child_regs, np) of
        (Some regs, Some p) \<Rightarrow>
          if child_as = 0 then (s, None)
          else let n = next_pid s;
                   s = s\<lparr>next_pid := n + 1\<rparr>;
                   t = sched_pcpu_least_loaded s;
                   x = fork_image (map_option (procs s) (current s c)) n child_as regs t fpu0;
                   s = process_mount_ref_cwd x s;
                   s = (if current s c \<noteq> None then share_files x s else s);
                   (s, stack) = kstack_alloc pg s
               in if stack = 0
                  then (process_mount_unref_cwd x (if current s c \<noteq> None then process_release_file_refs x s else s), None)
                  else (admit c t p (x\<lparr>kernel_stack := stack\<rparr>) s, Some p)
      | _ \<Rightarrow> (s, None))"

text \<open>
  \<^verbatim>\<open>clone\<close> shares or copies the address space. \<open>as_copy\<close> is the result of \<^verbatim>\<open>vmm_as_clone_user_cow\<close>, and
  \<open>set_ret0\<close> and \<open>set_stack\<close> are the architecture's writes to the saved registers.
\<close>

definition clone_as :: "u32 \<Rightarrow> u32 \<Rightarrow> (u32 \<times> u32) list \<Rightarrow> (u32 \<times> u32) list \<times> bool" where
  "clone_as flags a t =
     (if flags AND CLONE_VM \<noteq> 0
      then if as_refcount_get a t = 0 then (as_refcount_inc a (as_refcount_inc a t), True) else (as_refcount_inc a t, False)
      else (t, False))"

definition clone_image :: "u32 \<Rightarrow> process \<Rightarrow> u32 \<Rightarrow> u32 \<Rightarrow> u32 list \<Rightarrow> u32 \<Rightarrow> nat \<Rightarrow> process" where
  "clone_image flags q n as regs tls t =
     zero_process\<lparr>pid := n, parent_pid := pid q, session_id := session_id q, pgrp_id := pgrp_id q, priority := priority q,
       nice := nice q, state := PROCESS_READY, wake_at := 0, exit_status := 0, waiting := False, wait_pid := -1,
       wait_result_pid := -1, wait_result_status := 0, addr_space := as,
       pflags := if flags AND CLONE_VM \<noteq> 0 then PROCESS_FLAG_THREAD else 0,
       tgid := if flags AND CLONE_THREAD \<noteq> 0 then tgid q else n,
       cwd := cwd q, files := files q, fd_flags := fd_flags q, sigactions := sigactions q,
       sig_blocked_mask := sig_blocked_mask q, tls_base := if flags AND CLONE_SETTLS \<noteq> 0 then tls else 0,
       uid := uid q, gid := gid q, euid := euid q, egid := egid q, suid := suid q, sgid := sgid q,
       heap_start := heap_start q, heap_break := heap_break q, rlimits := rlimits q, fpu_state := fpu_state q,
       mmaps := mmaps q, user_regs := Some regs, cpu_id := t\<rparr>"

definition process_clone_create ::
  "nat \<Rightarrow> u32 \<Rightarrow> u32 \<Rightarrow> u32 list option \<Rightarrow> u32 \<Rightarrow> (u32 list \<Rightarrow> u32 list) \<Rightarrow> (u32 \<Rightarrow> u32 list \<Rightarrow> u32 list) \<Rightarrow>
   u32 \<Rightarrow> nat option \<Rightarrow> (nat \<Rightarrow> u32) \<Rightarrow> sched \<Rightarrow> sched \<times> nat option" where
  "process_clone_create c flags child_stack child_regs tls set_ret0 set_stack as_copy np pg s =
     (case (child_regs, current s c, np) of
        (Some regs, Some me, Some p) \<Rightarrow>
          let q = procs s me;
              n = next_pid s;
              s = s\<lparr>next_pid := n + 1\<rparr>;
              vm = (flags AND CLONE_VM \<noteq> 0);
              a = (if vm then addr_space q else as_copy);
              (tab, added) = clone_as flags a (as_refcnt s);
              s = s\<lparr>as_refcnt := tab\<rparr>
          in if \<not> vm \<and> as_copy = 0 then (s, None)
             else let regs = set_ret0 regs;
                      regs = (if child_stack \<noteq> 0 then set_stack child_stack regs else regs);
                      t = sched_pcpu_least_loaded s;
                      x = clone_image flags q n a regs tls t;
                      s = share_files x (process_mount_ref_cwd x s);
                      (s, stack) = kstack_alloc pg s
                  in if stack = 0
                     then let s = process_mount_unref_cwd x (process_release_file_refs x s);
                              s = (if vm then s\<lparr>as_refcnt := fst (as_refcount_dec a (as_refcnt s))\<rparr> else s);
                              s = (if vm \<and> added then s\<lparr>as_refcnt := fst (as_refcount_dec a (as_refcnt s))\<rparr> else s)
                          in (if \<not> vm \<and> a \<noteq> 0 then emit (As_destroy a) s else s, None)
                     else (admit c t p (x\<lparr>kernel_stack := stack\<rparr>) s, Some p)
      | _ \<Rightarrow> (s, None))"

definition process_create_kernel :: "nat \<Rightarrow> nat option \<Rightarrow> (nat \<Rightarrow> u32) \<Rightarrow> u8 list \<Rightarrow> sched \<Rightarrow> sched \<times> nat option" where
  "process_create_kernel c np pg fpu0 s =
     (case np of
        None \<Rightarrow> (s, None)
      | Some p \<Rightarrow>
          let cur = map_option (procs s) (current s c);
              n = next_pid s;
              s = s\<lparr>next_pid := n + 1\<rparr>;
              t = sched_pcpu_least_loaded s;
              x = zero_process\<lparr>pid := n,
                    parent_pid := (case cur of Some q \<Rightarrow> pid q | None \<Rightarrow> 0),
                    session_id := (case cur of Some q \<Rightarrow> session_id q | None \<Rightarrow> n),
                    pgrp_id := (case cur of Some q \<Rightarrow> pgrp_id q | None \<Rightarrow> n),
                    priority := SCHED_DEFAULT_PRIO, nice := 0, state := PROCESS_READY,
                    addr_space := if kernel_as s \<noteq> 0 then kernel_as s else (case cur of Some q \<Rightarrow> addr_space q | None \<Rightarrow> 0),
                    wait_pid := -1, wait_result_pid := -1, tgid := n, cpu_id := t, fpu_state := fpu0,
                    mmaps := replicate PROCESS_MAX_MMAPS (0, 0, -1)\<rparr>;
              (s, stack) = kstack_alloc pg s
          in if stack = 0 then (s, None) else (admit c t p (x\<lparr>kernel_stack := stack\<rparr>) s, Some p))"

text \<open>Start-up: the idle process of the first CPU, and of another CPU. Without memory the first one halts.\<close>

definition process_init :: "nat option \<Rightarrow> (nat \<Rightarrow> u32) \<Rightarrow> u8 list \<Rightarrow> u32 \<Rightarrow> sched \<Rightarrow> sched option" where
  "process_init np pg fpu0 cr3 s =
     (case np of
        None \<Rightarrow> None
      | Some p \<Rightarrow>
          let s = s\<lparr>rqs := \<lparr>rq_next = rq_next (rqs s), rq_prev = rq_prev (rqs s), qhead = \<lambda>_ _. None, qtail = \<lambda>_ _. None, rq_map = \<lambda>_. 0\<rparr>,
                    active_store := \<lambda>_. 0, idle_of := \<lambda>_. None, kernel_as := cr3\<rparr>;
              x = zero_process\<lparr>priority := SCHED_NUM_PRIOS - 1, nice := 19, state := PROCESS_RUNNING, addr_space := cr3,
                    wait_pid := -1, wait_result_pid := -1, cwd := ''/'', mmaps := replicate PROCESS_MAX_MMAPS (0, 0, -1),
                    cpu_id := 0, fpu_state := fpu0\<rparr>;
              (s, stack) = kstack_alloc pg (process_mount_ref_cwd x s)
          in if stack = 0 then None
             else Some (emit (Set_kstack (stack + KSTACK_SIZE))
                    (s\<lparr>procs := (procs s)(p := x\<lparr>kernel_stack := stack\<rparr>), idle_of := (idle_of s)(0 := Some p),
                       current := (current s)(0 := Some p), plist := [p]\<rparr>)))"

definition sched_ap_init :: "nat \<Rightarrow> nat option \<Rightarrow> (nat \<Rightarrow> u32) \<Rightarrow> u8 list \<Rightarrow> sched \<Rightarrow> sched" where
  "sched_ap_init cpu np pg fpu0 s =
     (if cpu = 0 \<or> SCHED_MAX_CPUS \<le> cpu then s
      else case np of
        None \<Rightarrow> s
      | Some p \<Rightarrow>
          let (s, stack) = kstack_alloc pg s in
          if stack = 0 then s
          else let n = next_pid s;
                   x = zero_process\<lparr>priority := SCHED_NUM_PRIOS - 1, nice := 19, state := PROCESS_RUNNING, addr_space := kernel_as s,
                         cpu_id := cpu, cwd := ''/'', mmaps := replicate PROCESS_MAX_MMAPS (0, 0, -1), kernel_stack := stack,
                         fpu_state := fpu0, pid := n, tgid := n\<rparr>;
                   s = process_mount_ref_cwd x s
               in s\<lparr>next_pid := n + 1, procs := (procs s)(p := x), plist := plist s @ [p],
                    idle_of := (idle_of s)(cpu := Some p), current := (current s)(cpu := Some p)\<rparr>)"

section \<open>Kernel stacks do not overlap\<close>

text \<open>\<open>L\<close> are the slots of the stacks in use.\<close>

definition kstack_inv :: "kstacks \<Rightarrow> nat set \<Rightarrow> bool" where
  "kstack_inv k L \<longleftrightarrow> distinct (free_slots k) \<and> set (free_slots k) \<subseteq> {..<next_slot k} \<and> next_slot k \<le> KSTACK_MAX \<and>
     L \<subseteq> {..<next_slot k} \<and> L \<inter> set (free_slots k) = {}"

definition kstack_addr :: "nat \<Rightarrow> u32" where
  "kstack_addr slot = of_nat KSTACK_REGION + of_nat slot * of_nat KSTACK_SLOT + 0x1000"

lemma unat_kstack_addr:
  assumes "slot < KSTACK_MAX"
  shows "unat (kstack_addr slot) = KSTACK_REGION + slot * KSTACK_SLOT + 0x1000"
proof -
  have "kstack_addr slot = of_nat (KSTACK_REGION + slot * KSTACK_SLOT + 0x1000)" by (simp add: kstack_addr_def)
  moreover have "KSTACK_REGION + slot * KSTACK_SLOT + 0x1000 < 2 ^ 32"
    using assms by (simp add: KSTACK_REGION_def KSTACK_SLOT_def KSTACK_MAX_def)
  ultimately show ?thesis using unat_of_nat_small [where 'a = 32, of "KSTACK_REGION + slot * KSTACK_SLOT + 0x1000"] by simp
qed

lemma kstack_take_slot_inv:
  assumes inv: "kstack_inv k L" and t: "kstack_take_slot k = Some (k', slot)"
  shows "slot \<notin> L" "slot < KSTACK_MAX" "kstack_inv k' (insert slot L)"
proof -
  consider (free) rest where "free_slots k = slot # rest" "k' = k\<lparr>free_slots := rest\<rparr>"
    | (new) "free_slots k = []" "slot = next_slot k" "next_slot k < KSTACK_MAX" "k' = k\<lparr>next_slot := next_slot k + 1\<rparr>"
    using t by (auto simp: kstack_take_slot_def split: list.splits if_splits)
  then have "slot \<notin> L \<and> slot < KSTACK_MAX \<and> kstack_inv k' (insert slot L)"
  proof cases
    case free
    then show ?thesis using inv by (auto simp: kstack_inv_def)
  next
    case new
    then show ?thesis using inv by (auto simp: kstack_inv_def)
  qed
  then show "slot \<notin> L" "slot < KSTACK_MAX" "kstack_inv k' (insert slot L)" by blast+
qed

lemma kstack_alloc_spec:
  assumes inv: "kstack_inv (kstk s) L" and a: "kstack_alloc pg s = (s', a)" "a \<noteq> 0"
  shows "\<exists>slot. slot \<notin> L \<and> slot < KSTACK_MAX \<and> a = kstack_addr slot \<and> kstack_inv (kstk s') (insert slot L)"
proof -
  obtain k slot where t: "kstack_take_slot (kstk s) = Some (k, slot)"
    using a by (auto simp: kstack_alloc_def split: option.splits)
  then have "a = kstack_addr slot" "kstk s' = k"
    using a by (auto simp: kstack_alloc_def Let_def kstack_addr_def emit_def split: if_splits)
  then show ?thesis using kstack_take_slot_inv [OF inv t] by blast
qed

lemma kstack_free_spec:
  assumes inv: "kstack_inv (kstk s) (insert slot L)" and l: "slot \<notin> L" "slot < KSTACK_MAX"
  shows "kstack_inv (kstk (kstack_free (kstack_addr slot) s)) L"
proof -
  let ?a = "kstack_addr slot"
  note u = unat_kstack_addr [OF l(2)]
  have "?a - 0x1000 - of_nat KSTACK_REGION = of_nat (slot * KSTACK_SLOT)" by (simp add: kstack_addr_def)
  moreover have "slot * KSTACK_SLOT < 2 ^ 32" using l(2) by (simp add: KSTACK_SLOT_def KSTACK_MAX_def)
  ultimately have "unat (?a - 0x1000 - of_nat KSTACK_REGION) div KSTACK_SLOT = slot"
    using unat_of_nat_small [where 'a = 32, of "slot * KSTACK_SLOT"] by (simp add: KSTACK_SLOT_def)
  moreover have "?a \<noteq> 0" "\<not> (unat ?a < KSTACK_REGION \<or> KSTACK_REGION + KSTACK_MAX * KSTACK_SLOT \<le> unat ?a)"
    using u l(2) by (auto simp: KSTACK_REGION_def KSTACK_SLOT_def KSTACK_MAX_def)
  ultimately have "kstk (kstack_free ?a s) =
      (if length (free_slots (kstk s)) < KSTACK_FREE_MAX then (kstk s)\<lparr>free_slots := slot # free_slots (kstk s)\<rparr> else kstk s)"
    by (simp add: kstack_free_def Let_def emit_def)
  then show ?thesis using inv l by (auto simp: kstack_inv_def)
qed



section \<open>Signals reach their process\<close>

text \<open>Fields of a process that sending a signal may change.\<close>

lemma send_signal_frame:
  "q \<noteq> p \<Longrightarrow> procs (send_signal sig p s) q = procs s q"
  "plist (send_signal sig p s) = plist s" "current (send_signal sig p s) = current s"
  "pid (procs (send_signal sig p s) q) = pid (procs s q)" "uid (procs (send_signal sig p s) q) = uid (procs s q)"
  "euid (procs (send_signal sig p s) q) = euid (procs s q)" "pgrp_id (procs (send_signal sig p s) q) = pgrp_id (procs s q)"
  by (auto simp: send_signal_def Let_def sched_frame wake_process_frame)

lemma send_signal_inv:
  assumes inv: "sched_inv s Q S A" and p: "p \<in> set (plist s)" and sig: "0 < sig" "sig < 32"
  shows "\<exists>Q' S'. sched_inv (send_signal sig p s) Q' S' A"
    and "bit (sig_pending_mask (procs (send_signal sig p s) p)) (nat sig)"
    and "state (procs (send_signal sig p s) p) = (if state (procs s p) \<in> {PROCESS_BLOCKED, PROCESS_SLEEPING} then PROCESS_READY else state (procs s p))"
proof -
  define f :: "process \<Rightarrow> process" where "f = (\<lambda>x. x\<lparr>sig_pending_mask := sig_pending_mask x OR push_bit (nat sig) 1,
      sig_blocked_mask := (if sig = 9 then sig_blocked_mask x AND NOT (push_bit (nat sig) 1) else sig_blocked_mask x)\<rparr>)"
  have f: "priority (f x) = priority x" "wake_at (f x) = wake_at x" "alarm_tick (f x) = alarm_tick x" "state (f x) = state x" for x
    by (simp_all add: f_def)
  note c = sched_invD(1) [OF inv] and rd = sched_invD(2) [OF inv]
  let ?s = "upd p f s"
  have eq: "send_signal sig p s = (if state (procs s p) = PROCESS_BLOCKED \<or> state (procs s p) = PROCESS_SLEEPING
      then wake_process (clamp_cpu (cpu_id (procs s p))) p (sleep_remove p ?s) else ?s)"
    by (simp add: send_signal_def Let_def upd_def f_def)
  have "core ?s Q S A" by (rule core_upd [OF c]) (use f coreD(4) [OF c] in auto)
  moreover have "ready_ok ?s Q" using rd f by (auto simp: ready_ok_def sched_frame)
  ultimately have inv1: "sched_inv ?s Q S A" by (simp add: sched_inv_def)
  have inv2: "sched_inv (sleep_remove p ?s) Q (remove1 p S) A"
    using core_sleep_remove [OF sched_invD(1) [OF inv1]] sched_invD(2) [OF inv1]
    by (simp add: sched_inv_def ready_ok_def sched_frame)
  show "\<exists>Q' S'. sched_inv (send_signal sig p s) Q' S' A"
  proof (cases "state (procs s p) = PROCESS_BLOCKED \<or> state (procs s p) = PROCESS_SLEEPING")
    case True
    then have "state (procs (sleep_remove p ?s) p) \<noteq> PROCESS_READY" by (auto simp: sched_frame f)
    then show ?thesis
      using wake_process_inv [OF inv2 _ _ refl, of p "clamp_cpu (cpu_id (procs s p))"] p True
      by (auto simp: eq sched_frame)
  next
    case False
    then show ?thesis using inv1 eq by auto
  qed
  show "bit (sig_pending_mask (procs (send_signal sig p s) p)) (nat sig)"
  proof -
    have "nat sig < 32" using sig by simp
    then show ?thesis by (simp add: eq wake_process_frame sched_frame f_def bit_or_iff bit_exp_iff)
  qed
  show "state (procs (send_signal sig p s) p) = (if state (procs s p) \<in> {PROCESS_BLOCKED, PROCESS_SLEEPING} then PROCESS_READY else state (procs s p))"
    by (auto simp: eq wake_process_frame sched_frame f)
qed

lemma sched_ipi_resched_simps [simp]:
  "procs (sched_ipi_resched c t s) = procs s" "plist (sched_ipi_resched c t s) = plist s"
  "current (sched_ipi_resched c t s) = current s" "idle_of (sched_ipi_resched c t s) = idle_of s"
  "sched_inv (sched_ipi_resched c t s) Q S A = sched_inv s Q S A"
  by (simp_all add: sched_ipi_resched_def sched_inv_def sched_frame)

lemma process_find_SomeD: "process_find_locked n s = Some p \<Longrightarrow> p \<in> set (plist s) \<and> pid (procs s p) = n"
  using find_Some_mem [of "\<lambda>p. pid (procs s p) = n" "plist s" p] by (simp add: process_find_locked_def)

text \<open>
  C18. \<^verbatim>\<open>process_kill\<close> of another process. On an error nothing changes. A signal is refused with
  \<^verbatim>\<open>EPERM\<close> exactly when the sender is neither root nor of the user of the target. A signal
  that is sent is pending for the target, which is neither blocked nor asleep any more; no other process changes
  and the invariant of the scheduler is kept.
\<close>

theorem process_kill_correct:
  assumes inv: "sched_inv s Q S A" and r: "process_kill c n sig s = (s', Some r)"
  shows "(r \<noteq> 0 \<longrightarrow> s' = s) \<and> (\<exists>Q' S'. sched_inv s' Q' S' A) \<and>
    (\<forall>q. process_find_locked n s \<noteq> Some q \<longrightarrow> procs s' q = procs s q) \<and>
    (r = - EPERM \<longrightarrow> (\<exists>p. process_find_locked n s = Some p \<and> \<not> may_signal (current s c) p s)) \<and>
    (\<forall>p. r = 0 \<longrightarrow> process_find_locked n s = Some p \<longrightarrow> state (procs s p) \<noteq> PROCESS_ZOMBIE \<longrightarrow>
       may_signal (current s c) p s \<and> bit (sig_pending_mask (procs s' p)) (nat sig) \<and>
       state (procs s' p) \<noteq> PROCESS_BLOCKED \<and> state (procs s' p) \<noteq> PROCESS_SLEEPING)"
proof -
  consider (err) "s' = s" "r \<in> {- EINVAL, - ESRCH}"
    | (zombie) p where "s' = s" "r = 0" "process_find_locked n s = Some p" "state (procs s p) = PROCESS_ZOMBIE"
    | (denied) p where "s' = s" "r = - EPERM" "process_find_locked n s = Some p" "\<not> may_signal (current s c) p s"
    | (sent) p where "s' = sched_ipi_resched c (clamp_cpu (cpu_id (procs s p))) (send_signal sig p s)" "r = 0"
        "process_find_locked n s = Some p" "may_signal (current s c) p s" "0 < sig" "sig < 32"
    using r by (auto simp: process_kill_def PROCESS_MAX_SIG_def split: if_splits option.splits)
  then show ?thesis
  proof cases
    case err
    then show ?thesis using inv by (auto simp: errno_defs)
  next
    case zombie
    then show ?thesis using inv by (auto simp: errno_defs)
  next
    case denied
    then show ?thesis using inv by (auto simp: errno_defs)
  next
    case sent
    note p = process_find_SomeD [OF sent(3)]
    note sg = send_signal_inv [OF inv conjunct1 [OF p] sent(5,6)]
    have "procs s' q = procs s q" if "q \<noteq> p" for q using that by (simp add: sent(1) send_signal_frame(1))
    moreover have "state (procs s' p) \<noteq> PROCESS_BLOCKED" "state (procs s' p) \<noteq> PROCESS_SLEEPING"
      by (simp_all add: sent(1) sg(3))
    moreover have "\<exists>Q' S'. sched_inv s' Q' S' A" using sg(1) by (simp add: sent(1))
    ultimately show ?thesis using sent sg(2) by (auto simp: errno_defs)
  qed
qed

lemma process_kill_correct_witness:
  "\<exists>Q' S'. sched_inv (fst (process_kill 0 1 15 demo_sched)) Q' S' [] \<and>
    bit (sig_pending_mask (procs (fst (process_kill 0 1 15 demo_sched)) 1)) 15"
proof -
  have f: "process_find_locked 1 demo_sched = Some 1" by (simp add: process_find_locked_def demo_fields)
  have r: "process_kill 0 1 15 demo_sched = (fst (process_kill 0 1 15 demo_sched), Some 0)"
    using f by (simp add: process_kill_def PROCESS_MAX_SIG_def demo_fields may_signal_def)
  show ?thesis using process_kill_correct [OF demo_sched_inv r] f by (simp add: demo_fields)
qed

subsection \<open>Signals to a group\<close>

lemma kill_loop_diverges:
  "kill_loop cur g sig j acc = Some r \<Longrightarrow> j \<le> i \<Longrightarrow> 0 < i \<Longrightarrow> i < length (plist (fst acc)) \<Longrightarrow> distinct (plist (fst acc)) \<Longrightarrow>
     pid (procs (fst acc) (plist (fst acc) ! 0)) = 0 \<Longrightarrow>
     in_group g (plist (fst acc) ! i) (fst acc) \<Longrightarrow> \<not> may_signal cur (plist (fst acc) ! i) (fst acc) \<Longrightarrow> False"
proof (induction rule: kill_loop.raw_induct [rotated, consumes 1, case_names step])
  case (step loop cur g sig j acc r)
  let ?s = "fst acc"
  let ?it = "plist ?s ! j"
  show False
  proof (cases "in_group g ?it ?s \<and> \<not> may_signal cur ?it ?s")
    case True
    then have "j \<noteq> 0" using step.prems(5) by (cases "j = 0") (auto simp: in_group_def)
    then have "loop cur g sig j acc = Some r" using step(2) True by (simp add: Let_def)
    then show False using step(1) step.prems by blast
  next
    case False
    then have ne: "j \<noteq> i" using step.prems by auto
    then have ji: "j + 1 \<le> i" "j + 1 < length (plist ?s)" using step.prems(1,3) by auto
    have it: "?it \<noteq> plist ?s ! i" using ne nth_eq_iff_index_eq [OF step.prems(4), of j i] step.prems(3) ji by simp
    define acc' where "acc' = (if in_group g ?it ?s
        then (send_signal sig ?it ?s, if clamp_cpu (cpu_id (procs ?s ?it)) < 32 then fst (snd acc) OR push_bit (clamp_cpu (cpu_id (procs ?s ?it))) 1 else fst (snd acc), True)
        else acc)"
    have "loop cur g sig (j + 1) acc' = Some r" using step(2) False ji by (auto simp: Let_def acc'_def split: if_splits)
    moreover have pl: "plist (fst acc') = plist ?s" by (simp add: acc'_def send_signal_frame)
    moreover have "pid (procs (fst acc') (plist ?s ! 0)) = 0" using step.prems(5) by (simp add: acc'_def send_signal_frame)
    moreover have "in_group g (plist ?s ! i) (fst acc')" "\<not> may_signal cur (plist ?s ! i) (fst acc')"
      using step.prems(6,7) it by (auto simp: acc'_def in_group_def may_signal_def send_signal_frame split: option.splits)
    ultimately show False using step(1) [of cur g sig "j + 1" acc' r] step.prems(2-4) ji by simp
  qed
qed

text \<open>
  A signal to a process group never returns, with the scheduler lock held, when a user who is not root
  sends it to a group with a process of somebody else: the \<^verbatim>\<open>continue\<close> that should skip that
  process does not advance the loop. (The first process of the list is the idle process, of pid 0.)
\<close>

theorem process_kill_pgrp_hangs:
  assumes "distinct (plist s)" "pid (procs s (plist s ! 0)) = 0" "i < length (plist s)"
    and "in_group g (plist s ! i) s" "\<not> may_signal (current s c) (plist s ! i) s"
    and "g \<noteq> 0" "0 < sig" "sig < 32"
  shows "process_kill_pgrp c g sig s = None"
proof -
  have "0 < i" using assms(2,4) by (cases i) (auto simp: in_group_def)
  then have "kill_loop (current s c) g sig 0 (s, 0, False) = None"
    using kill_loop_diverges [of "current s c" g sig 0 "(s, 0, False)" _ i] assms(1-5)
    by (cases "kill_loop (current s c) g sig 0 (s, 0, False)") auto
  moreover have "plist s \<noteq> []" using assms(3) by auto
  ultimately show ?thesis using assms(6-8) by (simp add: process_kill_pgrp_def PROCESS_MAX_SIG_def)
qed

text \<open>The small system with process 1 (user 7) running, and process 2 (user 8) in group 5.\<close>

definition demo_group :: sched where
  "demo_group = (upd 2 (\<lambda>x. x\<lparr>pgrp_id := 5, uid := 8\<rparr>) (upd 1 (\<lambda>x. x\<lparr>uid := 7, euid := 7\<rparr>) demo_sched))
     \<lparr>current := \<lambda>_. Some 1\<rparr>"

lemma process_kill_pgrp_hangs_witness: "process_kill_pgrp 0 5 15 demo_group = None"
proof -
  have f: "plist demo_group = [0, 1, 2]" "current demo_group 0 = Some 1"
    "pid (procs demo_group p) = of_nat p" "pgrp_id (procs demo_group 2) = 5" "uid (procs demo_group 2) = 8"
    "euid (procs demo_group (Suc 0)) = 7" "uid (procs demo_group (Suc 0)) = 7" "state (procs demo_group 2) = PROCESS_BLOCKED" for p
    by (simp_all add: demo_group_def sched_frame demo_fields)
  show ?thesis
    using process_kill_pgrp_hangs [of demo_group 2 5 0 15] by (simp add: f in_group_def may_signal_def)
qed

section \<open>Exit and wait\<close>

lemma ready_enqueue_inv:
  assumes inv: "sched_inv s Q S A" and p: "p \<in> set (plist s)" "state (procs s p) \<noteq> PROCESS_READY"
    and f: "\<And>x. state (f x) = PROCESS_READY \<and> priority (f x) = priority x \<and> wake_at (f x) = wake_at x \<and> alarm_tick (f x) = alarm_tick x"
  shows "\<exists>Q'. sched_inv (enqueue_on r p (upd p f s)) Q' S A \<and> (\<forall>q. queued Q' q \<longleftrightarrow> q = p \<or> queued Q q)"
proof -
  note c = sched_invD(1) [OF inv] and rd = sched_invD(2) [OF inv]
  have nq: "\<not> queued Q p" using ready_okD [OF rd] p by simp
  have c1: "core (upd p f s) Q S A" by (rule core_upd [OF c]) (use f coreD(4) [OF c] in auto)
  define Q' where "Q' = set_queue r (priority (procs s p)) (Q r (priority (procs s p)) @ [p]) Q"
  have "core (enqueue_on r p (upd p f s)) Q' S A" unfolding Q'_def
    by (rule core_enqueue [OF c1 nq]) (use p f in \<open>auto simp: sched_frame\<close>)
  moreover have "ready_ok (enqueue_on r p (upd p f s)) Q'"
    using rd p f by (auto simp: ready_ok_def queued_enqueue sched_frame Q'_def)
  ultimately show ?thesis by (auto simp: sched_inv_def Q'_def queued_enqueue)
qed

lemma same_state_inv:
  assumes inv: "sched_inv s Q S A"
    and f: "\<And>x. state (f x) = state x \<and> priority (f x) = priority x \<and> wake_at (f x) = wake_at x \<and> alarm_tick (f x) = alarm_tick x"
  shows "sched_inv (upd p f s) Q S A"
proof -
  note c = sched_invD(1) [OF inv] and rd = sched_invD(2) [OF inv]
  have "core (upd p f s) Q S A" by (rule core_upd [OF c]) (use f coreD(4) [OF c] in auto)
  moreover have "ready_ok (upd p f s) Q" using rd f by (auto simp: ready_ok_def sched_frame)
  ultimately show ?thesis by (simp add: sched_inv_def)
qed

text \<open>What the loop over the children keeps and changes.\<close>

definition reparented :: "nat \<Rightarrow> nat \<Rightarrow> sched \<Rightarrow> sched \<Rightarrow> bool" where
  "reparented me ip s s' \<longleftrightarrow>
     plist s' = plist s \<and> current s' = current s \<and> init_pid s' = init_pid s \<and>
     (\<forall>q. pid (procs s' q) = pid (procs s q) \<and> exit_status (procs s' q) = exit_status (procs s q) \<and>
          waiting (procs s' q) = waiting (procs s q) \<and> wait_pid (procs s' q) = wait_pid (procs s q) \<and> cpu_id (procs s' q) = cpu_id (procs s q) \<and>
          (q \<noteq> ip \<longrightarrow> state (procs s' q) = state (procs s q)) \<and>
          (state (procs s' q) = state (procs s q) \<or> state (procs s q) = PROCESS_BLOCKED \<and> state (procs s' q) = PROCESS_READY)) \<and>
     parent_pid (procs s' me) = parent_pid (procs s me)"

lemma reparent_step:
  assumes inv: "sched_inv s Q S A" and ip: "ip \<in> set (plist s)" "state (procs s me) = PROCESS_ZOMBIE"
  shows "\<exists>Q'. sched_inv (reparent me ip it s) Q' S A" "reparented me ip s (reparent me ip it s)"
    "parent_pid (procs (reparent me ip it s) q) =
      (if q = it \<and> it \<noteq> me \<and> parent_pid (procs s it) = pid (procs s me) then init_pid s else parent_pid (procs s q))"
proof -
  have inv1: "sched_inv (upd it (\<lambda>x. x\<lparr>parent_pid := init_pid s\<rparr>) s) Q S A" by (rule same_state_inv [OF inv]) simp
  define f :: "process \<Rightarrow> process" where "f = (\<lambda>x. x\<lparr>wait_result_pid := sint (pid (procs s it)), wait_result_status := exit_status (procs s it), state := PROCESS_READY\<rparr>)"
  let ?s = "upd it (\<lambda>x. x\<lparr>parent_pid := init_pid s\<rparr>) s"
  let ?w = "enqueue_on (active_rq (upd ip f ?s) (cpu_id (procs (upd ip f ?s) ip))) ip (upd ip f ?s)"
  define c2 where "c2 \<longleftrightarrow> state (procs ?s it) = PROCESS_ZOMBIE \<and> state (procs ?s ip) = PROCESS_BLOCKED \<and>
      waiting (procs ?s ip) \<and> wait_pid (procs ?s ip) = -1"
  have fe: "f = (\<lambda>x. x\<lparr>wait_result_pid := sint (pid (procs ?s it)), wait_result_status := exit_status (procs ?s it), state := PROCESS_READY\<rparr>)"
    by (simp add: f_def sched_frame)
  have eq: "reparent me ip it s = (if parent_pid (procs s it) = pid (procs s me) \<and> it \<noteq> me then if c2 then ?w else ?s else s)"
    unfolding reparent_def Let_def c2_def fe by (rule refl)
  have e1: "\<not> (parent_pid (procs s it) = pid (procs s me) \<and> it \<noteq> me) \<Longrightarrow> reparent me ip it s = s"
    unfolding eq by (rule if_not_P)
  have e2: "parent_pid (procs s it) = pid (procs s me) \<and> it \<noteq> me \<Longrightarrow> \<not> c2 \<Longrightarrow> reparent me ip it s = ?s"
    unfolding eq by (simp only: if_True if_False refl not_False_eq_True simp_thms)
  have e3: "parent_pid (procs s it) = pid (procs s me) \<and> it \<noteq> me \<Longrightarrow> c2 \<Longrightarrow> reparent me ip it s = ?w"
    unfolding eq by (simp only: if_True if_False refl not_False_eq_True simp_thms)
  have c2: "c2 \<Longrightarrow> state (procs ?s ip) = PROCESS_BLOCKED" by (simp add: c2_def)
  consider (none) "\<not> (parent_pid (procs s it) = pid (procs s me) \<and> it \<noteq> me)" "reparent me ip it s = s"
    | (plain) "parent_pid (procs s it) = pid (procs s me)" "it \<noteq> me" "reparent me ip it s = ?s"
    | (wake) "parent_pid (procs s it) = pid (procs s me)" "it \<noteq> me" "state (procs ?s ip) = PROCESS_BLOCKED" "reparent me ip it s = ?w"
    using e1 e2 e3 c2 by blast
  note cases = this
  from cases show "\<exists>Q'. sched_inv (reparent me ip it s) Q' S A"
  proof cases
    case wake
    then show ?thesis
      using ready_enqueue_inv [OF inv1, of ip f] ip(1) by (auto simp: f_def sched_frame)
  qed (use inv inv1 in auto)
  from cases show "reparented me ip s (reparent me ip it s)"
    by cases (use ip(2) in \<open>auto simp: reparented_def sched_frame f_def upd_def enqueue_on_def\<close>)
  from cases show "parent_pid (procs (reparent me ip it s) q) =
      (if q = it \<and> it \<noteq> me \<and> parent_pid (procs s it) = pid (procs s me) then init_pid s else parent_pid (procs s q))"
    by cases (auto simp: sched_frame f_def)
qed

lemma reparented_trans: "reparented me ip s s1 \<Longrightarrow> reparented me ip s1 s2 \<Longrightarrow> reparented me ip s s2"
  unfolding reparented_def by (metis process_state.distinct(3))

lemma reparent_all:
  assumes inv: "sched_inv s Q S A" and ip: "ip \<in> set (plist s)" "state (procs s me) = PROCESS_ZOMBIE"
  defines "s' xs \<equiv> foldl (\<lambda>s it. reparent me ip it s) s xs"
  shows "(\<exists>Q'. sched_inv (s' xs) Q' S A) \<and> reparented me ip s (s' xs) \<and>
    (\<forall>q. parent_pid (procs (s' xs) q) =
      (if q \<in> set xs \<and> q \<noteq> me \<and> parent_pid (procs s q) = pid (procs s me) then init_pid s else parent_pid (procs s q)))"
proof (induction xs rule: rev_induct)
  case Nil
  show ?case using inv by (auto simp: s'_def reparented_def)
next
  case (snoc it xs)
  let ?t = "s' xs"
  have step: "s' (xs @ [it]) = reparent me ip it ?t" by (simp add: s'_def)
  obtain Q1 where inv1: "sched_inv ?t Q1 S A" and rp: "reparented me ip s ?t" using snoc by blast
  have t: "ip \<in> set (plist ?t)" "state (procs ?t me) = PROCESS_ZOMBIE" "pid (procs ?t me) = pid (procs s me)" "init_pid ?t = init_pid s"
    using rp ip by (auto simp: reparented_def) (metis process_state.distinct(17))
  note st = reparent_step [OF inv1 t(1,2), of it]
  have "parent_pid (procs (s' (xs @ [it])) q) =
      (if q \<in> set (xs @ [it]) \<and> q \<noteq> me \<and> parent_pid (procs s q) = pid (procs s me) then init_pid s else parent_pid (procs s q))" for q
    using snoc st(3) [of q] t unfolding step by auto
  then show ?case using st(1) reparented_trans [OF rp st(2)] unfolding step by blast
qed

lemma process_find_locked_cong:
  "plist s' = plist s \<Longrightarrow> (\<And>q. pid (procs s' q) = pid (procs s q)) \<Longrightarrow> process_find_locked n s' = process_find_locked n s"
  by (simp add: process_find_locked_def)

lemma exit_reparent_spec:
  assumes inv: "sched_inv s Q S A" and z: "state (procs s me) = PROCESS_ZOMBIE"
  shows "\<exists>Q' i. sched_inv (exit_reparent me s) Q' S A \<and> reparented me i s (exit_reparent me s) \<and>
    (\<forall>q ip. init_pid s \<noteq> 0 \<longrightarrow> process_find_locked (init_pid s) s = Some ip \<longrightarrow> q \<in> set (plist s) \<longrightarrow> q \<noteq> me \<longrightarrow>
       parent_pid (procs s q) = pid (procs s me) \<longrightarrow> parent_pid (procs (exit_reparent me s) q) = init_pid s)"
proof (cases "if init_pid s \<noteq> 0 then process_find_locked (init_pid s) s else None")
  case None
  then have "exit_reparent me s = s" by (simp add: exit_reparent_def)
  then show ?thesis using None inv by (auto simp: reparented_def)
next
  case (Some ip)
  then have e: "exit_reparent me s = foldl (\<lambda>s it. reparent me ip it s) s (plist s)" by (simp add: exit_reparent_def)
  have "ip \<in> set (plist s)" using Some process_find_SomeD [of "init_pid s" s ip] by (simp split: if_splits)
  from reparent_all [OF inv this z, of "plist s"] show ?thesis unfolding e by auto
qed

lemma exit_wake_parent_spec:
  assumes inv: "sched_inv s Q S A"
  shows "\<exists>Q'. sched_inv (exit_wake_parent c me status s) Q' S A \<and> (\<forall>q. queued Q q \<longrightarrow> queued Q' q) \<and>
    (\<forall>q. exit_status (procs (exit_wake_parent c me status s) q) = exit_status (procs s q) \<and>
         parent_pid (procs (exit_wake_parent c me status s) q) = parent_pid (procs s q) \<and>
         (state (procs s q) \<noteq> PROCESS_BLOCKED \<longrightarrow> state (procs (exit_wake_parent c me status s) q) = state (procs s q))) \<and>
    (\<forall>par. pid (procs s me) \<noteq> 0 \<longrightarrow> process_find_locked (parent_pid (procs s me)) s = Some par \<longrightarrow>
       state (procs s par) = PROCESS_BLOCKED \<longrightarrow> waiting (procs s par) \<longrightarrow>
       wait_pid (procs s par) = -1 \<or> wait_pid (procs s par) = sint (pid (procs s me)) \<longrightarrow>
       state (procs (exit_wake_parent c me status s) par) = PROCESS_READY \<and> queued Q' par)"
proof -
  define f :: "process \<Rightarrow> process" where "f = (\<lambda>x. x\<lparr>wait_result_pid := sint (pid (procs s me)), wait_result_status := status\<rparr>)"
  define wakes where "wakes p \<longleftrightarrow> pid (procs s me) \<noteq> 0 \<and> process_find_locked (parent_pid (procs s me)) s = Some p \<and>
      state (procs s p) = PROCESS_BLOCKED \<and> waiting (procs s p) \<and> (wait_pid (procs s p) = -1 \<or> wait_pid (procs s p) = sint (pid (procs s me)))" for p
  show ?thesis
  proof (cases "\<exists>p. wakes p")
    case False
    then have "exit_wake_parent c me status s = s" by (auto simp: exit_wake_parent_def wakes_def split: option.splits)
    then show ?thesis using False inv by (auto simp: wakes_def)
  next
    case True
    then obtain p where p: "wakes p" by blast
    let ?t = "clamp_cpu (cpu_id (procs (upd p f s) p))"
    have e: "exit_wake_parent c me status s = sched_ipi_resched c ?t (wake_process ?t p (upd p f s))"
      using p by (simp add: exit_wake_parent_def wakes_def Let_def f_def)
    have ps: "p \<in> set (plist s)" using p process_find_SomeD by (auto simp: wakes_def)
    have inv1: "sched_inv (upd p f s) Q S A" by (rule same_state_inv [OF inv]) (simp add: f_def)
    define Q' where "Q' = set_queue (active_rq (upd p f s) ?t) (priority (procs (upd p f s) p))
        (Q (active_rq (upd p f s) ?t) (priority (procs (upd p f s) p)) @ [p]) Q"
    have "sched_inv (exit_wake_parent c me status s) Q' S A"
      using wake_process_inv [OF inv1 _ _ refl, of p ?t] ps p by (simp add: e Q'_def sched_frame f_def wakes_def)
    moreover have "queued Q' q \<longleftrightarrow> q = p \<or> queued Q q" for q by (simp add: Q'_def queued_enqueue)
    moreover have "procs (exit_wake_parent c me status s) = (procs s)(p := (f (procs s p))\<lparr>state := PROCESS_READY\<rparr>)"
      by (simp add: e wake_process_frame sched_frame)
    ultimately show ?thesis using p by (intro exI [of _ Q']) (auto simp: f_def wakes_def)
  qed
qed

text \<open>
  C19. \<^verbatim>\<open>process_exit_notify\<close>: the exiting process becomes a zombie with its status and loses its alarm, its
  children become children of init, and a parent that is blocked waiting for it is ready and queued. The invariant of
  the scheduler is kept.
\<close>

theorem process_exit_notify_correct:
  assumes inv: "sched_inv s Q S A" and cur: "current s c = Some me" "state (procs s me) = PROCESS_RUNNING"
  shows "\<exists>Q'. sched_inv (process_exit_notify c status s) Q' S (remove1 me A) \<and>
    state (procs (process_exit_notify c status s) me) = PROCESS_ZOMBIE \<and>
    exit_status (procs (process_exit_notify c status s) me) = status \<and>
    (\<forall>q ip. init_pid s \<noteq> 0 \<longrightarrow> process_find_locked (init_pid s) s = Some ip \<longrightarrow> q \<in> set (plist s) \<longrightarrow> q \<noteq> me \<longrightarrow>
       parent_pid (procs s q) = pid (procs s me) \<longrightarrow> parent_pid (procs (process_exit_notify c status s) q) = init_pid s) \<and>
    (\<forall>par. pid (procs s me) \<noteq> 0 \<longrightarrow> process_find_locked (parent_pid (procs s me)) s = Some par \<longrightarrow>
       state (procs s par) = PROCESS_BLOCKED \<longrightarrow> waiting (procs s par) \<longrightarrow>
       wait_pid (procs s par) = -1 \<or> wait_pid (procs s par) = sint (pid (procs s me)) \<longrightarrow>
       state (procs (process_exit_notify c status s) par) = PROCESS_READY \<and> queued Q' par)"
proof -
  define s1 where "s1 = upd me (\<lambda>x. x\<lparr>exit_status := status, state := PROCESS_ZOMBIE\<rparr>) (process_mount_unref_cwd (procs s me) s)"
  define s2 where "s2 = alarm_remove me s1"
  define s3 where "s3 = exit_reparent me s2"
  have s': "process_exit_notify c status s = exit_wake_parent c me status s3"
    by (simp add: process_exit_notify_def cur(1) Let_def s1_def s2_def s3_def)
  have inv0: "sched_inv (process_mount_unref_cwd (procs s me) s) Q S A"
    using inv by (simp add: process_mount_unref_cwd_def sched_inv_def)
  have inv1: "sched_inv s1 Q S A" unfolding s1_def
    by (rule set_pstate_inv [OF inv0]) (use cur(2) in \<open>simp_all add: process_mount_unref_cwd_def sched_frame\<close>)
  have inv2: "sched_inv s2 Q S (remove1 me A)"
    using core_alarm_remove [OF sched_invD(1) [OF inv1]] sched_invD(2) [OF inv1]
    by (simp add: s2_def sched_inv_def ready_ok_def sched_frame)
  have f2: "plist s2 = plist s" "init_pid s2 = init_pid s" "state (procs s2 me) = PROCESS_ZOMBIE" "exit_status (procs s2 me) = status"
    "pid (procs s2 q) = pid (procs s q)" "parent_pid (procs s2 q) = parent_pid (procs s q)" "waiting (procs s2 q) = waiting (procs s q)"
    "wait_pid (procs s2 q) = wait_pid (procs s q)" "q \<noteq> me \<Longrightarrow> state (procs s2 q) = state (procs s q)" for q
    by (simp_all add: s2_def s1_def process_mount_unref_cwd_def sched_frame upd_def emit_def alarm_remove_def)
  have find2: "process_find_locked n s2 = process_find_locked n s" for n by (rule process_find_locked_cong) (simp_all add: f2)
  obtain Q3 i where inv3: "sched_inv s3 Q3 S (remove1 me A)" and rp: "reparented me i s2 s3"
    and ch: "\<And>q ip. init_pid s \<noteq> 0 \<Longrightarrow> process_find_locked (init_pid s) s = Some ip \<Longrightarrow> q \<in> set (plist s) \<Longrightarrow> q \<noteq> me \<Longrightarrow>
       parent_pid (procs s q) = pid (procs s me) \<Longrightarrow> parent_pid (procs s3 q) = init_pid s"
    using exit_reparent_spec [OF inv2 f2(3)] unfolding f2 find2 s3_def by blast
  have f3: "plist s3 = plist s" "exit_status (procs s3 me) = status" "pid (procs s3 q) = pid (procs s q)"
    "waiting (procs s3 q) = waiting (procs s q)" "wait_pid (procs s3 q) = wait_pid (procs s q)"
    "parent_pid (procs s3 me) = parent_pid (procs s me)" for q
    using rp f2 unfolding reparented_def by simp_all
  have st3: "state (procs s3 q) = state (procs s2 q) \<or> state (procs s2 q) = PROCESS_BLOCKED \<and> state (procs s3 q) = PROCESS_READY" for q
    using rp unfolding reparented_def by blast
  have find3: "process_find_locked n s3 = process_find_locked n s" for n by (rule process_find_locked_cong) (simp_all add: f3)
  obtain Q' where W: "sched_inv (process_exit_notify c status s) Q' S (remove1 me A)" "\<And>q. queued Q3 q \<Longrightarrow> queued Q' q"
    "\<And>q. exit_status (procs (process_exit_notify c status s) q) = exit_status (procs s3 q)"
    "\<And>q. parent_pid (procs (process_exit_notify c status s) q) = parent_pid (procs s3 q)"
    "\<And>q. state (procs s3 q) \<noteq> PROCESS_BLOCKED \<Longrightarrow> state (procs (process_exit_notify c status s) q) = state (procs s3 q)"
    "\<And>par. pid (procs s me) \<noteq> 0 \<Longrightarrow> process_find_locked (parent_pid (procs s me)) s = Some par \<Longrightarrow>
       state (procs s3 par) = PROCESS_BLOCKED \<Longrightarrow> waiting (procs s par) \<Longrightarrow>
       wait_pid (procs s par) = -1 \<or> wait_pid (procs s par) = sint (pid (procs s me)) \<Longrightarrow>
       state (procs (process_exit_notify c status s) par) = PROCESS_READY \<and> queued Q' par"
    using exit_wake_parent_spec [OF inv3, of c me status] unfolding f3 find3 s' by blast
  have par: "state (procs (process_exit_notify c status s) par) = PROCESS_READY \<and> queued Q' par"
    if "pid (procs s me) \<noteq> 0" "process_find_locked (parent_pid (procs s me)) s = Some par" "state (procs s par) = PROCESS_BLOCKED"
      "waiting (procs s par)" "wait_pid (procs s par) = -1 \<or> wait_pid (procs s par) = sint (pid (procs s me))" for par
  proof (cases "state (procs s3 par) = PROCESS_BLOCKED")
    case True
    then show ?thesis using W(6) that by blast
  next
    case False
    then have "state (procs s3 par) = PROCESS_READY" using st3 [of par] f2(9) [of par] that(3) cur(2) by (cases "par = me") auto
    moreover have "par \<in> set (plist s3)" using process_find_SomeD [OF that(2)] f3(1) by simp
    ultimately show ?thesis using W(2,5) ready_okD [OF sched_invD(2) [OF inv3]] by auto
  qed
  have "state (procs s3 me) = PROCESS_ZOMBIE" using st3 [of me] f2(3) by auto
  then have "state (procs (process_exit_notify c status s) me) = PROCESS_ZOMBIE" using W(5) by simp
  moreover have "exit_status (procs (process_exit_notify c status s) me) = status" using W(3) f3(2) by simp
  ultimately show ?thesis using W(1,4) ch par by (intro exI [of _ Q']) auto
qed

text \<open>The small system with process 1 running; its parent, process 2, waits for any child.\<close>

definition demo_exit :: sched where
  "demo_exit = (upd 2 (\<lambda>x. x\<lparr>waiting := True, wait_pid := -1\<rparr>)
     (upd 1 (\<lambda>x. x\<lparr>state := PROCESS_RUNNING, parent_pid := 2\<rparr>) demo_sched))\<lparr>current := \<lambda>_. Some 1\<rparr>"

lemma demo_exit_inv: "sched_inv demo_exit (\<lambda>_ _. []) [] []"
proof -
  have i1: "sched_inv (upd 1 (\<lambda>x. x\<lparr>state := PROCESS_RUNNING, parent_pid := 2\<rparr>) demo_sched) (\<lambda>_ _. []) [] []"
    by (rule set_pstate_inv [OF demo_sched_inv]) (simp_all add: demo_fields)
  have i2: "sched_inv (upd 2 (\<lambda>x. x\<lparr>waiting := True, wait_pid := -1\<rparr>)
     (upd 1 (\<lambda>x. x\<lparr>state := PROCESS_RUNNING, parent_pid := 2\<rparr>) demo_sched)) (\<lambda>_ _. []) [] []"
    by (rule same_state_inv [OF i1]) simp
  then show ?thesis unfolding demo_exit_def sched_inv_def ready_ok_def core_def by simp
qed

lemma process_exit_notify_correct_witness:
  "state (procs (process_exit_notify 0 3 demo_exit) 2) = PROCESS_READY \<and> exit_status (procs (process_exit_notify 0 3 demo_exit) 1) = 3"
proof -
  have f: "current demo_exit 0 = Some 1" "state (procs demo_exit 1) = PROCESS_RUNNING" "pid (procs demo_exit 1) = 1"
    "parent_pid (procs demo_exit 1) = 2" "state (procs demo_exit 2) = PROCESS_BLOCKED" "waiting (procs demo_exit 2)"
    "wait_pid (procs demo_exit 2) = -1" "process_find_locked 2 demo_exit = Some 2"
    by (simp_all add: demo_exit_def sched_frame demo_fields process_find_locked_def)
  show ?thesis using process_exit_notify_correct [OF demo_exit_inv f(1,2), of 3] f by fastforce
qed

subsection \<open>Reaping\<close>

lemma rq_remove_not_queued:
  assumes c: "core s Q S A" and p: "\<not> queued Q p"
  shows "rq_remove_if_queued p s = s"
proof -
  have "\<not> on_list (Suc (length (plist s))) (rqs s) (qhead (rqs s) r k) p" if "k < 32" for r k
  proof -
    have rep: "queue_rep (rqs s) r k (Q r k)" using rq_okD(1) [OF coreD(1) [OF c] that] .
    have "set (Q r k) \<subseteq> set (plist s)" using coreD(3) [OF c] by blast
    then have "length (Q r k) < Suc (length (plist s))"
      using queue_distinct [OF rep] card_mono [of "set (plist s)" "set (Q r k)"] card_length [of "plist s"]
      by (simp add: distinct_card)
    then show ?thesis using on_list_seg [OF rep] p by (auto simp: queued_def)
  qed
  then have "find (\<lambda>(r, k). bit (rq_map (rqs s) r) k \<and> on_list (Suc (length (plist s))) (rqs s) (qhead (rqs s) r k) p)
      (map (Pair r) [0..<SCHED_NUM_PRIOS] @ map (Pair r') [0..<SCHED_NUM_PRIOS]) = None" for r r'
    unfolding find_None_iff by (auto simp: SCHED_NUM_PRIOS_def simp del: on_list.simps)
  then show ?thesis by (simp add: rq_remove_if_queued_def Let_def del: on_list.simps)
qed

lemma kstack_free_frame:
  "procs (kstack_free a s) = procs s" "plist (kstack_free a s) = plist s" "rqs (kstack_free a s) = rqs s"
  "active_store (kstack_free a s) = active_store s" "sleepq (kstack_free a s) = sleepq s" "alarmq (kstack_free a s) = alarmq s"
  by (simp_all add: kstack_free_def Let_def emit_def)

lemma release_as_frame:
  "\<exists>f. procs (release_as p s) = (procs s)(p := f (procs s p)) \<and> (\<forall>x. state (f x) = state x \<and> priority (f x) = priority x \<and>
     wake_at (f x) = wake_at x \<and> alarm_tick (f x) = alarm_tick x)"
  "plist (release_as p s) = plist s" "rqs (release_as p s) = rqs s"
  "active_store (release_as p s) = active_store s" "sleepq (release_as p s) = sleepq s" "alarmq (release_as p s) = alarmq s"
proof -
  show "\<exists>f. procs (release_as p s) = (procs s)(p := f (procs s p)) \<and> (\<forall>x. state (f x) = state x \<and> priority (f x) = priority x \<and>
     wake_at (f x) = wake_at x \<and> alarm_tick (f x) = alarm_tick x)"
    by (rule exI [of _ "if addr_space (procs s p) = 0 \<or> addr_space (procs s p) = kernel_as s then id else (\<lambda>x. x\<lparr>addr_space := 0\<rparr>)"])
      (auto simp: release_as_def Let_def sched_frame split: prod.splits)
qed (auto simp: release_as_def Let_def sched_frame split: prod.splits)

lemma process_reap_inv:
  assumes inv: "sched_inv s Q S A" and p: "p \<in> set (plist s)" "state (procs s p) = PROCESS_ZOMBIE" "pid (procs s p) \<noteq> 0" "plist s \<noteq> [p]"
  shows "sched_inv (process_reap_locked p s) Q (remove1 p S) (remove1 p A)"
    "plist (process_reap_locked p s) = remove1 p (plist s)"
    "q \<noteq> p \<Longrightarrow> procs (process_reap_locked p s) q = procs s q"
proof -
  note c = sched_invD(1) [OF inv] and rd = sched_invD(2) [OF inv]
  have nq: "\<not> queued Q p" using ready_okD [OF rd] p by simp
  define s1 where "s1 = alarm_remove p (sleep_remove p s)"
  have c1: "core s1 Q (remove1 p S) (remove1 p A)"
    unfolding s1_def by (rule core_alarm_remove [OF core_sleep_remove [OF c]])
  define s2 where "s2 = s1\<lparr>plist := remove1 p (plist s1)\<rparr>"
  have pl: "plist s1 = plist s" "procs s1 = procs s" by (simp_all add: s1_def sched_frame)
  have rm: "set (remove1 p (plist s)) = set (plist s) - {p}" using coreD(6) [OF c] by simp
  have sub: "p \<notin> set (remove1 p S)" "p \<notin> set (remove1 p A)" "p \<notin> set (Q r k)" for r k
    using not_in_remove1 coreD(7,10) [OF c] nq by (auto simp: queued_def)
  have c2: "core s2 Q (remove1 p S) (remove1 p A)"
    using c1 sub rm unfolding core_def s2_def by (auto simp: pl)
  define s3 where "s3 = (if kernel_stack (procs s2 p) \<noteq> 0 then upd p (\<lambda>x. x\<lparr>kernel_stack := 0\<rparr>) (kstack_free (kernel_stack (procs s2 p)) s2) else s2)"
  have "core (kstack_free a s2) Q (remove1 p S) (remove1 p A)" for a
    using c2 core_cong [of "kstack_free a s2" s2] by (simp add: kstack_free_frame)
  then have c3: "core s3 Q (remove1 p S) (remove1 p A)"
    using c2 coreD(4) [OF c2] unfolding s3_def by (auto intro!: core_upd simp: kstack_free_frame)
  obtain f where f: "procs (release_as p s3) = (procs s3)(p := f (procs s3 p))"
    "\<And>x. state (f x) = state x" "\<And>x. priority (f x) = priority x" "\<And>x. wake_at (f x) = wake_at x" "\<And>x. alarm_tick (f x) = alarm_tick x"
    using release_as_frame(1) by metis
  have "core (release_as p s3) Q (remove1 p S) (remove1 p A) = core (upd p f s3) Q (remove1 p S) (remove1 p A)"
    by (rule core_cong) (simp_all add: f release_as_frame sched_frame)
  moreover have "core (upd p f s3) Q (remove1 p S) (remove1 p A)"
    by (rule core_upd [OF c3]) (use f coreD(4) [OF c3] in auto)
  ultimately have c4: "core (release_as p s3) Q (remove1 p S) (remove1 p A)" by simp
  have r: "process_reap_locked p s = emit (Free_process p) (release_as p s3)"
    using p rq_remove_not_queued [OF c nq] by (simp add: process_reap_locked_def Let_def s1_def s2_def s3_def sched_frame)
  have pl': "plist (process_reap_locked p s) = remove1 p (plist s)"
    by (simp add: r sched_frame release_as_frame s3_def s2_def pl kstack_free_frame)
  then show "plist (process_reap_locked p s) = remove1 p (plist s)" .
  have p3: "q \<noteq> p \<Longrightarrow> procs s3 q = procs s q" "state (procs s3 q) = state (procs s q)" for q
    by (simp_all add: sched_frame s3_def s2_def pl kstack_free_frame)
  show pr: "q \<noteq> p \<Longrightarrow> procs (process_reap_locked p s) q = procs s q" for q
    by (simp add: r emit_frame f(1) p3)
  have st: "state (procs (process_reap_locked p s) q) = state (procs s q)" for q
    by (simp add: r emit_frame f(1,2) p3(2))
  have "ready_ok (process_reap_locked p s) Q"
    using rd p(2) unfolding ready_ok_def pl' st rm by auto
  then show "sched_inv (process_reap_locked p s) Q (remove1 p S) (remove1 p A)"
    using c4 by (simp add: sched_inv_def r)
qed


text \<open>The small system with process 1 running and its child, process 2, a zombie.\<close>

definition demo_wait :: sched where
  "demo_wait = (upd 2 (\<lambda>x. x\<lparr>state := PROCESS_ZOMBIE, parent_pid := 1, exit_status := 9\<rparr>)
     (upd 1 (\<lambda>x. x\<lparr>state := PROCESS_RUNNING, parent_pid := 7\<rparr>) demo_sched))\<lparr>current := \<lambda>_. Some 1\<rparr>"

lemma demo_wait_inv: "sched_inv demo_wait (\<lambda>_ _. []) [] []"
proof -
  have i1: "sched_inv (upd 1 (\<lambda>x. x\<lparr>state := PROCESS_RUNNING, parent_pid := 7\<rparr>) demo_sched) (\<lambda>_ _. []) [] []"
    by (rule set_pstate_inv [OF demo_sched_inv]) (simp_all add: demo_fields)
  have i2: "sched_inv (upd 2 (\<lambda>x. x\<lparr>state := PROCESS_ZOMBIE, parent_pid := 1, exit_status := 9\<rparr>)
     (upd 1 (\<lambda>x. x\<lparr>state := PROCESS_RUNNING, parent_pid := 7\<rparr>) demo_sched)) (\<lambda>_ _. []) [] []"
    by (rule set_pstate_inv [OF i1]) (simp_all add: sched_frame demo_fields)
  then show ?thesis unfolding demo_wait_def sched_inv_def ready_ok_def core_def by simp
qed


section \<open>Fork\<close>

lemma share_files_refs:
  "file_refs (share_files x s) f = file_refs s f + of_nat (count_list (files x) (Some f))"
  "procs (share_files x s) = procs s" "plist (share_files x s) = plist s" "rqs (share_files x s) = rqs s"
  "active_store (share_files x s) = active_store s" "sleepq (share_files x s) = sleepq s" "alarmq (share_files x s) = alarmq s"
  "current (share_files x s) = current s" "kstk (share_files x s) = kstk s"
proof -
  let ?g = "\<lambda>s x. case x of None \<Rightarrow> s | Some f \<Rightarrow> s\<lparr>file_refs := (file_refs s)(f := file_refs s f + 1)\<rparr>"
  have "file_refs (foldl ?g s fs) f = file_refs s f + of_nat (count_list fs (Some f)) \<and> procs (foldl ?g s fs) = procs s \<and>
    plist (foldl ?g s fs) = plist s \<and> rqs (foldl ?g s fs) = rqs s \<and> active_store (foldl ?g s fs) = active_store s \<and>
    sleepq (foldl ?g s fs) = sleepq s \<and> alarmq (foldl ?g s fs) = alarmq s \<and> current (foldl ?g s fs) = current s \<and> kstk (foldl ?g s fs) = kstk s" for fs
    by (induction fs rule: rev_induct) (auto split: option.splits)
  then show "file_refs (share_files x s) f = file_refs s f + of_nat (count_list (files x) (Some f))"
    "procs (share_files x s) = procs s" "plist (share_files x s) = plist s" "rqs (share_files x s) = rqs s"
    "active_store (share_files x s) = active_store s" "sleepq (share_files x s) = sleepq s" "alarmq (share_files x s) = alarmq s"
    "current (share_files x s) = current s" "kstk (share_files x s) = kstk s"
    by (simp_all add: share_files_def)
qed

lemma release_files_refs:
  "file_refs (process_release_file_refs x s) f = file_refs s f - of_nat (count_list (files x) (Some f))"
  "procs (process_release_file_refs x s) = procs s" "plist (process_release_file_refs x s) = plist s"
  "rqs (process_release_file_refs x s) = rqs s" "active_store (process_release_file_refs x s) = active_store s"
  "sleepq (process_release_file_refs x s) = sleepq s" "alarmq (process_release_file_refs x s) = alarmq s"
proof -
  let ?g = "\<lambda>s x. case x of None \<Rightarrow> s | Some f \<Rightarrow> s\<lparr>file_refs := (file_refs s)(f := file_refs s f - 1)\<rparr>"
  have "file_refs (foldl ?g s fs) f = file_refs s f - of_nat (count_list fs (Some f)) \<and> procs (foldl ?g s fs) = procs s \<and>
    plist (foldl ?g s fs) = plist s \<and> rqs (foldl ?g s fs) = rqs s \<and> active_store (foldl ?g s fs) = active_store s \<and>
    sleepq (foldl ?g s fs) = sleepq s \<and> alarmq (foldl ?g s fs) = alarmq s" for fs
    by (induction fs rule: rev_induct) (auto split: option.splits)
  then show "file_refs (process_release_file_refs x s) f = file_refs s f - of_nat (count_list (files x) (Some f))"
    "procs (process_release_file_refs x s) = procs s" "plist (process_release_file_refs x s) = plist s"
    "rqs (process_release_file_refs x s) = rqs s" "active_store (process_release_file_refs x s) = active_store s"
    "sleepq (process_release_file_refs x s) = sleepq s" "alarmq (process_release_file_refs x s) = alarmq s"
    by (simp_all add: process_release_file_refs_def)
qed

lemma kstack_alloc_frame:
  "procs (fst (kstack_alloc pg s)) = procs s" "plist (fst (kstack_alloc pg s)) = plist s" "rqs (fst (kstack_alloc pg s)) = rqs s"
  "active_store (fst (kstack_alloc pg s)) = active_store s" "sleepq (fst (kstack_alloc pg s)) = sleepq s"
  "alarmq (fst (kstack_alloc pg s)) = alarmq s" "file_refs (fst (kstack_alloc pg s)) = file_refs s"
  "current (fst (kstack_alloc pg s)) = current s"
  by (auto simp: kstack_alloc_def Let_def emit_def split: option.splits)

lemma admit_inv:
  assumes inv: "sched_inv s Q S A" and p: "p \<notin> set (plist s)" and x: "state x = PROCESS_READY" "priority x < 32"
  shows "\<exists>Q'. sched_inv (admit c t p x s) Q' S A \<and> queued Q' p" "plist (admit c t p x s) = plist s @ [p]"
    "procs (admit c t p x s) = (procs s)(p := x)" "file_refs (admit c t p x s) = file_refs s"
proof -
  note cr = sched_invD(1) [OF inv] and rd = sched_invD(2) [OF inv]
  let ?s = "s\<lparr>procs := (procs s)(p := x), plist := plist s @ [p]\<rparr>"
  have fresh: "p \<notin> set S" "p \<notin> set A" "p \<notin> set (Q r k)" for r k
    using p coreD(3,9,12) [OF cr] by auto
  have w: "map (\<lambda>q. wake_at (if q = p then x else procs s q)) S = map (\<lambda>q. wake_at (procs s q)) S"
    and a: "map (\<lambda>q. alarm_tick (if q = p then x else procs s q)) A = map (\<lambda>q. alarm_tick (procs s q)) A"
    using fresh by (auto intro!: map_cong)
  have c1: "core ?s Q S A"
    using cr x p fresh(3) unfolding core_def by (auto simp: w a)
  have nq: "\<not> queued Q p" using fresh by (auto simp: queued_def)
  let ?r = "active_rq ?s t"
  define Q' where "Q' = set_queue ?r (priority x) (Q ?r (priority x) @ [p]) Q"
  have "core (enqueue_on ?r p ?s) Q' S A" unfolding Q'_def
    by (rule core_enqueue [OF c1 nq]) simp_all
  moreover have "ready_ok (enqueue_on ?r p ?s) Q'"
    using rd x p by (auto simp: ready_ok_def Q'_def queued_enqueue sched_frame)
  ultimately have "sched_inv (sched_pcpu_inc_load t (enqueue_on ?r p ?s)) Q' S A" by (simp add: sched_inv_def)
  moreover have "queued Q' p" by (simp add: Q'_def queued_enqueue)
  ultimately show "\<exists>Q'. sched_inv (admit c t p x s) Q' S A \<and> queued Q' p"
    by (intro exI [of _ Q']) (simp add: admit_def Let_def)
  show "plist (admit c t p x s) = plist s @ [p]" "procs (admit c t p x s) = (procs s)(p := x)" "file_refs (admit c t p x s) = file_refs s"
    by (simp_all add: admit_def Let_def sched_frame sched_ipi_resched_def emit_def sched_pcpu_inc_load_def enqueue_on_def)
qed



end
