(* ===== verification/Uaccess.thy ===== *)
theory Uaccess
  imports Kernel_Prelude
begin

unbundle bit_operations_syntax

text \<open>
  Copying between the kernel and a user process: \<^verbatim>\<open>src/arch/x86/uaccess.c\<close>, which checks the page tables,
  and the defaults of \<^verbatim>\<open>src/kernel/uaccess.c\<close> for other machines. \<open>umem\<close> is the memory a process sees:
  its bytes, and the page directory and page table entries as the kernel reads them through the
  recursive mapping, as the two arrays at \<^verbatim>\<open>0xFFFFC000\<close> and \<^verbatim>\<open>0xFF800000\<close>. The page tables do not change between the check and the copy; a fault in between
  is \<open>uaccess_try_recover\<close>. The locale \<open>user_copy\<close> is what the system calls rely on.
\<close>

section \<open>The code\<close>

record umem =
  ubytes :: "u32 \<Rightarrow> u8"
  upde :: "nat \<Rightarrow> u64"
  upte :: "nat \<Rightarrow> u64"

definition KERNEL_VIRT_BASE :: u32 where "KERNEL_VIRT_BASE = 0xC0000000"

definition x86_user_range_basic_ok :: "u32 \<Rightarrow> u32 \<Rightarrow> bool" where
  "x86_user_range_basic_ok uaddr len =
     (if len = 0 then True
      else if uaddr = 0 then False
      else if KERNEL_VIRT_BASE \<le> uaddr then False
      else let e = uaddr + len - 1 in
           if e < uaddr then False
           else if KERNEL_VIRT_BASE \<le> e then False
           else True)"

definition page_entries :: "umem \<Rightarrow> u32 \<Rightarrow> u64 \<times> u64" where
  "page_entries m vaddr =
     (let pi = unat (drop_bit 30 vaddr AND 0x3);
          di = unat (drop_bit 21 vaddr AND 0x1FF);
          ti = unat (drop_bit 12 vaddr AND 0x1FF)
      in (upde m (pi * 512 + di), upte m ((pi * 512 + di) * 512 + ti)))"

definition x86_user_page_present_and_user :: "umem \<Rightarrow> u32 \<Rightarrow> bool" where
  "x86_user_page_present_and_user m vaddr =
     (let (pde, pte) = page_entries m vaddr in
      if pde AND 0x1 = 0 then False
      else if pde AND 0x4 = 0 then False
      else if pte AND 0x1 = 0 then False
      else if pte AND 0x4 = 0 then False
      else True)"

definition x86_user_page_writable_user :: "umem \<Rightarrow> u32 \<Rightarrow> bool" where
  "x86_user_page_writable_user m vaddr =
     (let (pde, pte) = page_entries m vaddr in
      if pde AND 0x1 = 0 then False
      else if pde AND 0x4 = 0 then False
      else if pte AND 0x1 = 0 then False
      else if pte AND 0x4 = 0 then False
      else if pte AND 0x2 \<noteq> 0 then True
      else if pte AND 0x200 \<noteq> 0 then True
      else False)"

text \<open>The loop over the pages from the first to the last one, both included.\<close>

definition all_pages :: "(u32 \<Rightarrow> bool) \<Rightarrow> u32 \<Rightarrow> u32 \<Rightarrow> bool" where
  "all_pages ok uaddr len =
     (let start = uaddr AND NOT (mask 12);
          e = (uaddr + len - 1) AND NOT (mask 12)
      in list_all (\<lambda>i. ok (start + of_nat i * 0x1000)) [0..<Suc (unat (e - start) div 0x1000)])"

definition x86_user_range_mapped_and_user :: "umem \<Rightarrow> u32 \<Rightarrow> u32 \<Rightarrow> bool" where
  "x86_user_range_mapped_and_user m uaddr len =
     (if \<not> x86_user_range_basic_ok uaddr len then False
      else if len = 0 then True
      else all_pages (x86_user_page_present_and_user m) uaddr len)"

definition x86_user_range_writable_user :: "umem \<Rightarrow> u32 \<Rightarrow> u32 \<Rightarrow> bool" where
  "x86_user_range_writable_user m uaddr len =
     (if \<not> x86_user_range_basic_ok uaddr len then False
      else if len = 0 then True
      else all_pages (x86_user_page_writable_user m) uaddr len)"

definition user_range_ok :: "umem \<Rightarrow> u32 \<Rightarrow> u32 \<Rightarrow> bool" where
  "user_range_ok m user_ptr len = x86_user_range_mapped_and_user m user_ptr len"

text \<open>The result \<^term>\<open>None\<close> is \<^verbatim>\<open>-EFAULT\<close>.\<close>

definition read_bytes :: "umem \<Rightarrow> u32 \<Rightarrow> nat \<Rightarrow> u8 list" where
  "read_bytes m a n = map (\<lambda>i. ubytes m (a + of_nat i)) [0..<n]"

definition store_bytes :: "u32 \<Rightarrow> u8 list \<Rightarrow> umem \<Rightarrow> umem" where
  "store_bytes a bs m = foldl (\<lambda>m i. m\<lparr>ubytes := (ubytes m)(a + of_nat i := bs ! i)\<rparr>) m [0..<length bs]"

definition copy_from_user :: "umem \<Rightarrow> u32 \<Rightarrow> u32 \<Rightarrow> u8 list option" where
  "copy_from_user m src len =
     (if len = 0 then Some []
      else if \<not> user_range_ok m src len then None
      else Some (read_bytes m src (unat len)))"

definition copy_to_user :: "u32 \<Rightarrow> u8 list \<Rightarrow> umem \<Rightarrow> umem option" where
  "copy_to_user dst bs m =
     (if bs = [] then Some m
      else if \<not> x86_user_range_writable_user m dst (of_nat (length bs)) then None
      else Some (store_bytes dst bs m))"

text \<open>The page fault handler asks whether the fault belongs to a copy: then the copy returns \<^verbatim>\<open>-EFAULT\<close>.\<close>

record uaccess_state =
  uaccess_active :: bool
  uaccess_recover :: u32
  uaccess_faulted :: bool

definition uaccess_try_recover :: "u32 \<Rightarrow> uaccess_state \<Rightarrow> uaccess_state \<times> u32 option" where
  "uaccess_try_recover fault_addr pc =
     (if \<not> uaccess_active pc then (pc, None)
      else if uaccess_recover pc = 0 then (pc, None)
      else if KERNEL_VIRT_BASE \<le> fault_addr then (pc, None)
      else (pc\<lparr>uaccess_faulted := True\<rparr>, Some (uaccess_recover pc)))"

text \<open>The defaults.\<close>

definition USER_ADDR_LIMIT :: u32 where "USER_ADDR_LIMIT = 0xC0000000"

definition weak_user_range_ok :: "u32 \<Rightarrow> u32 \<Rightarrow> bool" where
  "weak_user_range_ok uaddr len =
     (if len = 0 then True
      else if uaddr = 0 then False
      else let e = uaddr + len - 1 in
           if e < uaddr then False
           else if USER_ADDR_LIMIT \<le> uaddr then False
           else if USER_ADDR_LIMIT \<le> e then False
           else True)"

definition weak_copy_from_user :: "umem \<Rightarrow> u32 \<Rightarrow> u32 \<Rightarrow> u8 list option" where
  "weak_copy_from_user m src len =
     (if len = 0 then Some []
      else if \<not> weak_user_range_ok src len then None
      else Some (read_bytes m src (unat len)))"

definition weak_copy_to_user :: "u32 \<Rightarrow> u8 list \<Rightarrow> umem \<Rightarrow> umem option" where
  "weak_copy_to_user dst bs m =
     (if bs = [] then Some m
      else if \<not> weak_user_range_ok dst (of_nat (length bs)) then None
      else Some (store_bytes dst bs m))"

section \<open>The interface\<close>

text \<open>
  What the system calls rely on: a copy touches user addresses only, it moves exactly the bytes asked
  for, and what was copied out can be read back.
\<close>

definition user_range :: "u32 \<Rightarrow> nat \<Rightarrow> bool" where
  "user_range a n \<longleftrightarrow> 0 < unat a \<and> unat a + n \<le> unat KERNEL_VIRT_BASE"

locale user_copy =
  fixes from_user :: "umem \<Rightarrow> u32 \<Rightarrow> u32 \<Rightarrow> u8 list option"
    and to_user :: "u32 \<Rightarrow> u8 list \<Rightarrow> umem \<Rightarrow> umem option"
  assumes from_bytes: "from_user m a len = Some bs \<Longrightarrow> len \<noteq> 0 \<Longrightarrow> user_range a (unat len) \<and> bs = read_bytes m a (unat len)"
    and from_empty: "from_user m a 0 = Some []"
    and to_bytes: "to_user a xs m = Some m' \<Longrightarrow> xs \<noteq> [] \<Longrightarrow> length xs < 2 ^ 32 \<Longrightarrow>
      user_range a (length xs) \<and> m' = store_bytes a xs m"
    and to_empty: "to_user a [] m = Some m"
    and to_then_from: "to_user a xs m = Some m' \<Longrightarrow> xs \<noteq> [] \<Longrightarrow> length xs < 2 ^ 32 \<Longrightarrow> from_user m' a (of_nat (length xs)) \<noteq> None"
begin

lemma copied_length: "from_user m a len = Some bs \<Longrightarrow> length bs = unat len"
  using from_bytes [of m a len bs] from_empty [of m a] by (cases "len = 0") (auto simp: read_bytes_def)

end

section \<open>The checks\<close>

text \<open>The last byte of a range, with its wrap-around.\<close>

lemma range_end:
  fixes a len :: u32
  assumes "len \<noteq> 0"
  shows "unat a + unat len \<le> 2 ^ 32 \<Longrightarrow> unat (a + len - 1) = unat a + unat len - 1 \<and> a \<le> a + len - 1"
    and "2 ^ 32 < unat a + unat len \<Longrightarrow> a + len - 1 < a"
proof -
  have l: "0 < unat len" using assms by (simp add: unat_gt_0)
  have e: "a + len - 1 = of_nat (unat a + (unat len - 1))" using l by (simp add: of_nat_diff)
  have b: "unat a < 2 ^ 32" "unat len < 2 ^ 32" using unsigned_less [of a] unsigned_less [of len] by simp_all
  show "unat (a + len - 1) = unat a + unat len - 1 \<and> a \<le> a + len - 1" if "unat a + unat len \<le> 2 ^ 32"
    using that l unat_of_nat_small [where 'a = 32, of "unat a + (unat len - 1)"] unfolding e word_le_nat_alt by simp
  show "a + len - 1 < a" if "2 ^ 32 < unat a + unat len"
  proof -
    define k where "k = unat a + unat len - 1 - 2 ^ 32"
    have k: "unat a + (unat len - 1) = k + 2 ^ 32" "k < unat a" using that b l by (simp_all add: k_def)
    have "(of_nat (2 ^ 32) :: u32) = 0" by simp
    then have "a + len - 1 = of_nat k" unfolding e k(1) of_nat_add by (simp only: add_0_right)
    then have "unat (a + len - 1) = k" using k(2) b(1) unat_of_nat_small [where 'a = 32, of k] by simp
    then show ?thesis using k(2) unfolding word_less_nat_alt by simp
  qed
qed

lemma basic_ok_iff:
  assumes "len \<noteq> 0"
  shows "x86_user_range_basic_ok a len = user_range a (unat len)"
proof (cases "unat a + unat len \<le> 2 ^ 32")
  case True
  have l: "0 < unat len" using assms by (simp add: unat_gt_0)
  note e = range_end(1) [OF assms True]
  have ok: "x86_user_range_basic_ok a len \<longleftrightarrow> a \<noteq> 0 \<and> \<not> KERNEL_VIRT_BASE \<le> a \<and> \<not> a + len - 1 < a \<and> \<not> KERNEL_VIRT_BASE \<le> a + len - 1"
    using assms by (auto simp: x86_user_range_basic_ok_def Let_def)
  define K where "K = unat KERNEL_VIRT_BASE"
  have "\<not> a + len - 1 < a" "(KERNEL_VIRT_BASE \<le> a + len - 1) = (K \<le> unat a + unat len - 1)" "(KERNEL_VIRT_BASE \<le> a) = (K \<le> unat a)"
    using e by (auto simp: word_le_nat_alt not_less K_def)
  moreover have "(a \<noteq> 0) = (0 < unat a)" by (simp add: unat_gt_0)
  ultimately show ?thesis using l unfolding ok user_range_def K_def [symmetric] by linarith
next
  case False
  then have "a + len - 1 < a" using range_end(2) [OF assms, of a] by simp
  then show ?thesis using assms False by (auto simp: x86_user_range_basic_ok_def user_range_def KERNEL_VIRT_BASE_def)
qed

lemma weak_ok_iff:
  assumes "len \<noteq> 0"
  shows "weak_user_range_ok a len = user_range a (unat len)"
proof -
  have "weak_user_range_ok a len = x86_user_range_basic_ok a len"
    unfolding weak_user_range_ok_def x86_user_range_basic_ok_def Let_def USER_ADDR_LIMIT_def KERNEL_VIRT_BASE_def by auto
  then show ?thesis using basic_ok_iff [OF assms] by simp
qed

text \<open>The loop over the pages looks at the page of every byte of the range.\<close>

lemma all_pages_iff:
  assumes l: "len \<noteq> 0" and r: "user_range a (unat len)"
  shows "all_pages ok a len \<Longrightarrow> unat a \<le> unat b \<Longrightarrow> unat b < unat a + unat len \<Longrightarrow> ok (b AND NOT (mask 12))"
proof -
  let ?A = "unat a div 4096" and ?B = "unat b div 4096" and ?e = "a + len - 1"
  assume all: "all_pages ok a len" and b: "unat a \<le> unat b" "unat b < unat a + unat len"
  have le: "unat a + unat len \<le> 2 ^ 32" using r by (simp add: user_range_def KERNEL_VIRT_BASE_def)
  have e: "unat ?e = unat a + unat len - 1" using range_end(1) [OF l le] by simp
  have AB: "?A \<le> ?B" using b(1) by (rule div_le_mono)
  have BE: "?B \<le> unat ?e div 4096" using b(2) e by (intro div_le_mono) simp
  have s: "unat (a AND NOT (mask 12)) = ?A * 4096" "unat (?e AND NOT (mask 12)) = unat ?e div 4096 * 4096"
    "unat (b AND NOT (mask 12)) = ?B * 4096" using unat_and_not_mask [of _ 12] by simp_all
  have "unat ((?e AND NOT (mask 12)) - (a AND NOT (mask 12))) = (unat ?e div 4096 - ?A) * 4096"
    using AB BE s by (subst unat_sub) (auto simp: word_le_nat_alt diff_mult_distrib)
  then have i: "?B - ?A < Suc (unat ((?e AND NOT (mask 12)) - (a AND NOT (mask 12))) div 4096)" using diff_le_mono [OF BE, of ?A] by (simp add: less_Suc_eq_le)
  have word_of: "w = of_nat n" if "unat w = n" for w :: u32 and n using that by auto
  have "(a AND NOT (mask 12)) + of_nat (?B - ?A) * 0x1000 = of_nat (?A * 4096) + of_nat ((?B - ?A) * 4096)"
    using word_of [OF s(1)] by simp
  also have "\<dots> = of_nat (?A * 4096 + (?B - ?A) * 4096)" by (rule of_nat_add [symmetric])
  also have "?A * 4096 + (?B - ?A) * 4096 = ?B * 4096" using AB by (simp flip: add_mult_distrib)
  also have "of_nat (?B * 4096) = b AND NOT (mask 12)" using word_of [OF s(3)] by simp
  finally show ?thesis using all i unfolding all_pages_def Let_def list_all_iff by (metis atLeastLessThan_iff set_upt zero_le)
qed

lemma all_pages_mono: "(\<And>x. ok x \<Longrightarrow> ok' x) \<Longrightarrow> all_pages ok a len \<Longrightarrow> all_pages ok' a len"
  by (auto simp: all_pages_def Let_def list_all_iff)

lemma writable_present: "x86_user_page_writable_user m v \<Longrightarrow> x86_user_page_present_and_user m v"
  by (auto simp: x86_user_page_writable_user_def x86_user_page_present_and_user_def split: prod.splits if_splits)

section \<open>The copies\<close>

lemma store_bytes_spec:
  assumes "length xs \<le> 2 ^ 32"
  shows "ubytes (store_bytes a xs m) b = (if unat (b - a) < length xs then xs ! unat (b - a) else ubytes m b)"
    and "upde (store_bytes a xs m) = upde m" "upte (store_bytes a xs m) = upte m"
proof -
  let ?f = "\<lambda>m i. m\<lparr>ubytes := (ubytes m)(a + of_nat i := xs ! i)\<rparr>"
  have "ubytes (foldl ?f m [0..<n]) b = (if unat (b - a) < n then xs ! unat (b - a) else ubytes m b) \<and>
      upde (foldl ?f m [0..<n]) = upde m \<and> upte (foldl ?f m [0..<n]) = upte m" if "n \<le> length xs" for n
    using that
  proof (induction n)
    case (Suc n)
    have "(b = a + of_nat n) = (unat (b - a) = n)"
    proof
      assume "b = a + of_nat n"
      then show "unat (b - a) = n" using Suc.prems assms by (simp add: unat_of_nat_small)
    next
      assume "unat (b - a) = n"
      then have "of_nat n = b - a" by auto
      then show "b = a + of_nat n" by simp
    qed
    then show ?case using Suc by (simp add: less_Suc_eq)
  qed simp
  from this [of "length xs"] show "ubytes (store_bytes a xs m) b = (if unat (b - a) < length xs then xs ! unat (b - a) else ubytes m b)"
    "upde (store_bytes a xs m) = upde m" "upte (store_bytes a xs m) = upte m"
    by (simp_all add: store_bytes_def)
qed

lemma read_stored: "length xs < 2 ^ 32 \<Longrightarrow> read_bytes (store_bytes a xs m) a (length xs) = xs"
  by (auto simp: read_bytes_def store_bytes_spec unat_of_nat_small intro!: nth_equalityI)

lemma store_range_mapped: "length xs \<le> 2 ^ 32 \<Longrightarrow> x86_user_page_present_and_user (store_bytes a xs m) v = x86_user_page_present_and_user m v"
  by (simp add: x86_user_page_present_and_user_def page_entries_def store_bytes_spec)

lemma length_nonzero: "xs \<noteq> [] \<Longrightarrow> length xs < 2 ^ 32 \<Longrightarrow> (of_nat (length xs) :: u32) \<noteq> 0 \<and> unat (of_nat (length xs) :: u32) = length xs"
proof -
  assume a: "xs \<noteq> []" "length xs < 2 ^ 32"
  then have u: "unat (of_nat (length xs) :: u32) = length xs" by (intro unat_of_nat_small) simp
  then have "unat (of_nat (length xs) :: u32) \<noteq> 0" using a(1) by simp
  then have "(of_nat (length xs) :: u32) \<noteq> 0" by (metis unsigned_0)
  then show ?thesis using u by blast
qed

interpretation x86_copy: user_copy copy_from_user copy_to_user
proof unfold_locales
  fix m a bs and len :: u32
  assume "copy_from_user m a len = Some bs" "len \<noteq> 0"
  then show "user_range a (unat len) \<and> bs = read_bytes m a (unat len)"
    by (auto simp: copy_from_user_def user_range_ok_def x86_user_range_mapped_and_user_def basic_ok_iff split: if_splits)
next
  fix a xs m m' assume "copy_to_user a xs m = Some m'" and ne: "xs \<noteq> []" and len: "length xs < 2 ^ 32"
  then show "user_range a (length xs) \<and> m' = store_bytes a xs m"
    using length_nonzero [OF ne len]
    by (auto simp: copy_to_user_def x86_user_range_writable_user_def basic_ok_iff split: if_splits)
next
  fix a xs m m' assume c: "copy_to_user a xs m = Some m'" and ne: "xs \<noteq> []" and len: "length xs < 2 ^ 32"
  note n = length_nonzero [OF ne len]
  have m': "m' = store_bytes a xs m" and r: "x86_user_range_basic_ok a (of_nat (length xs))"
    and w: "all_pages (x86_user_page_writable_user m) a (of_nat (length xs))"
    using c ne n by (auto simp: copy_to_user_def x86_user_range_writable_user_def split: if_splits)
  have "all_pages (x86_user_page_present_and_user m') a (of_nat (length xs))"
    by (rule all_pages_mono [OF _ w]) (use len in \<open>simp add: m' store_range_mapped writable_present\<close>)
  then show "copy_from_user m' a (of_nat (length xs)) \<noteq> None"
    using r n by (simp add: copy_from_user_def user_range_ok_def x86_user_range_mapped_and_user_def)
qed (simp_all add: copy_from_user_def copy_to_user_def)

interpretation weak_copy: user_copy weak_copy_from_user weak_copy_to_user
proof unfold_locales
  fix m a bs and len :: u32
  assume "weak_copy_from_user m a len = Some bs" "len \<noteq> 0"
  then show "user_range a (unat len) \<and> bs = read_bytes m a (unat len)"
    by (auto simp: weak_copy_from_user_def weak_ok_iff split: if_splits)
next
  fix a xs m m' assume "weak_copy_to_user a xs m = Some m'" and ne: "xs \<noteq> []" and len: "length xs < 2 ^ 32"
  then show "user_range a (length xs) \<and> m' = store_bytes a xs m"
    using length_nonzero [OF ne len] by (auto simp: weak_copy_to_user_def weak_ok_iff split: if_splits)
next
  fix a xs m m' assume "weak_copy_to_user a xs m = Some m'" and ne: "xs \<noteq> []" and len: "length xs < 2 ^ 32"
  then show "weak_copy_from_user m' a (of_nat (length xs)) \<noteq> None"
    using length_nonzero [OF ne len] by (auto simp: weak_copy_from_user_def weak_copy_to_user_def split: if_splits)
qed (simp_all add: weak_copy_from_user_def weak_copy_to_user_def)


definition demo_umem :: umem where
  "demo_umem = \<lparr>ubytes = (\<lambda>_. 0), upde = (\<lambda>_. 7), upte = (\<lambda>_. 7)\<rparr>"


end
