(* ===== verification/Mqueue.thy ===== *)
theory Mqueue
  imports Ring Uaccess
begin

unbundle bit_operations_syntax

text \<open>
  The message queues and the named semaphores of \<^verbatim>\<open>src/kernel/syscall.c\<close>. Both are tables of a fixed size
  found by a name of at most 31 bytes. A message queue is a circular buffer of 16 messages; it is an
  interpretation of \<open>bounded_fifo\<close>. Every function runs under the lock of its table and is one step; the
  wait on a semaphore is one pass of its loop, between two sleeps of one tick.
\<close>

section \<open>Message queues\<close>

definition MQ_MAX_QUEUES :: nat where "MQ_MAX_QUEUES = 8"
definition MQ_MAX_MSGS :: nat where "MQ_MAX_MSGS = 16"
definition MQ_MSG_SIZE :: nat where "MQ_MSG_SIZE = 256"
definition O_CREAT :: u32 where "O_CREAT = 0x40"

record mq_msg =
  msg_data :: "u8 list"
  msg_len :: nat
  msg_prio :: u32

record mq_queue =
  mq_active :: bool
  mq_name :: "u8 list"
  mq_msgs :: "mq_msg list"
  mq_head :: nat
  mq_tail :: nat
  mq_count :: nat
  mq_maxmsg :: nat
  mq_msgsize :: nat

text \<open>A name as the kernel reads it: 31 bytes, up to the first zero.\<close>

definition user_name :: "umem \<Rightarrow> u32 \<Rightarrow> u8 list option" where
  "user_name m a = map_option (takeWhile (\<lambda>b. b \<noteq> 0)) (copy_from_user m a 31)"

definition mq_find_by_name :: "u8 list \<Rightarrow> mq_queue list \<Rightarrow> nat option" where
  "mq_find_by_name name t = find (\<lambda>i. mq_active (t ! i) \<and> mq_name (t ! i) = name) [0..<MQ_MAX_QUEUES]"

definition new_queue :: "u8 list \<Rightarrow> mq_queue" where
  "new_queue name =
     \<lparr>mq_active = True, mq_name = name,
      mq_msgs = replicate MQ_MAX_MSGS \<lparr>msg_data = replicate MQ_MSG_SIZE 0, msg_len = 0, msg_prio = 0\<rparr>,
      mq_head = 0, mq_tail = 0, mq_count = 0, mq_maxmsg = MQ_MAX_MSGS, mq_msgsize = MQ_MSG_SIZE\<rparr>"

definition syscall_mq_open_impl :: "umem \<Rightarrow> u32 \<Rightarrow> u32 \<Rightarrow> mq_queue list \<Rightarrow> mq_queue list \<times> int" where
  "syscall_mq_open_impl m user_ptr oflag t =
     (case user_name m user_ptr of
        None \<Rightarrow> (t, - EFAULT)
      | Some name \<Rightarrow>
          (case mq_find_by_name name t of
             Some i \<Rightarrow> (t, int i)
           | None \<Rightarrow>
               if oflag AND O_CREAT = 0 then (t, - ENOENT)
               else case find (\<lambda>i. \<not> mq_active (t ! i)) [0..<MQ_MAX_QUEUES] of
                      Some i \<Rightarrow> (t[i := new_queue name], int i)
                    | None \<Rightarrow> (t, - ENOSPC)))"

definition syscall_mq_close_impl :: "int \<Rightarrow> int" where
  "syscall_mq_close_impl mqd = 0"

text \<open>Storing a message in the next slot, and taking the oldest one.\<close>

definition mq_put :: "u8 list \<times> u32 \<Rightarrow> mq_queue \<Rightarrow> mq_queue \<times> bool" where
  "mq_put msg q =
     (if mq_maxmsg q \<le> mq_count q then (q, False)
      else let m = mq_msgs q ! mq_tail q;
               bytes = fst msg;
               m = m\<lparr>msg_data := bytes @ drop (length bytes) (msg_data m), msg_len := length bytes, msg_prio := snd msg\<rparr>
           in (q\<lparr>mq_msgs := (mq_msgs q)[mq_tail q := m], mq_tail := (mq_tail q + 1) mod mq_maxmsg q, mq_count := mq_count q + 1\<rparr>, True))"

definition mq_take :: "mq_queue \<Rightarrow> mq_queue \<times> (u8 list \<times> u32) option" where
  "mq_take q =
     (if mq_count q = 0 then (q, None)
      else let m = mq_msgs q ! mq_head q in
           (q\<lparr>mq_head := (mq_head q + 1) mod mq_maxmsg q, mq_count := mq_count q - 1\<rparr>,
            Some (take (msg_len m) (msg_data m), msg_prio m)))"

definition syscall_mq_send_impl :: "umem \<Rightarrow> int \<Rightarrow> u32 \<Rightarrow> u32 \<Rightarrow> u32 \<Rightarrow> mq_queue list \<Rightarrow> mq_queue list \<times> int" where
  "syscall_mq_send_impl m mqd user_buf len prio t =
     (if mqd < 0 \<or> int MQ_MAX_QUEUES \<le> mqd then (t, - EBADF)
      else if MQ_MSG_SIZE < unat len then (t, - EMSGSIZE)
      else case copy_from_user m user_buf len of
             None \<Rightarrow> (t, - EFAULT)
           | Some kbuf \<Rightarrow>
               if \<not> mq_active (t ! nat mqd) then (t, - EBADF)
               else let (q, ok) = mq_put (kbuf, prio) (t ! nat mqd) in
                    if ok then (t[nat mqd := q], 0) else (t, - EAGAIN))"

text \<open>The message is cut to the length of the receiver's buffer; the rest of it is lost.\<close>

definition word_bytes :: "u32 \<Rightarrow> u8 list" where
  "word_bytes w = [ucast w, ucast (drop_bit 8 w), ucast (drop_bit 16 w), ucast (drop_bit 24 w)]"

definition syscall_mq_receive_impl ::
  "int \<Rightarrow> u32 \<Rightarrow> u32 \<Rightarrow> u32 \<Rightarrow> mq_queue list \<times> umem \<Rightarrow> (mq_queue list \<times> umem) \<times> int" where
  "syscall_mq_receive_impl mqd user_buf len user_prio tm =
     (let (t, m) = tm in
      if mqd < 0 \<or> int MQ_MAX_QUEUES \<le> mqd then ((t, m), - EBADF)
      else if \<not> mq_active (t ! nat mqd) then ((t, m), - EBADF)
      else case mq_take (t ! nat mqd) of
             (q, None) \<Rightarrow> ((t, m), - EAGAIN)
           | (q, Some (bytes, prio)) \<Rightarrow>
               let kbuf = take (unat len) bytes;
                   t = t[nat mqd := q]
               in case copy_to_user user_buf kbuf m of
                    None \<Rightarrow> ((t, m), - EFAULT)
                  | Some m \<Rightarrow>
                      let m = (if user_prio \<noteq> 0 \<and> user_range_ok m user_prio 4
                               then (case copy_to_user user_prio (word_bytes prio) m of Some m \<Rightarrow> m | None \<Rightarrow> m) else m)
                      in ((t, m), int (length kbuf)))"

definition syscall_mq_unlink_impl :: "umem \<Rightarrow> u32 \<Rightarrow> mq_queue list \<Rightarrow> mq_queue list \<times> int" where
  "syscall_mq_unlink_impl m user_ptr t =
     (case user_name m user_ptr of
        None \<Rightarrow> (t, - EFAULT)
      | Some name \<Rightarrow>
          (case mq_find_by_name name t of
             None \<Rightarrow> (t, - ENOENT)
           | Some i \<Rightarrow> (t[i := (t ! i)\<lparr>mq_active := False\<rparr>], 0)))"

section \<open>Named semaphores\<close>

definition SEM_MAX :: nat where "SEM_MAX = 16"

record ksem_named =
  sem_active :: bool
  sem_name :: "u8 list"
  sem_value :: "32 word"

definition sem_find :: "u8 list \<Rightarrow> ksem_named list \<Rightarrow> nat option" where
  "sem_find name t = find (\<lambda>i. sem_active (t ! i) \<and> sem_name (t ! i) = name) [0..<SEM_MAX]"

definition syscall_sem_open_impl :: "umem \<Rightarrow> u32 \<Rightarrow> u32 \<Rightarrow> u32 \<Rightarrow> ksem_named list \<Rightarrow> ksem_named list \<times> int" where
  "syscall_sem_open_impl m user_ptr oflag init_val t =
     (case user_name m user_ptr of
        None \<Rightarrow> (t, - EFAULT)
      | Some name \<Rightarrow>
          (case sem_find name t of
             Some i \<Rightarrow> (t, int i)
           | None \<Rightarrow>
               if oflag AND O_CREAT = 0 then (t, - ENOENT)
               else case find (\<lambda>i. \<not> sem_active (t ! i)) [0..<SEM_MAX] of
                      Some i \<Rightarrow> (t[i := \<lparr>sem_active = True, sem_name = name, sem_value = init_val\<rparr>], int i)
                    | None \<Rightarrow> (t, - ENOSPC)))"

definition syscall_sem_close_impl :: "int \<Rightarrow> int" where
  "syscall_sem_close_impl sid = 0"

text \<open>One pass of the wait: \<^term>\<open>None\<close> means sleep one tick and try again. The value is a signed number.\<close>

definition sem_wait_pass :: "int \<Rightarrow> ksem_named list \<Rightarrow> ksem_named list \<times> int option" where
  "sem_wait_pass sid t =
     (if sid < 0 \<or> int SEM_MAX \<le> sid then (t, Some (- EINVAL))
      else let s = t ! nat sid in
           if \<not> sem_active s then (t, Some (- EINVAL))
           else if 0 < sint (sem_value s) then (t[nat sid := s\<lparr>sem_value := sem_value s - 1\<rparr>], Some 0)
           else (t, None))"

definition syscall_sem_post_impl :: "int \<Rightarrow> ksem_named list \<Rightarrow> ksem_named list \<times> int" where
  "syscall_sem_post_impl sid t =
     (if sid < 0 \<or> int SEM_MAX \<le> sid then (t, - EINVAL)
      else let s = t ! nat sid in
           if \<not> sem_active s then (t, - EINVAL)
           else (t[nat sid := s\<lparr>sem_value := sem_value s + 1\<rparr>], 0))"

definition syscall_sem_unlink_impl :: "umem \<Rightarrow> u32 \<Rightarrow> ksem_named list \<Rightarrow> ksem_named list \<times> int" where
  "syscall_sem_unlink_impl m user_ptr t =
     (case user_name m user_ptr of
        None \<Rightarrow> (t, - EFAULT)
      | Some name \<Rightarrow>
          (case sem_find name t of
             Some i \<Rightarrow> (t[i := (t ! i)\<lparr>sem_active := False\<rparr>], 0)
           | None \<Rightarrow> (t, - ENOENT)))"

definition syscall_sem_getvalue_impl :: "int \<Rightarrow> u32 \<Rightarrow> ksem_named list \<Rightarrow> umem \<Rightarrow> umem \<times> int" where
  "syscall_sem_getvalue_impl sid user_val t m =
     (if sid < 0 \<or> int SEM_MAX \<le> sid then (m, - EINVAL)
      else if user_val = 0 \<or> \<not> user_range_ok m user_val 4 then (m, - EFAULT)
      else if \<not> sem_active (t ! nat sid) then (m, - EINVAL)
      else case copy_to_user user_val (word_bytes (sem_value (t ! nat sid))) m of
             None \<Rightarrow> (m, - EFAULT)
           | Some m \<Rightarrow> (m, 0))"

section \<open>A message queue is a bounded queue\<close>

definition mq_ok :: "mq_queue \<Rightarrow> bool" where
  "mq_ok q \<longleftrightarrow> mq_active q \<and> mq_maxmsg q = MQ_MAX_MSGS \<and> length (mq_msgs q) = MQ_MAX_MSGS \<and> mq_head q < MQ_MAX_MSGS \<and>
     mq_count q \<le> MQ_MAX_MSGS \<and> mq_tail q = (mq_head q + mq_count q) mod MQ_MAX_MSGS"

definition msg_view :: "mq_msg \<Rightarrow> u8 list \<times> u32" where
  "msg_view m = (take (msg_len m) (msg_data m), msg_prio m)"

definition mq_list :: "mq_queue \<Rightarrow> (u8 list \<times> u32) list" where
  "mq_list q = map msg_view (ring_list (mq_msgs q) (mq_head q) (mq_count q) MQ_MAX_MSGS)"

lemma length_mq_list: "length (mq_list q) = mq_count q"
  by (simp add: mq_list_def)

lemma mq_put_spec:
  assumes ok: "mq_ok q" and room: "mq_count q < MQ_MAX_MSGS"
  shows "\<exists>q'. mq_put msg q = (q', True) \<and> mq_ok q' \<and> mq_list q' = mq_list q @ [msg]"
proof -
  define m where "m = (mq_msgs q ! mq_tail q)\<lparr>msg_data := fst msg @ drop (length (fst msg)) (msg_data (mq_msgs q ! mq_tail q)),
      msg_len := length (fst msg), msg_prio := snd msg\<rparr>"
  define q' where "q' = q\<lparr>mq_msgs := (mq_msgs q)[mq_tail q := m], mq_tail := (mq_tail q + 1) mod mq_maxmsg q, mq_count := mq_count q + 1\<rparr>"
  have put: "mq_put msg q = (q', True)" using ok room by (simp add: mq_put_def Let_def m_def q'_def mq_ok_def)
  have mx: "0 < MQ_MAX_MSGS" by (simp add: MQ_MAX_MSGS_def)
  have ok': "mq_ok q'" using ok room mx by (auto simp: mq_ok_def q'_def mod_Suc_eq)
  have "ring_list (mq_msgs q') (mq_head q) (Suc (mq_count q)) MQ_MAX_MSGS = ring_list (mq_msgs q) (mq_head q) (mq_count q) MQ_MAX_MSGS @ [m]"
    using ring_list_push [OF room, of "mq_msgs q" "mq_head q" m] ok by (simp add: q'_def mq_ok_def)
  moreover have "msg_view m = msg" by (simp add: msg_view_def m_def)
  ultimately have "mq_list q' = mq_list q @ [msg]" by (simp add: mq_list_def q'_def)
  with put ok' show ?thesis by blast
qed

lemma mq_take_spec:
  assumes ok: "mq_ok q" and list: "mq_list q = x # xs"
  shows "\<exists>q'. mq_take q = (q', Some x) \<and> mq_ok q' \<and> mq_list q' = xs"
proof -
  have c: "0 < mq_count q" using list length_mq_list [of q] by simp
  have h: "mq_head q < MQ_MAX_MSGS" using ok by (simp add: mq_ok_def)
  define q' where "q' = q\<lparr>mq_head := (mq_head q + 1) mod mq_maxmsg q, mq_count := mq_count q - 1\<rparr>"
  note pop = ring_list_pop [OF c h, of "mq_msgs q"]
  have "x = msg_view (mq_msgs q ! mq_head q)" "xs = mq_list q'"
    using list pop ok by (auto simp: mq_list_def q'_def mq_ok_def)
  moreover have "mq_take q = (q', Some (msg_view (mq_msgs q ! mq_head q)))"
    using c by (simp add: mq_take_def Let_def q'_def msg_view_def)
  moreover have "mq_ok q'"
  proof -
    obtain k where k: "mq_count q = Suc k" using c by (cases "mq_count q") auto
    have "((mq_head q + 1) mod MQ_MAX_MSGS + (mq_count q - 1)) mod MQ_MAX_MSGS = (mq_head q + mq_count q) mod MQ_MAX_MSGS"
      unfolding k by (simp add: mod_add_left_eq)
    then show ?thesis using ok c by (auto simp: mq_ok_def q'_def MQ_MAX_MSGS_def)
  qed
  ultimately show ?thesis by blast
qed

interpretation mq: bounded_fifo mq_ok mq_list "\<lambda>q. MQ_MAX_MSGS" mq_put mq_take
proof unfold_locales
  fix q x assume "mq_ok q" "length (mq_list q) < MQ_MAX_MSGS"
  then show "\<exists>q'. mq_put x q = (q', True) \<and> mq_ok q' \<and> mq_list q' = mq_list q @ [x] \<and> MQ_MAX_MSGS = MQ_MAX_MSGS"
    using mq_put_spec [of q x] by (simp add: length_mq_list)
next
  fix q x assume "mq_ok q" "MQ_MAX_MSGS \<le> length (mq_list q)"
  then show "mq_put x q = (q, False)" by (simp add: mq_put_def length_mq_list mq_ok_def)
next
  fix q x xs assume "mq_ok q" "mq_list q = x # xs"
  then show "\<exists>q'. mq_take q = (q', Some x) \<and> mq_ok q' \<and> mq_list q' = xs \<and> MQ_MAX_MSGS = MQ_MAX_MSGS"
    using mq_take_spec [of q x xs] by simp
next
  fix q assume "mq_ok q" "mq_list q = []"
  then have "mq_count q = 0" using length_mq_list [of q] by simp
  then show "mq_take q = (q, None)" by (simp add: mq_take_def)
qed


definition demo_table :: "mq_queue list" where
  "demo_table = replicate 8 (new_queue [109, 113])"

lemma new_queue_ok: "mq_ok (new_queue name)" "mq_list (new_queue name) = []"
  by (simp_all add: mq_ok_def new_queue_def MQ_MAX_MSGS_def mq_list_def)


end
