(* ===== verification/File_Locks.thy ===== *)
theory File_Locks
  imports Kernel_Prelude
begin

unbundle bit_operations_syntax

text \<open>
  The advisory file locks of \<^verbatim>\<open>src/kernel/syscall.c\<close>: whole-file locks (\<^verbatim>\<open>flock\<close>) and locks on byte ranges
  (\<^verbatim>\<open>fcntl\<close>), each in a table of 64 entries. A call that has to wait tries again after a tick; one try,
  under the lock of the table, is one step, with the result \<^term>\<open>None\<close> for trying again.
\<close>

section \<open>Whole-file locks\<close>

definition FLOCK_SH :: int where "FLOCK_SH = 1"
definition FLOCK_EX :: int where "FLOCK_EX = 2"
definition FLOCK_NB :: int where "FLOCK_NB = 4"
definition FLOCK_UN :: int where "FLOCK_UN = 8"
definition FLOCK_TABLE_SIZE :: nat where "FLOCK_TABLE_SIZE = 64"

record flock_entry =
  fl_inode :: u32
  fl_pid :: u32
  fl_type :: int
  fl_active :: bool

definition flock_can_acquire :: "u32 \<Rightarrow> u32 \<Rightarrow> int \<Rightarrow> flock_entry list \<Rightarrow> bool" where
  "flock_can_acquire inode pid type t =
     (find (\<lambda>i. fl_active (t ! i) \<and> fl_inode (t ! i) = inode \<and> fl_pid (t ! i) \<noteq> pid \<and>
                (type = FLOCK_EX \<or> fl_type (t ! i) = FLOCK_EX)) [0..<FLOCK_TABLE_SIZE] = None)"

definition flock_slot :: "u32 \<Rightarrow> u32 \<Rightarrow> flock_entry list \<Rightarrow> nat option" where
  "flock_slot inode pid t =
     find (\<lambda>i. fl_active (t ! i) \<and> fl_inode (t ! i) = inode \<and> fl_pid (t ! i) = pid) [0..<FLOCK_TABLE_SIZE]"

definition flock_do :: "u32 \<Rightarrow> u32 \<Rightarrow> int \<Rightarrow> flock_entry list \<Rightarrow> flock_entry list \<times> int option" where
  "flock_do inode pid operation t =
     (let type = operation AND (FLOCK_SH OR FLOCK_EX);
          nonblock = operation AND FLOCK_NB
      in if operation AND FLOCK_UN \<noteq> 0
         then (case flock_slot inode pid t of
                 Some i \<Rightarrow> (t[i := (t ! i)\<lparr>fl_active := False\<rparr>], Some 0)
               | None \<Rightarrow> (t, Some 0))
         else if type = 0 then (t, Some (- EINVAL))
         else if flock_can_acquire inode pid type t
         then (case flock_slot inode pid t of
                 Some i \<Rightarrow> (t[i := (t ! i)\<lparr>fl_type := type\<rparr>], Some 0)
               | None \<Rightarrow>
                   (case find (\<lambda>i. \<not> fl_active (t ! i)) [0..<FLOCK_TABLE_SIZE] of
                      Some i \<Rightarrow> (t[i := \<lparr>fl_inode = inode, fl_pid = pid, fl_type = type, fl_active = True\<rparr>], Some 0)
                    | None \<Rightarrow> (t, Some (- ENOLCK))))
         else if nonblock \<noteq> 0 then (t, Some (- EWOULDBLOCK))
         else (t, None))"

definition flock_release_pid :: "u32 \<Rightarrow> flock_entry list \<Rightarrow> flock_entry list" where
  "flock_release_pid pid t =
     map (\<lambda>e. if fl_active e \<and> fl_pid e = pid then e\<lparr>fl_active := False\<rparr> else e) t"

section \<open>Range locks\<close>

definition F_RDLCK :: int where "F_RDLCK = 0"
definition F_WRLCK :: int where "F_WRLCK = 1"
definition F_UNLCK :: int where "F_UNLCK = 2"
definition RLOCK_TABLE_SIZE :: nat where "RLOCK_TABLE_SIZE = 64"

record rlock_entry =
  rl_inode :: u32
  rl_pid :: u32
  rl_start :: u32
  rl_end :: u32
  rl_type :: int
  rl_active :: bool

definition rlock_overlaps :: "u32 \<Rightarrow> u32 \<Rightarrow> u32 \<Rightarrow> u32 \<Rightarrow> bool" where
  "rlock_overlaps s1 e1 s2 e2 \<longleftrightarrow> s1 \<le> e2 \<and> s2 \<le> e1"

definition rlock_conflicts :: "u32 \<Rightarrow> u32 \<Rightarrow> int \<Rightarrow> u32 \<Rightarrow> u32 \<Rightarrow> rlock_entry list \<Rightarrow> nat option" where
  "rlock_conflicts inode pid type start e t =
     find (\<lambda>i. rl_active (t ! i) \<and> rl_inode (t ! i) = inode \<and> rl_pid (t ! i) \<noteq> pid \<and>
               rlock_overlaps start e (rl_start (t ! i)) (rl_end (t ! i)) \<and>
               (type = F_WRLCK \<or> rl_type (t ! i) = F_WRLCK)) [0..<RLOCK_TABLE_SIZE]"

definition rlock_drop_own :: "u32 \<Rightarrow> u32 \<Rightarrow> u32 \<Rightarrow> u32 \<Rightarrow> rlock_entry list \<Rightarrow> rlock_entry list" where
  "rlock_drop_own inode pid start e t =
     map (\<lambda>x. if rl_active x \<and> rl_inode x = inode \<and> rl_pid x = pid \<and> rlock_overlaps start e (rl_start x) (rl_end x)
              then x\<lparr>rl_active := False\<rparr> else x) t"

definition rlock_setlk :: "u32 \<Rightarrow> u32 \<Rightarrow> int \<Rightarrow> u32 \<Rightarrow> u32 \<Rightarrow> bool \<Rightarrow> rlock_entry list \<Rightarrow> rlock_entry list \<times> int option" where
  "rlock_setlk inode pid type start e blocking t =
     (if type = F_UNLCK then (rlock_drop_own inode pid start e t, Some 0)
      else if rlock_conflicts inode pid type start e t = None
      then let t = rlock_drop_own inode pid start e t in
           case find (\<lambda>i. \<not> rl_active (t ! i)) [0..<RLOCK_TABLE_SIZE] of
             None \<Rightarrow> (t, Some (- ENOLCK))
           | Some i \<Rightarrow> (t[i := \<lparr>rl_inode = inode, rl_pid = pid, rl_start = start, rl_end = e, rl_type = type, rl_active = True\<rparr>], Some 0)
      else if \<not> blocking then (t, Some (- EAGAIN))
      else (t, None))"

definition rlock_release_pid :: "u32 \<Rightarrow> rlock_entry list \<Rightarrow> rlock_entry list" where
  "rlock_release_pid pid t =
     map (\<lambda>e. if rl_active e \<and> rl_pid e = pid then e\<lparr>rl_active := False\<rparr> else e) t"

text \<open>The range of a request: the length 0 reaches to the end of the file.\<close>

definition flock_range :: "u32 \<Rightarrow> u32 \<Rightarrow> u32 \<times> u32" where
  "flock_range l_start l_len = (l_start, if l_len = 0 then 0xFFFFFFFF else l_start + l_len - 1)"

section \<open>The tables of the kernel\<close>

record lock_tables =
  flocks :: "flock_entry list"
  rlocks :: "rlock_entry list"

definition no_locks :: lock_tables where
  "no_locks = \<lparr>flocks = replicate FLOCK_TABLE_SIZE \<lparr>fl_inode = 0, fl_pid = 0, fl_type = 0, fl_active = False\<rparr>,
     rlocks = replicate RLOCK_TABLE_SIZE \<lparr>rl_inode = 0, rl_pid = 0, rl_start = 0, rl_end = 0, rl_type = 0, rl_active = False\<rparr>\<rparr>"

inductive locks_reach :: "lock_tables \<Rightarrow> bool" where
  locks_init: "locks_reach no_locks"
| locks_flock: "locks_reach L \<Longrightarrow> locks_reach (L\<lparr>flocks := fst (flock_do inode pid operation (flocks L))\<rparr>)"
| locks_fcntl: "locks_reach L \<Longrightarrow> flock_range l_start l_len = (s, e) \<Longrightarrow>
    locks_reach (L\<lparr>rlocks := fst (rlock_setlk inode pid type s e blocking (rlocks L))\<rparr>)"
| locks_exit: "locks_reach L \<Longrightarrow> locks_reach (L\<lparr>flocks := flock_release_pid pid (flocks L), rlocks := rlock_release_pid pid (rlocks L)\<rparr>)"

definition flocks_ok :: "flock_entry list \<Rightarrow> bool" where
  "flocks_ok t \<longleftrightarrow> length t = FLOCK_TABLE_SIZE \<and>
     (\<forall>i j. i < FLOCK_TABLE_SIZE \<longrightarrow> j < FLOCK_TABLE_SIZE \<longrightarrow> fl_active (t ! i) \<longrightarrow> fl_active (t ! j) \<longrightarrow>
        fl_inode (t ! i) = fl_inode (t ! j) \<longrightarrow> fl_type (t ! i) = FLOCK_EX \<longrightarrow> fl_pid (t ! i) = fl_pid (t ! j))"

definition rlocks_ok :: "rlock_entry list \<Rightarrow> bool" where
  "rlocks_ok t \<longleftrightarrow> length t = RLOCK_TABLE_SIZE \<and>
     (\<forall>i j. i < RLOCK_TABLE_SIZE \<longrightarrow> j < RLOCK_TABLE_SIZE \<longrightarrow> rl_active (t ! i) \<longrightarrow> rl_active (t ! j) \<longrightarrow>
        rl_inode (t ! i) = rl_inode (t ! j) \<longrightarrow> rl_pid (t ! i) \<noteq> rl_pid (t ! j) \<longrightarrow>
        rlock_overlaps (rl_start (t ! i)) (rl_end (t ! i)) (rl_start (t ! j)) (rl_end (t ! j)) \<longrightarrow> rl_type (t ! i) \<noteq> F_WRLCK)"

text \<open>Entries that become inactive do no harm.\<close>

lemma flocks_ok_shrink:
  assumes "flocks_ok t" "length t' = length t"
    "\<And>i. i < FLOCK_TABLE_SIZE \<Longrightarrow> fl_active (t' ! i) \<Longrightarrow> t' ! i = t ! i"
  shows "flocks_ok t'"
  using assms unfolding flocks_ok_def by metis

lemma rlocks_ok_shrink:
  assumes "rlocks_ok t" "length t' = length t"
    "\<And>i. i < RLOCK_TABLE_SIZE \<Longrightarrow> rl_active (t' ! i) \<Longrightarrow> t' ! i = t ! i"
  shows "rlocks_ok t'"
  using assms unfolding rlocks_ok_def by metis

text \<open>A new entry that conflicts with no other keeps the table.\<close>

lemma flocks_ok_write:
  assumes ok: "flocks_ok t" and i: "i < FLOCK_TABLE_SIZE"
    and new: "\<And>j. j < FLOCK_TABLE_SIZE \<Longrightarrow> j \<noteq> i \<Longrightarrow> fl_active (t ! j) \<Longrightarrow> fl_inode (t ! j) = fl_inode x \<Longrightarrow>
      fl_type (t ! j) = FLOCK_EX \<or> fl_type x = FLOCK_EX \<Longrightarrow> fl_pid (t ! j) = fl_pid x"
  shows "flocks_ok (t[i := x])"
proof -
  have len: "length t = FLOCK_TABLE_SIZE" using ok by (simp add: flocks_ok_def)
  have old: "fl_pid (t ! a) = fl_pid (t ! b)" if "a < FLOCK_TABLE_SIZE" "b < FLOCK_TABLE_SIZE" "fl_active (t ! a)" "fl_active (t ! b)"
      "fl_inode (t ! a) = fl_inode (t ! b)" "fl_type (t ! a) = FLOCK_EX" for a b
    using ok that unfolding flocks_ok_def by blast
  have "fl_pid (t[i := x] ! a) = fl_pid (t[i := x] ! b)"
    if h: "a < FLOCK_TABLE_SIZE" "b < FLOCK_TABLE_SIZE" "fl_active (t[i := x] ! a)" "fl_active (t[i := x] ! b)"
      "fl_inode (t[i := x] ! a) = fl_inode (t[i := x] ! b)" "fl_type (t[i := x] ! a) = FLOCK_EX" for a b
  proof -
    consider "a = i" "b = i" | "a = i" "b \<noteq> i" | "a \<noteq> i" "b = i" | "a \<noteq> i" "b \<noteq> i" by blast
    then show ?thesis
    proof cases
      case 1 then show ?thesis by simp
    next
      case 2 then show ?thesis using h new [of b] i len by simp
    next
      case 3 then show ?thesis using h new [of a] i len by simp
    next
      case 4 then show ?thesis using h old [of a b] by simp
    qed
  qed
  then show ?thesis using len unfolding flocks_ok_def length_list_update by blast
qed

lemma rlocks_ok_write:
  assumes ok: "rlocks_ok t" and i: "i < RLOCK_TABLE_SIZE"
    and new: "\<And>j. j < RLOCK_TABLE_SIZE \<Longrightarrow> j \<noteq> i \<Longrightarrow> rl_active (t ! j) \<Longrightarrow> rl_inode (t ! j) = rl_inode x \<Longrightarrow> rl_pid (t ! j) \<noteq> rl_pid x \<Longrightarrow>
      rlock_overlaps (rl_start x) (rl_end x) (rl_start (t ! j)) (rl_end (t ! j)) \<Longrightarrow> rl_type (t ! j) \<noteq> F_WRLCK \<and> rl_type x \<noteq> F_WRLCK"
  shows "rlocks_ok (t[i := x])"
proof -
  have len: "length t = RLOCK_TABLE_SIZE" using ok by (simp add: rlocks_ok_def)
  have sym: "rlock_overlaps a b c d = rlock_overlaps c d a b" for a b c d by (auto simp: rlock_overlaps_def)
  have old: "rl_type (t ! a) \<noteq> F_WRLCK" if "a < RLOCK_TABLE_SIZE" "b < RLOCK_TABLE_SIZE" "rl_active (t ! a)" "rl_active (t ! b)"
      "rl_inode (t ! a) = rl_inode (t ! b)" "rl_pid (t ! a) \<noteq> rl_pid (t ! b)"
      "rlock_overlaps (rl_start (t ! a)) (rl_end (t ! a)) (rl_start (t ! b)) (rl_end (t ! b))" for a b
    using ok that unfolding rlocks_ok_def by blast
  have "rl_type (t[i := x] ! a) \<noteq> F_WRLCK"
    if h: "a < RLOCK_TABLE_SIZE" "b < RLOCK_TABLE_SIZE" "rl_active (t[i := x] ! a)" "rl_active (t[i := x] ! b)"
      "rl_inode (t[i := x] ! a) = rl_inode (t[i := x] ! b)" "rl_pid (t[i := x] ! a) \<noteq> rl_pid (t[i := x] ! b)"
      "rlock_overlaps (rl_start (t[i := x] ! a)) (rl_end (t[i := x] ! a)) (rl_start (t[i := x] ! b)) (rl_end (t[i := x] ! b))" for a b
  proof -
    consider "a = i" "b = i" | "a = i" "b \<noteq> i" | "a \<noteq> i" "b = i" | "a \<noteq> i" "b \<noteq> i" by blast
    then show ?thesis
    proof cases
      case 1 then show ?thesis using h by simp
    next
      case 2 then show ?thesis using h new [of b] i len by simp
    next
      case 3 then show ?thesis using h new [of a] i len sym [of "rl_start x"] by simp
    next
      case 4 then show ?thesis using h old [of a b] by simp
    qed
  qed
  then show ?thesis using len unfolding rlocks_ok_def length_list_update by blast
qed

lemma flock_do_ok:
  assumes ok: "flocks_ok t"
  shows "flocks_ok (fst (flock_do inode pid operation t))"
proof -
  define type where "type = operation AND (FLOCK_SH OR FLOCK_EX)"
  have len: "length t = FLOCK_TABLE_SIZE" using ok by (simp add: flocks_ok_def)
  have slot: "i < FLOCK_TABLE_SIZE \<and> fl_active (t ! i) \<and> fl_inode (t ! i) = inode \<and> fl_pid (t ! i) = pid"
    if "flock_slot inode pid t = Some i" for i
    using that by (simp add: flock_slot_def find_upt_Some)
  have un: "flocks_ok (t[i := (t ! i)\<lparr>fl_active := False\<rparr>])" if "flock_slot inode pid t = Some i" for i
    by (rule flocks_ok_shrink [OF ok]) (use len slot [OF that] in \<open>auto simp: nth_list_update split: if_splits\<close>)
  have comp: "fl_pid (t ! j) = pid"
    if "flock_can_acquire inode pid type t" "j < FLOCK_TABLE_SIZE" "fl_active (t ! j)" "fl_inode (t ! j) = inode"
      "fl_type (t ! j) = FLOCK_EX \<or> type = FLOCK_EX" for j
    using that by (auto simp: flock_can_acquire_def find_upt_None)
  have up: "flocks_ok (t[i := (t ! i)\<lparr>fl_type := type\<rparr>])" if "flock_can_acquire inode pid type t" "flock_slot inode pid t = Some i" for i
    by (rule flocks_ok_write [OF ok]) (use slot [OF that(2)] comp [OF that(1)] in auto)
  have add: "flocks_ok (t[i := \<lparr>fl_inode = inode, fl_pid = pid, fl_type = type, fl_active = True\<rparr>])"
    if "flock_can_acquire inode pid type t" "i < FLOCK_TABLE_SIZE" for i
    by (rule flocks_ok_write [OF ok]) (use that(2) comp [OF that(1)] in auto)
  show ?thesis using ok un up add
    by (auto simp: flock_do_def Let_def type_def [symmetric] find_upt_Some split: option.split)
qed

lemma rlock_drop_own_ok: "rlocks_ok t \<Longrightarrow> rlocks_ok (rlock_drop_own inode pid s e t)"
  by (rule rlocks_ok_shrink) (auto simp: rlock_drop_own_def rlocks_ok_def)

lemma rlock_drop_own_active:
  "i < length t \<Longrightarrow> rl_active (rlock_drop_own inode pid s e t ! i) \<Longrightarrow> rlock_drop_own inode pid s e t ! i = t ! i"
  by (auto simp: rlock_drop_own_def split: if_splits)

lemma rlock_setlk_ok:
  assumes ok: "rlocks_ok t"
  shows "rlocks_ok (fst (rlock_setlk inode pid type s e blocking t))"
proof -
  let ?t = "rlock_drop_own inode pid s e t"
  note ok' = rlock_drop_own_ok [OF ok, of inode pid s e]
  have len: "length t = RLOCK_TABLE_SIZE" using ok by (simp add: rlocks_ok_def)
  have "rlocks_ok (?t[i := \<lparr>rl_inode = inode, rl_pid = pid, rl_start = s, rl_end = e, rl_type = type, rl_active = True\<rparr>])"
    if none: "rlock_conflicts inode pid type s e t = None" and i: "i < RLOCK_TABLE_SIZE" for i
  proof (rule rlocks_ok_write [OF ok' i])
    fix j assume j: "j < RLOCK_TABLE_SIZE" and act: "rl_active (?t ! j)"
    have "?t ! j = t ! j" using rlock_drop_own_active [OF _ act] j len by simp
    then show "rl_type (?t ! j) \<noteq> F_WRLCK \<and> rl_type \<lparr>rl_inode = inode, rl_pid = pid, rl_start = s, rl_end = e, rl_type = type, rl_active = True\<rparr> \<noteq> F_WRLCK"
      if "rl_inode (?t ! j) = rl_inode \<lparr>rl_inode = inode, rl_pid = pid, rl_start = s, rl_end = e, rl_type = type, rl_active = True\<rparr>"
        "rl_pid (?t ! j) \<noteq> rl_pid \<lparr>rl_inode = inode, rl_pid = pid, rl_start = s, rl_end = e, rl_type = type, rl_active = True\<rparr>"
        "rlock_overlaps (rl_start \<lparr>rl_inode = inode, rl_pid = pid, rl_start = s, rl_end = e, rl_type = type, rl_active = True\<rparr>)
           (rl_end \<lparr>rl_inode = inode, rl_pid = pid, rl_start = s, rl_end = e, rl_type = type, rl_active = True\<rparr>) (rl_start (?t ! j)) (rl_end (?t ! j))"
      using that none j act by (auto simp: rlock_conflicts_def find_upt_None)
  qed
  then show ?thesis using ok ok'
    by (auto simp: rlock_setlk_def Let_def find_upt_Some split: option.split)
qed

lemma release_ok:
  "flocks_ok t \<Longrightarrow> flocks_ok (flock_release_pid pid t)" "rlocks_ok u \<Longrightarrow> rlocks_ok (rlock_release_pid pid u)"
proof -
  show "flocks_ok t \<Longrightarrow> flocks_ok (flock_release_pid pid t)"
    by (rule flocks_ok_shrink) (auto simp: flock_release_pid_def flocks_ok_def split: if_splits)
  show "rlocks_ok u \<Longrightarrow> rlocks_ok (rlock_release_pid pid u)"
    by (rule rlocks_ok_shrink) (auto simp: rlock_release_pid_def rlocks_ok_def split: if_splits)
qed

lemma locks_reach_ok: "locks_reach L \<Longrightarrow> flocks_ok (flocks L) \<and> rlocks_ok (rlocks L)"
proof (induction rule: locks_reach.induct)
  case locks_init
  show ?case by (simp add: no_locks_def flocks_ok_def rlocks_ok_def)
qed (simp_all add: flock_do_ok rlock_setlk_ok release_ok)

text \<open>
  C24. File locks exclude. In every state that lock, unlock and exit calls can lead to: if a process holds an exclusive lock on
  a file, no other process holds a lock on it; and if a process holds a write lock on a byte of a file, no other process holds
  a lock on that byte.
\<close>

theorem locks_exclusive:
  assumes "locks_reach L"
  shows "(i < FLOCK_TABLE_SIZE \<longrightarrow> j < FLOCK_TABLE_SIZE \<longrightarrow> fl_active (flocks L ! i) \<longrightarrow> fl_active (flocks L ! j) \<longrightarrow>
      fl_inode (flocks L ! i) = fl_inode (flocks L ! j) \<longrightarrow> fl_type (flocks L ! i) = FLOCK_EX \<longrightarrow>
      fl_pid (flocks L ! i) = fl_pid (flocks L ! j)) \<and>
    (i < RLOCK_TABLE_SIZE \<longrightarrow> j < RLOCK_TABLE_SIZE \<longrightarrow> rl_active (rlocks L ! i) \<longrightarrow> rl_active (rlocks L ! j) \<longrightarrow>
      rl_inode (rlocks L ! i) = rl_inode (rlocks L ! j) \<longrightarrow> rl_type (rlocks L ! i) = F_WRLCK \<longrightarrow>
      rl_start (rlocks L ! i) \<le> b \<longrightarrow> b \<le> rl_end (rlocks L ! i) \<longrightarrow> rl_start (rlocks L ! j) \<le> b \<longrightarrow> b \<le> rl_end (rlocks L ! j) \<longrightarrow>
      rl_pid (rlocks L ! i) = rl_pid (rlocks L ! j))"
proof -
  note ok = locks_reach_ok [OF assms]
  have "rlock_overlaps (rl_start (rlocks L ! i)) (rl_end (rlocks L ! i)) (rl_start (rlocks L ! j)) (rl_end (rlocks L ! j))"
    if "rl_start (rlocks L ! i) \<le> b" "b \<le> rl_end (rlocks L ! i)" "rl_start (rlocks L ! j) \<le> b" "b \<le> rl_end (rlocks L ! j)"
    using that by (auto simp: rlock_overlaps_def)
  then show ?thesis using ok unfolding flocks_ok_def rlocks_ok_def by blast
qed

definition demo_locks :: lock_tables where
  "demo_locks = no_locks\<lparr>flocks := fst (flock_do 5 7 2 (flocks no_locks))\<rparr>"

lemma demo_locks_slot: "flocks demo_locks ! 0 = \<lparr>fl_inode = 5, fl_pid = 7, fl_type = FLOCK_EX, fl_active = True\<rparr>"
  by code_simp

lemma locks_exclusive_witness:
  "locks_reach demo_locks \<and> fl_active (flocks demo_locks ! 0) \<and> fl_type (flocks demo_locks ! 0) = FLOCK_EX \<and>
   \<not> (fl_active (flocks demo_locks ! 3) \<and> fl_inode (flocks demo_locks ! 3) = fl_inode (flocks demo_locks ! 0) \<and>
      fl_pid (flocks demo_locks ! 3) \<noteq> fl_pid (flocks demo_locks ! 0))"
proof -
  have r: "locks_reach demo_locks" unfolding demo_locks_def by (rule locks_flock [OF locks_init])
  have "\<not> (fl_active (flocks demo_locks ! 3) \<and> fl_inode (flocks demo_locks ! 3) = fl_inode (flocks demo_locks ! 0) \<and>
      fl_pid (flocks demo_locks ! 3) \<noteq> fl_pid (flocks demo_locks ! 0))"
    using locks_exclusive [OF r, of 0 3 0] by (auto simp: FLOCK_TABLE_SIZE_def demo_locks_slot)
  with r show ?thesis by (simp add: demo_locks_slot)
qed

end
