(* ===== verification/Lz4.thy ===== *)
theory Lz4
  imports Kernel_Prelude
begin

unbundle bit_operations_syntax

text \<open>
  The LZ4 decompressor \<^verbatim>\<open>src/kernel/lz4.c\<close> and the hash \<^verbatim>\<open>include/xxhash32.h\<close> it checks frames with. The input is
  the list of the bytes that are left, and \<open>ip_end\<close> the address behind it; the output is the list of the bytes
  written, and \<open>dst\<close> and \<open>op_end\<close> are the bounds of its buffer. The checks of the code compare sums of
  pointers and lengths in 32 bits, and so does the model; a copy that leaves a buffer is the result \<open>Lz_oob\<close>.
\<close>

section \<open>The hash\<close>

definition XXH_PRIME32_1 :: u32 where "XXH_PRIME32_1 = 0x9E3779B1"
definition XXH_PRIME32_2 :: u32 where "XXH_PRIME32_2 = 0x85EBCA77"
definition XXH_PRIME32_3 :: u32 where "XXH_PRIME32_3 = 0xC2B2AE3D"
definition XXH_PRIME32_4 :: u32 where "XXH_PRIME32_4 = 0x27D4EB2F"
definition XXH_PRIME32_5 :: u32 where "XXH_PRIME32_5 = 0x165667B1"

definition xxh32_rotl :: "u32 \<Rightarrow> nat \<Rightarrow> u32" where
  "xxh32_rotl x r = push_bit r x OR drop_bit (32 - r) x"

definition read_le32 :: "u8 list \<Rightarrow> u32" where
  "read_le32 p = ucast (p ! 0) OR push_bit 8 (ucast (p ! 1)) OR push_bit 16 (ucast (p ! 2)) OR push_bit 24 (ucast (p ! 3))"

definition xxh32_lane :: "u32 \<Rightarrow> u8 list \<Rightarrow> u32" where
  "xxh32_lane v p = xxh32_rotl (v + read_le32 p * XXH_PRIME32_2) 13 * XXH_PRIME32_1"

function xxh32_stripes :: "u32 \<times> u32 \<times> u32 \<times> u32 \<Rightarrow> u8 list \<Rightarrow> (u32 \<times> u32 \<times> u32 \<times> u32) \<times> u8 list" where
  "xxh32_stripes v p =
     (if length p < 16 then (v, p)
      else let (v1, v2, v3, v4) = v in
           xxh32_stripes (xxh32_lane v1 p, xxh32_lane v2 (drop 4 p), xxh32_lane v3 (drop 8 p), xxh32_lane v4 (drop 12 p)) (drop 16 p))"
  by pat_completeness auto
termination by (relation "measure (\<lambda>(_, p). length p)") auto

function xxh32_words :: "u32 \<Rightarrow> u8 list \<Rightarrow> u32 \<times> u8 list" where
  "xxh32_words h p =
     (if length p < 4 then (h, p)
      else xxh32_words (xxh32_rotl (h + read_le32 p * XXH_PRIME32_3) 17 * XXH_PRIME32_4) (drop 4 p))"
  by pat_completeness auto
termination by (relation "measure (\<lambda>(_, p). length p)") auto

fun xxh32_bytes :: "u32 \<Rightarrow> u8 list \<Rightarrow> u32" where
  "xxh32_bytes h [] = h"
| "xxh32_bytes h (b # p) = xxh32_bytes (xxh32_rotl (h + ucast b * XXH_PRIME32_5) 11 * XXH_PRIME32_1) p"

definition xxh32_final :: "u32 \<Rightarrow> u32" where
  "xxh32_final h =
     (let h = h XOR drop_bit 15 h;
          h = h * XXH_PRIME32_2;
          h = h XOR drop_bit 13 h;
          h = h * XXH_PRIME32_3
      in h XOR drop_bit 16 h)"

definition xxh32 :: "u8 list \<Rightarrow> u32 \<Rightarrow> u32" where
  "xxh32 input seed =
     (let (h, p) =
        (if 16 \<le> length input then
           (case xxh32_stripes (seed + XXH_PRIME32_1 + XXH_PRIME32_2, seed + XXH_PRIME32_2, seed + 0, seed - XXH_PRIME32_1) input of
              ((v1, v2, v3, v4), p) \<Rightarrow> (xxh32_rotl v1 1 + xxh32_rotl v2 7 + xxh32_rotl v3 12 + xxh32_rotl v4 18, p))
         else (seed + XXH_PRIME32_5, input));
        (h, p) = xxh32_words (h + of_nat (length input)) p
      in xxh32_final (xxh32_bytes h p))"

section \<open>Blocks\<close>

datatype 'a lz4_result = Lz_ok 'a | Lz_err | Lz_oob

fun extend_len :: "u32 \<Rightarrow> u8 list \<Rightarrow> (u32 \<times> u8 list) option" where
  "extend_len n [] = None"
| "extend_len n (extra # inp) = (if extra = 255 then extend_len (n + 255) inp else Some (n + ucast extra, inp))"

text \<open>\<^verbatim>\<open>ip + n > ip_end\<close> and \<^verbatim>\<open>op + n > op_end\<close>.\<close>

definition past_input :: "u32 \<Rightarrow> u8 list \<Rightarrow> u32 \<Rightarrow> bool" where
  "past_input ip_end inp n \<longleftrightarrow> ip_end < ip_end - of_nat (length inp) + n"

definition past_output :: "u32 \<Rightarrow> u32 \<Rightarrow> u8 list \<Rightarrow> u32 \<Rightarrow> bool" where
  "past_output dst op_end out n \<longleftrightarrow> op_end < dst + of_nat (length out) + n"

definition no_room :: "u32 \<Rightarrow> u32 \<Rightarrow> u8 list \<Rightarrow> u32 \<Rightarrow> bool" where
  "no_room dst op_end out n \<longleftrightarrow> unat op_end - unat dst < length out + unat n"

fun copy_match :: "nat \<Rightarrow> nat \<Rightarrow> u8 list \<Rightarrow> u8 list" where
  "copy_match offset 0 out = out"
| "copy_match offset (Suc n) out = copy_match offset n (out @ [out ! (length out - offset)])"

lemma extend_len_shorter: "extend_len n inp = Some (m, inp') \<Longrightarrow> length inp' < length inp"
  by (induction n inp rule: extend_len.induct) (fastforce split: if_splits)+

definition lit_part :: "u32 \<Rightarrow> u32 \<Rightarrow> u32 \<Rightarrow> u8 list \<Rightarrow> u8 list \<Rightarrow> (u8 \<times> u8 list \<times> u8 list) lz4_result" where
  "lit_part ip_end dst op_end inp out =
     (case inp of
        [] \<Rightarrow> Lz_err
      | token # inp \<Rightarrow>
          (let lit_len = ucast (drop_bit 4 token) in
           case (if lit_len = 15 then extend_len lit_len inp else Some (lit_len, inp)) of
             None \<Rightarrow> Lz_err
           | Some (lit_len, inp) \<Rightarrow>
               if past_input ip_end inp lit_len then Lz_err
               else if past_output dst op_end out lit_len then Lz_err
               else if length inp < unat lit_len \<or> no_room dst op_end out lit_len then Lz_oob
               else Lz_ok (token, drop (unat lit_len) inp, out @ take (unat lit_len) inp)))"

definition match_part :: "u32 \<Rightarrow> u32 \<Rightarrow> u32 \<Rightarrow> u8 \<Rightarrow> u8 list \<Rightarrow> u8 list \<Rightarrow> (u8 list \<times> u8 list) lz4_result" where
  "match_part ip_end dst op_end token inp out =
     (let match_len = ucast (token AND 0x0F) in
      if past_input ip_end inp 2 then Lz_err
      else if length inp < 2 then Lz_oob
      else
        let offset = ucast (inp ! 0) OR push_bit 8 (ucast (inp ! 1)) :: u32;
            inp = drop 2 inp
        in if offset = 0 then Lz_err
           else case (if match_len = 15 then extend_len match_len inp else Some (match_len, inp)) of
                  None \<Rightarrow> Lz_err
                | Some (match_len, inp) \<Rightarrow>
                    let match_len = match_len + 4 in
                    if dst + of_nat (length out) - offset < dst then Lz_err
                    else if past_output dst op_end out match_len then Lz_err
                    else if length out < unat offset \<or> no_room dst op_end out match_len then Lz_oob
                    else Lz_ok (inp, copy_match (unat offset) (unat match_len) out))"

lemma lit_part_shorter: "lit_part ip_end dst op_end inp out = Lz_ok (token, inp', out') \<Longrightarrow> length inp' < length inp"
  by (auto simp: lit_part_def Let_def less_Suc_eq_le dest!: extend_len_shorter split: list.splits option.splits if_splits)

lemma match_part_shorter: "match_part ip_end dst op_end token inp out = Lz_ok (inp', out') \<Longrightarrow> length inp' < length inp"
  by (auto simp: match_part_def Let_def dest!: extend_len_shorter split: option.splits if_splits)

function lz4_loop :: "u32 \<Rightarrow> u32 \<Rightarrow> u32 \<Rightarrow> u8 list \<Rightarrow> u8 list \<Rightarrow> u8 list lz4_result" where
  "lz4_loop ip_end dst op_end inp out =
     (case lit_part ip_end dst op_end inp out of
        Lz_err \<Rightarrow> Lz_err
      | Lz_oob \<Rightarrow> Lz_oob
      | Lz_ok (token, inp', out) \<Rightarrow>
          if inp' = [] then Lz_ok out
          else case match_part ip_end dst op_end token inp' out of
                 Lz_err \<Rightarrow> Lz_err
               | Lz_oob \<Rightarrow> Lz_oob
               | Lz_ok (inp'', out) \<Rightarrow> lz4_loop ip_end dst op_end inp'' out)"
  by pat_completeness auto
termination
  by (relation "measure (\<lambda>(_, _, _, inp, _). length inp)") (auto dest!: lit_part_shorter match_part_shorter)

text \<open>
  \<open>avail\<close> are the bytes from \<open>src\<close> to the end of the object \<open>src\<close> points into. The first test of the loop compares
  pointers, so that an end that wraps around counts as the end of the input.
\<close>

definition lz4_decompress_block :: "u32 \<Rightarrow> u8 list \<Rightarrow> u32 \<Rightarrow> u32 \<Rightarrow> u32 \<Rightarrow> u8 list lz4_result" where
  "lz4_decompress_block src avail src_size dst dst_cap =
     (if src + src_size \<le> src then Lz_err
      else if length avail < unat src_size then Lz_oob
      else lz4_loop (src + src_size) dst (dst + dst_cap) (take (unat src_size) avail) [])"

section \<open>Frames\<close>

definition LZ4_FRAME_MAGIC :: u32 where "LZ4_FRAME_MAGIC = 0x184D2204"

definition read_le64 :: "u8 list \<Rightarrow> u64" where
  "read_le64 p = ucast (read_le32 p) OR push_bit 32 (ucast (read_le32 (drop 4 p)))"

text \<open>The descriptor: the flags, the content size and the data blocks.\<close>

record frame_flags =
  block_checksum :: bool
  content_checksum :: bool
  content_size :: "u64 option"

definition lz4_descriptor :: "u32 \<Rightarrow> u8 list \<Rightarrow> (frame_flags \<times> u8 list) lz4_result" where
  "lz4_descriptor ip_end desc =
     (let flg = desc ! 0;
          inp = drop 2 desc;
          size_flag = bit flg 3
      in if drop_bit 6 flg AND 0x03 \<noteq> 1 then Lz_err
         else if \<not> bit flg 5 then Lz_err
         else if size_flag \<and> past_input ip_end inp 8 then Lz_err
         else if size_flag \<and> length inp < 8 then Lz_oob
         else
           let size = (if size_flag then Some (read_le64 inp) else None);
               inp = (if size_flag then drop 8 inp else inp)
           in if bit flg 0 \<and> past_input ip_end inp 4 then Lz_err
              else if bit flg 0 \<and> length inp < 4 then Lz_oob
              else
                let inp = (if bit flg 0 then drop 4 inp else inp) in
                if past_input ip_end inp 1 then Lz_err
                else if inp = [] then Lz_oob
                else if hd inp \<noteq> ucast (drop_bit 8 (xxh32 (take (length desc - length inp) desc) 0) AND 0xFF) then Lz_err
                else Lz_ok (\<lparr>block_checksum = bit flg 4, content_checksum = bit flg 2, content_size = size\<rparr>, tl inp))"

definition lz4_data_block :: "u32 \<Rightarrow> u32 \<Rightarrow> u32 \<Rightarrow> u32 \<Rightarrow> u8 list \<Rightarrow> u8 list \<Rightarrow> (u8 list \<times> u8 list) lz4_result" where
  "lz4_data_block ip_end dst dst_cap size_word inp out =
     (let block_size = size_word AND 0x7FFFFFFF;
          total_out = of_nat (length out)
      in if past_input ip_end inp block_size then Lz_err
         else if bit size_word 31 then
           if dst_cap < total_out + block_size then Lz_err
           else if length inp < unat block_size \<or> unat dst_cap < length out + unat block_size then Lz_oob
           else Lz_ok (drop (unat block_size) inp, out @ take (unat block_size) inp)
         else
           case lz4_decompress_block (ip_end - of_nat (length inp)) inp block_size (dst + total_out) (dst_cap - total_out) of
             Lz_err \<Rightarrow> Lz_err
           | Lz_oob \<Rightarrow> Lz_oob
           | Lz_ok bytes \<Rightarrow> Lz_ok (drop (unat block_size) inp, out @ bytes))"

lemma lz4_data_block_shorter: "lz4_data_block ip_end dst cap w inp out = Lz_ok (inp', out') \<Longrightarrow> length inp' \<le> length inp"
  by (auto simp: lz4_data_block_def Let_def split: if_splits lz4_result.splits)

function lz4_blocks :: "bool \<Rightarrow> u32 \<Rightarrow> u32 \<Rightarrow> u32 \<Rightarrow> u8 list \<Rightarrow> u8 list \<Rightarrow> (u8 list \<times> u8 list) lz4_result" where
  "lz4_blocks checksums ip_end dst dst_cap inp out =
     (if past_input ip_end inp 4 then Lz_err
      else if length inp < 4 then Lz_oob
      else if read_le32 inp = 0 then Lz_ok (drop 4 inp, out)
      else case lz4_data_block ip_end dst dst_cap (read_le32 inp) (drop 4 inp) out of
             Lz_err \<Rightarrow> Lz_err
           | Lz_oob \<Rightarrow> Lz_oob
           | Lz_ok (inp', out) \<Rightarrow>
               if \<not> checksums then lz4_blocks checksums ip_end dst dst_cap inp' out
               else if past_input ip_end inp' 4 then Lz_err
               else if length inp' < 4 then Lz_oob
               else lz4_blocks checksums ip_end dst dst_cap (drop 4 inp') out)"
  by pat_completeness auto
termination
  by (relation "measure (\<lambda>(_, _, _, _, inp, _). length inp)") (auto dest!: lz4_data_block_shorter)

definition lz4_decompress_frame :: "u32 \<Rightarrow> u8 list \<Rightarrow> u32 \<Rightarrow> u32 \<Rightarrow> u8 list lz4_result" where
  "lz4_decompress_frame src bytes dst dst_cap =
     (let ip_end = src + of_nat (length bytes) in
      if length bytes < 7 then Lz_err
      else if read_le32 bytes \<noteq> LZ4_FRAME_MAGIC then Lz_err
      else case lz4_descriptor ip_end (drop 4 bytes) of
             Lz_err \<Rightarrow> Lz_err
           | Lz_oob \<Rightarrow> Lz_oob
           | Lz_ok (fl, inp) \<Rightarrow>
               (case lz4_blocks (block_checksum fl) ip_end dst dst_cap inp [] of
                  Lz_err \<Rightarrow> Lz_err
                | Lz_oob \<Rightarrow> Lz_oob
                | Lz_ok (inp, out) \<Rightarrow>
                    if content_checksum fl \<and> past_input ip_end inp 4 then Lz_err
                    else if content_checksum fl \<and> length inp < 4 then Lz_oob
                    else if content_checksum fl \<and> read_le32 inp \<noteq> xxh32 out 0 then Lz_err
                    else if content_size fl \<noteq> None \<and> content_size fl \<noteq> Some (of_nat (length out)) then Lz_err
                    else Lz_ok out))"

declare xxh32_stripes.simps [simp del] xxh32_words.simps [simp del] lz4_loop.simps [simp del] lz4_blocks.simps [simp del]

section \<open>Memory safety\<close>

lemma unat_bound: "unat (w :: 'a :: len word) < 2 ^ LENGTH('a)"
  by (rule unsigned_less)

lemma unat_ucast_wider:
  assumes "LENGTH('a) \<le> LENGTH('b)"
  shows "unat (ucast (w :: 'a :: len word) :: 'b :: len word) = unat w"
proof -
  have "(2 :: nat) ^ LENGTH('a) \<le> 2 ^ LENGTH('b)" by (rule power_increasing [OF assms]) simp
  then have "unat w < 2 ^ LENGTH('b)" using unat_bound [of w] by linarith
  then show ?thesis by (simp add: unsigned_ucast_eq take_bit_nat_eq_self)
qed

text \<open>A length read from the input is at most 255 times the bytes it takes.\<close>

lemma extend_len_bound:
  "extend_len n inp = Some (m, inp') \<Longrightarrow> unat n + 255 * length inp < 2 ^ 32 \<Longrightarrow> unat m + 255 * length inp' \<le> unat n + 255 * length inp"
proof (induction n inp rule: extend_len.induct)
  case (2 n e inp)
  have u: "unat (n + 255) = unat n + 255" using 2(3) by (simp add: unat_word_ariths)
  have "unat e < 256" using unat_bound [of e] by simp
  then have v: "unat (n + ucast e) = unat n + unat e" using 2(3)
    by (simp add: unat_word_ariths unat_ucast_wider)
  show ?case
  proof (cases "e = 255")
    case True
    then show ?thesis using 2 u by simp
  next
    case False
    then show ?thesis using 2(2) v \<open>unat e < 256\<close> by auto
  qed
qed simp

text \<open>Without wrap-around the checks are the checks on the numbers.\<close>

lemma past_input_iff:
  assumes "length inp \<le> unat ip_end" "unat ip_end + unat n < 2 ^ 32"
  shows "past_input ip_end inp n = (length inp < unat n)"
proof -
  have l: "unat (of_nat (length inp) :: u32) = length inp"
    by (rule unat_of_nat_small) (use assms(1) unat_bound [of ip_end] in simp)
  have "unat (ip_end - of_nat (length inp)) = unat ip_end - length inp"
    using l assms(1) by (simp add: unat_sub word_le_nat_alt)
  moreover have "unat (ip_end - of_nat (length inp) + n) = unat (ip_end - of_nat (length inp)) + unat n"
    by (rule unat_add_lem [THEN iffD1]) (use assms calculation in simp)
  ultimately show ?thesis using assms(1) by (auto simp: past_input_def word_less_nat_alt)
qed

lemma past_output_iff:
  assumes "unat dst + cap < 2 ^ 32" "op_end = dst + of_nat cap" "length out \<le> cap" "unat dst + length out + unat n < 2 ^ 32"
  shows "past_output dst op_end out n = (cap < length out + unat n)" "no_room dst op_end out n = (cap < length out + unat n)"
proof -
  have c: "unat (of_nat cap :: u32) = cap" "unat (of_nat (length out) :: u32) = length out"
    using assms by (simp_all add: unat_of_nat_small)
  have e: "unat op_end = unat dst + cap" using assms(1,2) c by (simp add: unat_word_ariths)
  have "unat (dst + of_nat (length out)) = unat dst + length out" using assms c by (simp add: unat_word_ariths)
  then have "unat (dst + of_nat (length out) + n) = unat dst + length out + unat n"
    using assms(4) by (simp add: unat_word_ariths)
  then show "past_output dst op_end out n = (cap < length out + unat n)" using e by (simp add: past_output_def word_less_nat_alt)
  show "no_room dst op_end out n = (cap < length out + unat n)" using e by (simp add: no_room_def)
qed

lemma length_copy_match [simp]: "length (copy_match off n out) = length out + n"
  by (induction off n out rule: copy_match.induct) auto

text \<open>The bounds under which nothing wraps: every input byte adds at most 255 to a length.\<close>

definition roomy :: "u32 \<Rightarrow> u32 \<Rightarrow> nat \<Rightarrow> nat \<Rightarrow> bool" where
  "roomy ip_end dst cap n \<longleftrightarrow> n \<le> unat ip_end \<and> unat ip_end + 256 * (n + 1) < 2 ^ 32 \<and> unat dst + cap + 256 * (n + 1) < 2 ^ 32 \<and>
     65536 \<le> unat dst"

lemma roomy_mono: "roomy ip_end dst cap n \<Longrightarrow> m \<le> n \<Longrightarrow> roomy ip_end dst cap m"
  by (auto simp: roomy_def)

lemma len_part_bound:
  assumes "unat n \<le> 15" "(if c then extend_len n inp else Some (n, inp)) = Some (m, inp')" "256 * (length inp + 1) < 2 ^ 32"
  shows "unat m \<le> 15 + 255 * length inp" "length inp' \<le> length inp"
  using assms extend_len_bound [of n inp m inp'] extend_len_shorter [of n inp m inp'] by (auto split: if_splits)

lemma nibble_bound: "unat (ucast (drop_bit 4 (t :: u8)) :: u32) \<le> 15" "unat (ucast (t AND 0xF) :: u32) \<le> 15"
proof -
  have "unat (drop_bit 4 t) \<le> 15" using unat_bound [of t] by (simp add: drop_bit_eq_div unat_div_distrib)
  then show "unat (ucast (drop_bit 4 t) :: u32) \<le> 15" by (simp add: unat_ucast_wider)
  have "t AND 0xF \<le> 0xF" by (rule word_and_le1)
  then show "unat (ucast (t AND 0xF) :: u32) \<le> 15" by (simp add: unat_ucast_wider word_le_nat_alt)
qed

lemma lit_part_safe:
  assumes r: "roomy ip_end dst cap (length inp)" and e: "op_end = dst + of_nat cap" and out: "length out \<le> cap"
  shows "lit_part ip_end dst op_end inp out \<noteq> Lz_oob \<and>
    (\<forall>t inp' out'. lit_part ip_end dst op_end inp out = Lz_ok (t, inp', out') \<longrightarrow> length out' \<le> cap)"
proof (cases inp)
  case (Cons t rest)
  let ?l = "if ucast (drop_bit 4 t) = (15 :: u32) then extend_len (ucast (drop_bit 4 t)) rest else Some (ucast (drop_bit 4 t), rest)"
  show ?thesis
  proof (cases ?l)
    case (Some p)
    obtain n inp1 where p: "p = (n, inp1)" by (cases p)
    have b: "unat n \<le> 15 + 255 * length rest" "length inp1 \<le> length rest"
      using len_part_bound [OF nibble_bound(1) Some [unfolded p]] r Cons by (auto simp: roomy_def)
    have i: "past_input ip_end inp1 n = (length inp1 < unat n)"
      by (rule past_input_iff) (use r b Cons in \<open>auto simp: roomy_def\<close>)
    note o = past_output_iff [of dst cap op_end out n]
    have o': "past_output dst op_end out n = (cap < length out + unat n)" "no_room dst op_end out n = (cap < length out + unat n)"
      by (rule o; use r b e out Cons in \<open>auto simp: roomy_def\<close>)+
    show ?thesis using Some p i o' Cons by (auto simp: lit_part_def Let_def)
  qed (simp add: lit_part_def Let_def Cons)
qed (simp add: lit_part_def)

lemma offset_bound: "unat (ucast (a :: u8) OR push_bit 8 (ucast (b :: u8)) :: u32) < 65536"
proof -
  have ab: "unat a < 256" "unat b < 256" using unat_bound [of a] unat_bound [of b] by simp_all
  then have u: "unat (ucast b :: u32) = unat b" "unat (ucast a :: u32) = unat a" by (simp_all add: unat_ucast_wider)
  have "unat (push_bit 8 (ucast b) :: u32) = 256 * unat b"
    using ab u by (simp add: push_bit_eq_mult unat_word_ariths)
  then have l: "unat (push_bit 8 (ucast b) :: u32) < 2 ^ 16" "unat (ucast a :: u32) < 2 ^ 16"
    using ab u by simp_all
  have or_less: "x OR y < 2 ^ 16" if "x < 2 ^ 16" "y < 2 ^ 16" for x y :: nat
  proof -
    have "int (x OR y) < 2 ^ 16" unfolding of_nat_or_eq by (rule OR_upper) (use that in auto)
    then show ?thesis by simp
  qed
  show ?thesis using or_less [OF l(2,1)] by (simp add: unsigned_or_eq)
qed

lemma match_part_safe:
  assumes r: "roomy ip_end dst cap (length inp)" and e: "op_end = dst + of_nat cap" and out: "length out \<le> cap"
  shows "match_part ip_end dst op_end t inp out \<noteq> Lz_oob \<and>
    (\<forall>inp' out'. match_part ip_end dst op_end t inp out = Lz_ok (inp', out') \<longrightarrow> length out' \<le> cap)"
proof -
  define off where "off = (ucast (inp ! 0) OR push_bit 8 (ucast (inp ! Suc 0)) :: u32)"
  have off: "unat off < 65536" unfolding off_def by (rule offset_bound)
  have i: "past_input ip_end inp 2 = (length inp < 2)"
    using past_input_iff [of inp ip_end 2] r by (auto simp: roomy_def)
  have d: "(dst + of_nat (length out) - off < dst) = (length out < unat off)"
  proof -
    have o: "unat (dst + of_nat (length out)) = unat dst + length out"
      using r out by (simp add: unat_word_ariths roomy_def unat_of_nat_small)
    then have "unat (dst + of_nat (length out) - off) = unat dst + length out - unat off"
      using off r by (simp add: unat_sub word_le_nat_alt roomy_def)
    then show ?thesis using off r by (auto simp: word_less_nat_alt roomy_def)
  qed
  let ?l = "if ucast (t AND 0xF) = (15 :: u32) then extend_len (ucast (t AND 0xF)) (drop 2 inp) else Some (ucast (t AND 0xF), drop 2 inp)"
  show ?thesis
  proof (cases ?l)
    case (Some p)
    obtain n inp1 where p: "p = (n, inp1)" by (cases p)
    have "256 * (length (drop 2 inp) + 1) < 2 ^ 32" using r unfolding roomy_def by simp linarith
    then have b: "unat n \<le> 15 + 255 * length inp"
      using len_part_bound(1) [OF nibble_bound(2) Some [unfolded p]] by simp
    then have n4: "unat (n + 4) = unat n + 4" using r by (simp add: roomy_def unat_word_ariths)
    have o: "past_output dst op_end out (n + 4) = (cap < length out + unat (n + 4))"
      "no_room dst op_end out (n + 4) = (cap < length out + unat (n + 4))"
      by (rule past_output_iff [of dst cap op_end out "n + 4"]; use r b e out n4 in \<open>auto simp: roomy_def\<close>)+
    show ?thesis using Some p i d o by (auto simp: match_part_def Let_def off_def [symmetric])
  qed (use i in \<open>auto simp: match_part_def Let_def off_def [symmetric]\<close>)
qed

lemma lz4_loop_safe:
  assumes "roomy ip_end dst cap (length inp)" "op_end = dst + of_nat cap" "length out \<le> cap"
  shows "lz4_loop ip_end dst op_end inp out \<noteq> Lz_oob \<and> (\<forall>out'. lz4_loop ip_end dst op_end inp out = Lz_ok out' \<longrightarrow> length out' \<le> cap)"
  using assms
proof (induction ip_end dst op_end inp out rule: lz4_loop.induct)
  case (1 ip_end dst op_end inp out)
  note l = lit_part_safe [OF 1(2-4)]
  show ?case
  proof (cases "lit_part ip_end dst op_end inp out")
    case (Lz_ok p)
    obtain t inp1 out1 where p: "p = (t, inp1, out1)" by (cases p)
    note ok = Lz_ok [unfolded p]
    have r1: "roomy ip_end dst cap (length inp1)" using roomy_mono [OF 1(2)] lit_part_shorter [OF ok] by simp
    have o1: "length out1 \<le> cap" using l ok by blast
    note m = match_part_safe [OF r1 1(3) o1, of t]
    show ?thesis
    proof (cases "inp1 = []")
      case True
      then show ?thesis using ok o1 by (simp add: lz4_loop.simps)
    next
      case False
      show ?thesis
      proof (cases "match_part ip_end dst op_end t inp1 out1")
        case (Lz_ok q)
        obtain inp2 out2 where q: "q = (inp2, out2)" by (cases q)
        note ok2 = Lz_ok [unfolded q]
        have r2: "roomy ip_end dst cap (length inp2)" using roomy_mono [OF r1] match_part_shorter [OF ok2] by simp
        have o2: "length out2 \<le> cap" using m ok2 by blast
        have "lz4_loop ip_end dst op_end inp out = lz4_loop ip_end dst op_end inp2 out2"
          using ok ok2 False by (simp add: lz4_loop.simps [of ip_end dst op_end inp])
        then show ?thesis using 1(1) [OF ok refl refl False ok2 refl r2 1(3) o2] by simp
      qed (use ok m False in \<open>simp_all add: lz4_loop.simps [of ip_end dst op_end inp]\<close>)
    qed
  qed (use l in \<open>simp_all add: lz4_loop.simps [of ip_end dst op_end inp]\<close>)
qed

text \<open>One block of a frame, and all of them. \<open>n\<close> is the length of the whole frame.\<close>

definition frame_room :: "u32 \<Rightarrow> u32 \<Rightarrow> u32 \<Rightarrow> nat \<Rightarrow> bool" where
  "frame_room ip_end dst dst_cap n \<longleftrightarrow> roomy ip_end dst (unat dst_cap) n \<and> unat ip_end + unat dst_cap < 2 ^ 32"

lemma block_safe:
  assumes r: "frame_room ip_end dst dst_cap (length inp)" and out: "length out \<le> unat dst_cap"
    and src: "src = ip_end - of_nat (length inp)" and n: "\<not> past_input ip_end inp n"
  shows "lz4_decompress_block src inp n (dst + of_nat (length out)) (dst_cap - of_nat (length out)) \<noteq> Lz_oob \<and>
    (\<forall>bytes. lz4_decompress_block src inp n (dst + of_nat (length out)) (dst_cap - of_nat (length out)) = Lz_ok bytes \<longrightarrow>
      length out + length bytes \<le> unat dst_cap)"
proof (cases "src + n \<le> src")
  case False
  have L: "unat (of_nat (length inp) :: u32) = length inp" "unat (of_nat (length out) :: u32) = length out"
    using r out by (simp_all add: frame_room_def roomy_def unat_of_nat_small)
  have s: "unat src = unat ip_end - length inp" using src L r by (simp add: unat_sub word_le_nat_alt frame_room_def roomy_def)
  have "src + n \<le> ip_end" using n src by (simp add: past_input_def)
  moreover have sn: "unat (src + n) = unat src + unat n"
    using False by (metis linorder_not_le unat_plus_simple word_le_less_eq)
  ultimately have len: "unat n \<le> length inp" using s r by (simp add: word_le_nat_alt frame_room_def roomy_def)
  let ?cap = "unat dst_cap - length out"
  have d: "unat (dst + of_nat (length out)) = unat dst + length out" using r out L by (simp add: unat_word_ariths frame_room_def roomy_def)
  have rm: "roomy (src + n) (dst + of_nat (length out)) ?cap (length (take (unat n) inp))"
    using r out len s sn d unfolding roomy_def frame_room_def by simp linarith
  have e: "dst + of_nat (length out) + (dst_cap - of_nat (length out)) = dst + of_nat (length out) + of_nat ?cap"
    using out by (simp add: of_nat_diff)
  show ?thesis using lz4_loop_safe [OF rm e, of "[]"] False len out by (auto simp: lz4_decompress_block_def)
qed (simp add: lz4_decompress_block_def)

lemma data_block_safe:
  assumes r: "frame_room ip_end dst dst_cap (length inp)" and out: "length out \<le> unat dst_cap"
  shows "lz4_data_block ip_end dst dst_cap w inp out \<noteq> Lz_oob \<and>
    (\<forall>inp' out'. lz4_data_block ip_end dst dst_cap w inp out = Lz_ok (inp', out') \<longrightarrow> length out' \<le> unat dst_cap)"
proof (cases "past_input ip_end inp (w AND 0x7FFFFFFF)")
  case False
  define n where "n = w AND 0x7FFFFFFF"
  note f = False [folded n_def]
  have "n \<le> 0x7FFFFFFF" unfolding n_def by (rule word_and_le1)
  then have n31: "unat n < 2 ^ 31" by (simp add: word_le_nat_alt)
  note b = block_safe [OF r out refl f]
  have L: "unat (of_nat (length out) :: u32) = length out" using r out by (simp add: frame_room_def roomy_def unat_of_nat_small)
  have raw: "length inp < unat n \<or> unat dst_cap < length out + unat n \<longrightarrow> dst_cap < of_nat (length out) + n"
  proof (cases "unat ip_end + unat n < 2 ^ 32")
    case True
    then have "unat n \<le> length inp" using f r past_input_iff [of inp ip_end n] by (simp add: frame_room_def roomy_def)
    moreover from this have "unat (of_nat (length out) + n) = length out + unat n"
      using r out L by (simp add: unat_word_ariths frame_room_def roomy_def)
    ultimately show ?thesis using out by (auto simp: word_less_nat_alt)
  next
    case False
    then have "unat dst_cap < unat n" using r by (simp add: frame_room_def)
    moreover from this have "unat (of_nat (length out) + n) = length out + unat n"
      using n31 out L by (simp add: unat_word_ariths)
    ultimately show ?thesis by (auto simp: word_less_nat_alt)
  qed
  show ?thesis using b f raw
    by (auto simp: lz4_data_block_def Let_def n_def [symmetric] split: lz4_result.splits)
qed (simp add: lz4_data_block_def)

lemma blocks_safe:
  assumes "frame_room ip_end dst dst_cap (length inp)" "length out \<le> unat dst_cap"
  shows "lz4_blocks c ip_end dst dst_cap inp out \<noteq> Lz_oob \<and>
    (\<forall>inp' out'. lz4_blocks c ip_end dst dst_cap inp out = Lz_ok (inp', out') \<longrightarrow>
      length out' \<le> unat dst_cap \<and> frame_room ip_end dst dst_cap (length inp'))"
  using assms
proof (induction c ip_end dst dst_cap inp out rule: lz4_blocks.induct)
  case (1 c ip_end dst dst_cap inp out)
  have mono: "frame_room ip_end dst dst_cap m" if "m \<le> length inp" for m
    using 1(3) roomy_mono that by (auto simp: frame_room_def)
  have past: "past_input ip_end xs 4 = (length xs < 4)" if "length xs \<le> length inp" for xs
    using past_input_iff [of xs ip_end 4] mono [OF that] by (auto simp: frame_room_def roomy_def)
  show ?case
  proof (cases "length inp < 4 \<or> read_le32 inp = 0")
    case True
    then show ?thesis using past [of inp] 1(4) mono [of "length inp - 4"] by (auto simp: lz4_blocks.simps [of c ip_end dst dst_cap inp])
  next
    case False
    note d = data_block_safe [OF mono, of "drop 4 inp" out "read_le32 inp"]
    show ?thesis
    proof (cases "lz4_data_block ip_end dst dst_cap (read_le32 inp) (drop 4 inp) out")
      case (Lz_ok p)
      obtain inp1 out1 where p: "p = (inp1, out1)" by (cases p)
      note ok = Lz_ok [unfolded p]
      have len: "length inp1 \<le> length inp" using lz4_data_block_shorter [OF ok] by simp
      have o1: "length out1 \<le> unat dst_cap" using d ok 1(4) by simp
      have np: "\<not> past_input ip_end inp 4" using past [of inp] False by simp
      have f4: "\<not> length inp < 4" "read_le32 inp \<noteq> 0" using False by auto
      note eq = lz4_blocks.simps [of c ip_end dst dst_cap inp out]
      show ?thesis
      proof (cases c)
        case False
        have "lz4_blocks c ip_end dst dst_cap inp out = lz4_blocks c ip_end dst dst_cap inp1 out1"
          using eq ok np f4 False by simp
        then show ?thesis using 1(1) [OF np f4 ok refl _ mono [OF len] o1] False by simp
      next
        case True
        show ?thesis
        proof (cases "length inp1 < 4")
          case False
          have np1: "\<not> past_input ip_end inp1 4" using past [OF len] False by simp
          have "lz4_blocks c ip_end dst dst_cap inp out = lz4_blocks c ip_end dst dst_cap (drop 4 inp1) out1"
            using eq ok np f4 True False np1 by simp
          then show ?thesis using 1(2) [OF np f4 ok refl _ np1 False mono o1] True len by simp
        qed (use eq ok np f4 True past [OF len] in simp)
      qed
    qed (use d False 1(4) past [of inp] in \<open>auto simp: lz4_blocks.simps [of c ip_end dst dst_cap inp]\<close>)
  qed
qed

lemma descriptor_safe:
  assumes r: "frame_room ip_end dst dst_cap (length desc)"
  shows "lz4_descriptor ip_end desc \<noteq> Lz_oob \<and>
    (\<forall>fl inp. lz4_descriptor ip_end desc = Lz_ok (fl, inp) \<longrightarrow> length inp \<le> length desc)"
proof -
  have past: "past_input ip_end xs n = (length xs < unat n)" if "length xs \<le> length desc" "unat n \<le> 8" for xs n
    using past_input_iff [of xs ip_end n] r that by (auto simp: frame_room_def roomy_def)
  show ?thesis by (auto simp: lz4_descriptor_def Let_def past split: if_splits)
qed

text \<open>
  C27. The decompressor stays inside its buffers. If the addresses leave room, so that no pointer plus a length the
  input can encode wraps around (256 bytes for each byte of input, the size of the output buffer behind the input, and
  64 KB in front of the output), then for every input, however damaged, \<^verbatim>\<open>lz4_decompress_frame\<close> reads no byte behind the
  input, writes none behind the output buffer and reads none in front of it; it returns an error or at most \<^verbatim>\<open>dst_cap\<close> bytes.
\<close>

theorem lz4_decompress_frame_safe:
  assumes "unat src + 257 * length bytes + 256 < 2 ^ 32" "unat dst + unat dst_cap + 256 * length bytes + 256 < 2 ^ 32"
    "65536 \<le> unat dst" "unat src + length bytes + unat dst_cap < 2 ^ 32"
  shows "lz4_decompress_frame src bytes dst dst_cap = Lz_err \<or>
    (\<exists>out. lz4_decompress_frame src bytes dst dst_cap = Lz_ok out \<and> length out \<le> unat dst_cap)"
proof -
  let ?e = "src + of_nat (length bytes)"
  have "unat (of_nat (length bytes) :: u32) = length bytes" by (rule unat_of_nat_small) (use assms(1) in simp)
  then have e: "unat ?e = unat src + length bytes" using assms(1) by (simp add: unat_word_ariths)
  have r: "frame_room ?e dst dst_cap m" if "m \<le> length bytes" for m
    unfolding frame_room_def roomy_def e using assms that by auto
  have past: "past_input ?e xs 4 = (length xs < 4)" if "frame_room ?e dst dst_cap (length xs)" for xs
    using past_input_iff [of xs ?e 4] that by (auto simp: frame_room_def roomy_def)
  note d = descriptor_safe [OF r, of "drop 4 bytes"]
  show ?thesis
  proof (cases "lz4_descriptor ?e (drop 4 bytes)")
    case (Lz_ok p)
    obtain fl inp where p: "p = (fl, inp)" by (cases p)
    have "length inp \<le> length bytes" using d Lz_ok p by simp
    note b = blocks_safe [OF r [OF this], of "[]" "block_checksum fl"]
    show ?thesis
    proof (cases "lz4_blocks (block_checksum fl) ?e dst dst_cap inp []")
      case (Lz_ok q)
      obtain inp1 out where q: "q = (inp1, out)" by (cases q)
      have "length out \<le> unat dst_cap" "frame_room ?e dst dst_cap (length inp1)" using b Lz_ok q by simp_all
      then show ?thesis using Lz_ok q p \<open>lz4_descriptor ?e (drop 4 bytes) = Lz_ok p\<close> past [of inp1]
        by (auto simp: lz4_decompress_frame_def Let_def)
    qed (use b p \<open>lz4_descriptor ?e (drop 4 bytes) = Lz_ok p\<close> in \<open>auto simp: lz4_decompress_frame_def Let_def\<close>)
  qed (use d in \<open>auto simp: lz4_decompress_frame_def Let_def\<close>)
qed

lemma lz4_decompress_frame_safe_witness:
  "lz4_decompress_frame 0xC1000000 [4, 34, 77, 24, 96, 64, 130, 3, 0, 0, 128, 1, 2, 3, 0, 0, 0, 0] 0xC2000000 8 = Lz_err \<or>
    (\<exists>out. lz4_decompress_frame 0xC1000000 [4, 34, 77, 24, 96, 64, 130, 3, 0, 0, 128, 1, 2, 3, 0, 0, 0, 0] 0xC2000000 8 = Lz_ok out \<and>
      length out \<le> unat (8 :: u32))"
  by (rule lz4_decompress_frame_safe) simp_all

section \<open>The block format\<close>

text \<open>
  A block is a list of sequences, each some literals and a match (an offset back and a length), and the last literals. \<open>block_bytes\<close>
  is its coding as the format describes it, \<open>block_text\<close> the text it stands for.
\<close>

type_synonym lz_seq = "u8 list \<times> nat \<times> nat"

definition nibble :: "nat \<Rightarrow> nat" where
  "nibble n = (if n < 15 then n else 15)"

definition len_bytes :: "nat \<Rightarrow> u8 list" where
  "len_bytes n = (if n < 15 then [] else replicate ((n - 15) div 255) 255 @ [of_nat ((n - 15) mod 255)])"

definition token :: "nat \<Rightarrow> nat \<Rightarrow> u8" where
  "token a b = of_nat (nibble a * 16 + nibble b)"

fun seq_bytes :: "lz_seq \<Rightarrow> u8 list" where
  "seq_bytes (lits, off, ml) =
     token (length lits) (ml - 4) # len_bytes (length lits) @ lits @ [of_nat (off mod 256), of_nat (off div 256)] @ len_bytes (ml - 4)"

definition block_bytes :: "lz_seq list \<Rightarrow> u8 list \<Rightarrow> u8 list" where
  "block_bytes seqs lits = concat (map seq_bytes seqs) @ token (length lits) 0 # len_bytes (length lits) @ lits"

fun block_text :: "lz_seq list \<Rightarrow> u8 list \<Rightarrow> u8 list \<Rightarrow> u8 list" where
  "block_text [] fin out = out @ fin"
| "block_text ((lits, off, ml) # seqs) fin out = block_text seqs fin (copy_match off ml (out @ lits))"

fun seqs_ok :: "lz_seq list \<Rightarrow> nat \<Rightarrow> bool" where
  "seqs_ok [] n = True"
| "seqs_ok ((lits, off, ml) # seqs) n =
     (0 < off \<and> off < 65536 \<and> off \<le> n + length lits \<and> 4 \<le> ml \<and> seqs_ok seqs (n + length lits + ml))"

lemma length_block_text: "length out \<le> length (block_text seqs fin out)"
proof (induction seqs fin out rule: block_text.induct)
  case (2 lits off ml seqs fin out)
  then show ?case by simp
qed simp

lemma ucast_of_unat: "ucast w = of_nat (unat w)"
  by simp

lemma extend_len_coded:
  "15 \<le> k \<Longrightarrow> extend_len 15 (len_bytes k @ rest) = Some (of_nat k, rest)"
proof -
  assume k: "15 \<le> k"
  have step: "extend_len n (replicate j 255 @ x # rest) = Some (n + of_nat (255 * j) + ucast x, rest)" if "x \<noteq> 255" for j n x
    using that by (induction j arbitrary: n) (auto simp: algebra_simps)
  let ?x = "of_nat ((k - 15) mod 255) :: u8"
  have u: "unat ?x = (k - 15) mod 255" by (rule unat_of_nat_small) (use mod_less_divisor [of 255 "k - 15"] in simp)
  then have "?x \<noteq> 255" using mod_less_divisor [of 255 "k - 15"] by auto
  note s = step [OF this, of 15 "(k - 15) div 255"]
  have "(ucast ?x :: u32) = of_nat ((k - 15) mod 255)" using ucast_of_unat [of ?x] u by simp
  then have "15 + of_nat (255 * ((k - 15) div 255)) + ucast ?x = (of_nat (15 + (255 * ((k - 15) div 255) + (k - 15) mod 255)) :: u32)"
    by (simp only: of_nat_add of_nat_numeral add.assoc)
  also have "15 + (255 * ((k - 15) div 255) + (k - 15) mod 255) = k" using k by (simp only: mult_div_mod_eq)
  finally show ?thesis using s k by (simp add: len_bytes_def)
qed

lemma token_parts:
  "ucast (drop_bit 4 (token a b)) = (of_nat (nibble a) :: u32)" "ucast (token a b AND 0xF) = (of_nat (nibble b) :: u32)"
proof -
  have n: "nibble a < 16" "nibble b < 16" by (auto simp: nibble_def)
  then have t: "unat (token a b) = nibble a * 16 + nibble b" unfolding token_def by (intro unat_of_nat_small) simp
  have "unat (drop_bit 4 (token a b)) = nibble a" using t n by (simp add: drop_bit_eq_div unat_div_distrib)
  then show "ucast (drop_bit 4 (token a b)) = (of_nat (nibble a) :: u32)" by (metis ucast_of_unat)
  have "token a b AND 0xF = take_bit 4 (token a b)" by (simp add: take_bit_eq_mask mask_eq_exp_minus_1)
  then have "unat (token a b AND 0xF) = nibble b" using t n by (simp add: take_bit_eq_mod unat_mod_distrib)
  then show "ucast (token a b AND 0xF) = (of_nat (nibble b) :: u32)" by (metis ucast_of_unat)
qed


text \<open>The length of a nibble and the bytes that extend it.\<close>

lemma len_coded:
  assumes "n = (of_nat (nibble k) :: u32)" "k < 2 ^ 32"
  shows "(if n = 15 then extend_len n (len_bytes k @ rest) else Some (n, len_bytes k @ rest)) = Some (of_nat k, rest)"
proof (cases "k < 15")
  case True
  then have "n \<noteq> 15" using assms of_nat_word_eq_iff [of k 15, where 'a = 32] by (auto simp: nibble_def)
  then show ?thesis using True assms by (simp add: nibble_def len_bytes_def)
next
  case False
  then show ?thesis using assms extend_len_coded [of k rest] by (simp add: nibble_def)
qed

lemma past_input_fits:
  assumes "unat n \<le> length inp" "length inp \<le> unat ip_end"
  shows "\<not> past_input ip_end inp n"
proof -
  have "unat (of_nat (length inp) :: u32) = length inp"
    by (rule unat_of_nat_small) (use assms(2) unat_bound [of ip_end] in simp)
  then have d: "unat (ip_end - of_nat (length inp)) = unat ip_end - length inp"
    using assms(2) by (simp add: unat_sub word_le_nat_alt)
  have "unat (ip_end - of_nat (length inp) + n) = unat (ip_end - of_nat (length inp)) + unat n"
    by (rule unat_add_lem [THEN iffD1]) (use assms d unat_bound [of ip_end] in simp)
  then show ?thesis using d assms by (simp add: past_input_def word_less_nat_alt)
qed

lemma lit_coded:
  assumes inp: "inp = token (length lits) m # len_bytes (length lits) @ lits @ rest" "length inp \<le> unat ip_end"
    and cap: "unat dst + cap < 2 ^ 32" "op_end = dst + of_nat cap" "length out + length lits \<le> cap"
  shows "lit_part ip_end dst op_end inp out = Lz_ok (token (length lits) m, rest, out @ lits)"
proof -
  have l32: "length lits < 2 ^ 32" using cap by linarith
  then have u: "unat (of_nat (length lits) :: u32) = length lits" by (intro unat_of_nat_small) simp
  have "\<not> past_input ip_end (lits @ rest) (of_nat (length lits))"
    by (rule past_input_fits) (use u inp in simp_all)
  moreover have "\<not> past_output dst op_end out (of_nat (length lits))" "\<not> no_room dst op_end out (of_nat (length lits))"
    using past_output_iff [of dst cap op_end out "of_nat (length lits)"] cap u by simp_all
  ultimately show ?thesis
    using len_coded [OF token_parts(1) l32, of m "lits @ rest"] u by (simp add: lit_part_def inp Let_def)
qed

lemma offset_coded:
  assumes "off < 65536"
  shows "ucast (of_nat (off mod 256) :: u8) OR push_bit 8 (ucast (of_nat (off div 256) :: u8)) = (of_nat off :: u32)"
proof -
  have "take_bit 16 off = off" using assms by (simp add: take_bit_nat_eq_self)
  then have b: "n < 16" if "bit off n" for n using that by (metis bit_take_bit_iff)
  have "ucast (of_nat (take_bit 8 off) :: u8) OR push_bit 8 (ucast (of_nat (drop_bit 8 off) :: u8)) = (of_nat off :: u32)"
    by (rule bit_word_eqI) (auto simp: bit_simps dest: b)
  then show ?thesis by (simp add: take_bit_eq_mod drop_bit_eq_div)
qed

lemma match_coded:
  assumes inp: "inp = of_nat (off mod 256) # of_nat (off div 256) # len_bytes (ml - 4) @ rest" "length inp \<le> unat ip_end"
    and off: "0 < off" "off < 65536" "off \<le> length out" "4 \<le> ml"
    and cap: "unat dst + cap < 2 ^ 32" "op_end = dst + of_nat cap" "length out + ml \<le> cap"
  shows "match_part ip_end dst op_end (token k (ml - 4)) inp out = Lz_ok (rest, copy_match off ml out)"
proof -
  have m32: "ml - 4 < 2 ^ 32" using cap by linarith
  have ml: "of_nat (ml - 4) + 4 = (of_nat ml :: u32)" using off(4) by (simp add: of_nat_diff)
  have u: "unat (of_nat ml :: u32) = ml" "unat (of_nat off :: u32) = off" using cap off by (simp_all add: unat_of_nat_small)
  have "\<not> past_input ip_end inp 2" by (rule past_input_fits) (use inp in simp_all)
  moreover have "of_nat off \<noteq> (0 :: u32)" using u(2) off(1) by (metis less_not_refl2 unat_0)
  moreover have "\<not> dst + of_nat (length out) - of_nat off < dst"
  proof -
    have "unat (dst + of_nat (length out)) = unat dst + length out"
      using cap by (simp add: unat_word_ariths unat_of_nat_small)
    then have "unat (dst + of_nat (length out) - of_nat off) = unat dst + length out - off"
      using u(2) off(3) by (simp add: unat_sub word_le_nat_alt)
    then show ?thesis using off(3) by (simp add: word_less_nat_alt)
  qed
  moreover have "\<not> past_output dst op_end out (of_nat ml)" "\<not> no_room dst op_end out (of_nat ml)"
    using past_output_iff [of dst cap op_end out "of_nat ml"] cap u by simp_all
  ultimately show ?thesis
    using len_coded [OF token_parts(2) m32, of k rest] u off offset_coded [OF off(2)] ml
    by (simp add: match_part_def inp Let_def)
qed

lemma lz4_loop_coded:
  assumes "seqs_ok seqs (length out)" "length (block_text seqs lits out) \<le> cap"
    "length (block_bytes seqs lits) \<le> unat ip_end" "unat dst + cap < 2 ^ 32" "op_end = dst + of_nat cap"
  shows "lz4_loop ip_end dst op_end (block_bytes seqs lits) out = Lz_ok (block_text seqs lits out)"
  using assms
proof (induction seqs arbitrary: out)
  case Nil
  then show ?case
    using lit_coded [of "block_bytes [] lits" lits 0 "[]" ip_end dst cap op_end out]
    by (subst lz4_loop.simps) (simp add: block_bytes_def)
next
  case (Cons q seqs)
  obtain l off ml where q: "q = (l, off, ml)" by (cases q)
  let ?rest = "block_bytes seqs lits"
  let ?m = "of_nat (off mod 256) # of_nat (off div 256) # len_bytes (ml - 4) @ ?rest"
  have b: "block_bytes (q # seqs) lits = token (length l) (ml - 4) # len_bytes (length l) @ l @ ?m"
    by (simp add: block_bytes_def q)
  have ok: "0 < off" "off < 65536" "off \<le> length (out @ l)" "4 \<le> ml" "seqs_ok seqs (length (copy_match off ml (out @ l)))"
    using Cons.prems(1) by (simp_all add: q add.assoc)
  have tx: "block_text (q # seqs) lits out = block_text seqs lits (copy_match off ml (out @ l))" by (simp add: q)
  have len: "length (copy_match off ml (out @ l)) \<le> cap"
    using Cons.prems(2) length_block_text [of "copy_match off ml (out @ l)" seqs lits] tx by simp
  have lp: "lit_part ip_end dst op_end (block_bytes (q # seqs) lits) out = Lz_ok (token (length l) (ml - 4), ?m, out @ l)"
    by (rule lit_coded [OF b]) (use Cons.prems len in auto)
  have mp: "match_part ip_end dst op_end (token (length l) (ml - 4)) ?m (out @ l) = Lz_ok (?rest, copy_match off ml (out @ l))"
    by (rule match_coded [OF refl]) (use Cons.prems b ok len in auto)
  have "lz4_loop ip_end dst op_end (block_bytes (q # seqs) lits) out = lz4_loop ip_end dst op_end ?rest (copy_match off ml (out @ l))"
    using lp mp by (simp add: lz4_loop.simps [of ip_end dst op_end "block_bytes (q # seqs) lits"])
  also have "\<dots> = Lz_ok (block_text seqs lits (copy_match off ml (out @ l)))"
    by (rule Cons.IH) (use Cons.prems ok tx b in auto)
  finally show ?case using tx by simp
qed

text \<open>
  C28. Decompression inverts the coding of the format: for every block of literals and matches that refer to bytes already
  written, overlapping matches included, \<^verbatim>\<open>lz4_decompress_block\<close> of its coding is the text it stands for, if the text fits into
  the output buffer.
\<close>

theorem lz4_block_roundtrip:
  assumes "seqs_ok seqs 0" "length (block_text seqs lits []) \<le> unat dst_cap"
    "unat src + length (block_bytes seqs lits) < 2 ^ 32" "unat dst + unat dst_cap < 2 ^ 32"
  shows "lz4_decompress_block src (block_bytes seqs lits) (of_nat (length (block_bytes seqs lits))) dst dst_cap =
    Lz_ok (block_text seqs lits [])"
proof -
  let ?n = "length (block_bytes seqs lits)"
  have n: "unat (of_nat ?n :: u32) = ?n" by (rule unat_of_nat_small) (use assms(3) in simp)
  have c: "dst_cap = of_nat (unat dst_cap)" by (metis ucast_id ucast_of_unat)
  have pos: "0 < ?n" by (simp add: block_bytes_def)
  have e: "unat (src + of_nat ?n) = unat src + ?n" using assms(3) n by (simp add: unat_word_ariths)
  then have "\<not> src + of_nat ?n \<le> src" using pos by (simp add: word_le_nat_alt)
  moreover have "lz4_loop (src + of_nat ?n) dst (dst + dst_cap) (block_bytes seqs lits) [] = Lz_ok (block_text seqs lits [])"
    by (rule lz4_loop_coded [where cap = "unat dst_cap"]) (use assms e c in simp_all)
  ultimately show ?thesis using n by (simp add: lz4_decompress_block_def)
qed

lemma lz4_block_roundtrip_witness:
  "lz4_decompress_block 0xC1000000 (block_bytes [([97, 98], 2, 6)] [99]) (of_nat (length (block_bytes [([97, 98], 2, 6)] [99]))) 0xC2000000 16 =
    Lz_ok [97, 98, 97, 98, 97, 98, 97, 98, 99]"
proof -
  have t: "block_text [([97, 98], 2, 6)] [99] [] = [97, 98, 97, 98, 97, 98, 97, 98, 99]" by code_simp
  have l: "length (block_bytes [([97, 98], 2, 6)] [99]) = 7" by code_simp
  show ?thesis
    using lz4_block_roundtrip [of "[([97, 98], 2, 6)]" "[99]" 16 "0xC1000000" "0xC2000000", unfolded t l] unfolding l by simp
qed

end
