(* ===== verification/Csprng.thy ===== *)
theory Csprng
  imports Kernel_Prelude
begin

unbundle bit_operations_syntax

text \<open>
  The random number generator \<^verbatim>\<open>src/kernel/csprng.c\<close>: a state of sixteen words that the rounds of ChaCha20 permute,
  and a pool that collects entropy. The time stamp counter and the tick count are arguments.
\<close>

section \<open>The code\<close>

record csprng =
  chacha :: "u32 list"
  counter :: u32
  initialized :: bool
  pool :: "u8 list"
  pool_pos :: nat
  reseed_counter :: u32

definition ROTL32 :: "u32 \<Rightarrow> nat \<Rightarrow> u32" where
  "ROTL32 x n = push_bit n x OR drop_bit (32 - n) x"

fun chacha_quarter_round :: "u32 \<times> u32 \<times> u32 \<times> u32 \<Rightarrow> u32 \<times> u32 \<times> u32 \<times> u32" where
  "chacha_quarter_round (a, b, c, d) =
     (let a = a + b; d = ROTL32 (d XOR a) 16;
          c = c + d; b = ROTL32 (b XOR c) 12;
          a = a + b; d = ROTL32 (d XOR a) 8;
          c = c + d; b = ROTL32 (b XOR c) 7
      in (a, b, c, d))"

text \<open>The quarter round on four places of the state.\<close>

definition quarter_at :: "nat \<times> nat \<times> nat \<times> nat \<Rightarrow> u32 list \<Rightarrow> u32 list" where
  "quarter_at = (\<lambda>(i, j, k, l) s.
     case chacha_quarter_round (s ! i, s ! j, s ! k, s ! l) of (a, b, c, d) \<Rightarrow> s[i := a, j := b, k := c, l := d])"

definition round_places :: "(nat \<times> nat \<times> nat \<times> nat) list" where
  "round_places =
     [(0, 4, 8, 12), (1, 5, 9, 13), (2, 6, 10, 14), (3, 7, 11, 15),
      (0, 5, 10, 15), (1, 6, 11, 12), (2, 7, 8, 13), (3, 4, 9, 14)]"

definition chacha20_block :: "u32 list \<Rightarrow> u32 list" where
  "chacha20_block s = ((\<lambda>s. fold quarter_at round_places s) ^^ 10) s"

definition entropy_mix :: "u8 list \<Rightarrow> csprng \<Rightarrow> csprng" where
  "entropy_mix bytes g =
     fold (\<lambda>b g. g\<lparr>pool := (pool g)[pool_pos g := pool g ! pool_pos g XOR b], pool_pos := (pool_pos g + 1) mod 64\<rparr>) bytes g"

definition golden :: u32 where "golden = 0x9E3779B9"

definition chacha_constant :: "u32 list" where
  "chacha_constant = [0x61707865, 0x3320646e, 0x79622d32, 0x6b206574]"

text \<open>The loop that fills the words from \<open>i\<close> to 15, and the time stamp it leaves behind.\<close>

function seed_words :: "nat \<Rightarrow> u64 \<Rightarrow> u32 \<Rightarrow> u32 list \<times> u64" where
  "seed_words i tsc ticks =
     (if 16 \<le> i then ([], tsc)
      else let mix = (tsc XOR push_bit 32 (ucast ticks)) + ucast (of_nat i * golden);
               w = ucast (mix XOR drop_bit 32 mix);
               tsc = tsc XOR (push_bit 13 mix OR drop_bit 51 mix);
               (ws, tsc) = seed_words (i + 1) tsc ticks
           in (w # ws, tsc))"
  by pat_completeness auto
termination by (relation "measure (\<lambda>(i, _, _). 16 - i)") auto

definition csprng_init :: "u64 \<Rightarrow> u32 \<Rightarrow> csprng \<Rightarrow> csprng" where
  "csprng_init tsc ticks g =
     (let (ws, tsc) = seed_words 4 tsc ticks in
      g\<lparr>chacha := chacha_constant @ ws, counter := 1, initialized := True,
        pool := map (\<lambda>i. ucast (drop_bit (i * 8) tsc)) [0..<8] @ map (\<lambda>i. ucast (ticks XOR (of_nat i * golden))) [8..<64],
        pool_pos := 0, reseed_counter := 0\<rparr>)"

definition pool_word :: "u8 list \<Rightarrow> nat \<Rightarrow> u32" where
  "pool_word p i = fold (\<lambda>j w. w OR push_bit (j * 8) (ucast (p ! ((i * 4 + j) mod 64)))) [0..<4] 0"

definition csprng_add_entropy :: "u8 list \<Rightarrow> csprng \<Rightarrow> csprng" where
  "csprng_add_entropy bytes g =
     (if bytes = [] then g
      else let g = entropy_mix bytes g;
               g = g\<lparr>reseed_counter := reseed_counter g + 1\<rparr>
           in if 256 \<le> reseed_counter g
              then g\<lparr>chacha := map (\<lambda>i. chacha g ! i XOR pool_word (pool g) i) [0..<16], reseed_counter := 0\<rparr>
              else g)"

text \<open>One byte of output, and the loop.\<close>

definition next_block :: "csprng \<Rightarrow> csprng" where
  "next_block g =
     (let g = g\<lparr>counter := counter g + 1\<rparr> in g\<lparr>chacha := chacha20_block ((chacha g)[12 := counter g])\<rparr>)"

definition byte_at :: "csprng \<Rightarrow> nat \<Rightarrow> u8" where
  "byte_at g i = ucast (drop_bit (i mod 4 * 8) (chacha g ! ((i mod 64 div 4) mod 16)))"

fun gen_loop :: "nat \<Rightarrow> nat \<Rightarrow> csprng \<Rightarrow> csprng \<times> u8 list" where
  "gen_loop i 0 g = (g, [])"
| "gen_loop i (Suc n) g =
     (let g = (if i mod 64 = 0 then next_block g else g);
          (g', out) = gen_loop (i + 1) n g
      in (g', byte_at g i # out))"

definition csprng_get_bytes :: "u64 \<Rightarrow> u32 \<Rightarrow> u64 \<Rightarrow> nat \<Rightarrow> csprng \<Rightarrow> csprng \<times> u8 list" where
  "csprng_get_bytes init_tsc ticks tsc len g =
     (if len = 0 then (g, [])
      else let g = (if \<not> initialized g then csprng_init init_tsc ticks g else g);
               g = g\<lparr>chacha := (chacha g)[12 := chacha g ! 12 XOR ucast tsc, 13 := chacha g ! 13 XOR ucast (drop_bit 32 tsc)]\<rparr>
           in gen_loop 0 len g)"

definition le_word :: "u8 list \<Rightarrow> 'a :: len word" where
  "le_word bs = foldr (\<lambda>b w. push_bit 8 w OR ucast b) bs 0"

definition csprng_get_u32 :: "u64 \<Rightarrow> u32 \<Rightarrow> u64 \<Rightarrow> csprng \<Rightarrow> csprng \<times> u32" where
  "csprng_get_u32 init_tsc ticks tsc g = map_prod id le_word (csprng_get_bytes init_tsc ticks tsc 4 g)"

definition csprng_get_u64 :: "u64 \<Rightarrow> u32 \<Rightarrow> u64 \<Rightarrow> csprng \<Rightarrow> csprng \<times> u64" where
  "csprng_get_u64 init_tsc ticks tsc g = map_prod id le_word (csprng_get_bytes init_tsc ticks tsc 8 g)"

declare seed_words.simps [simp del]

section \<open>The rounds can be undone\<close>

definition ROTR32 :: "u32 \<Rightarrow> nat \<Rightarrow> u32" where
  "ROTR32 x n = drop_bit n x OR push_bit (32 - n) x"

lemma rotr_rotl: "0 < n \<Longrightarrow> n < 32 \<Longrightarrow> ROTR32 (ROTL32 x n) n = x"
proof (rule bit_word_eqI)
  fix m assume "0 < n" "n < 32" "m < LENGTH(32)"
  then show "bit (ROTR32 (ROTL32 x n) n) m = bit x m"
    by (cases "n + m < 32") (auto simp: ROTR32_def ROTL32_def bit_simps)
qed

fun quarter_inv :: "u32 \<times> u32 \<times> u32 \<times> u32 \<Rightarrow> u32 \<times> u32 \<times> u32 \<times> u32" where
  "quarter_inv (a, b, c, d) =
     (let b = ROTR32 b 7 XOR c; c = c - d;
          d = ROTR32 d 8 XOR a; a = a - b;
          b = ROTR32 b 12 XOR c; c = c - d;
          d = ROTR32 d 16 XOR a; a = a - b
      in (a, b, c, d))"

lemma quarter_inv: "quarter_inv (chacha_quarter_round q) = q"
proof -
  obtain a b c d where q: "q = (a, b, c, d)" by (cases q)
  have x: "(x XOR y) XOR y = x" for x y :: u32 by (simp add: xor.assoc)
  show ?thesis unfolding q by (simp add: Let_def rotr_rotl x)
qed

definition quarter_at_inv :: "nat \<times> nat \<times> nat \<times> nat \<Rightarrow> u32 list \<Rightarrow> u32 list" where
  "quarter_at_inv = (\<lambda>(i, j, k, l) s. case quarter_inv (s ! i, s ! j, s ! k, s ! l) of (a, b, c, d) \<Rightarrow> s[i := a, j := b, k := c, l := d])"

lemma quarter_at_inv:
  assumes "distinct [i, j, k, l]" "i < length s" "j < length s" "k < length s" "l < length s"
  shows "quarter_at_inv (i, j, k, l) (quarter_at (i, j, k, l) s) = s"
proof -
  obtain a b c d where q: "chacha_quarter_round (s ! i, s ! j, s ! k, s ! l) = (a, b, c, d)" by (cases "chacha_quarter_round (s ! i, s ! j, s ! k, s ! l)")
  have inv: "quarter_inv (a, b, c, d) = (s ! i, s ! j, s ! k, s ! l)" using quarter_inv [of "(s ! i, s ! j, s ! k, s ! l)"] q by simp
  have "quarter_at (i, j, k, l) s = s[i := a, j := b, k := c, l := d]" by (simp add: quarter_at_def q del: chacha_quarter_round.simps)
  then have "quarter_at_inv (i, j, k, l) (quarter_at (i, j, k, l) s) = s[i := a, j := b, k := c, l := d, i := s ! i, j := s ! j, k := s ! k, l := s ! l]"
    using assms inv by (simp add: quarter_at_inv_def del: quarter_inv.simps)
  also have "\<dots> = s"
    by (rule nth_equalityI) (use assms in \<open>auto simp: nth_list_update\<close>)
  finally show ?thesis .
qed

lemma length_quarter_at [simp]: "length (quarter_at p s) = length s"
  by (auto simp: quarter_at_def split: prod.split)

lemma length_rounds [simp]: "length (fold quarter_at ps s) = length s"
  by (induction ps arbitrary: s) auto

definition block_inv :: "u32 list \<Rightarrow> u32 list" where
  "block_inv s = ((\<lambda>s. foldr quarter_at_inv round_places s) ^^ 10) s"

lemma rounds_inv:
  "length s = 16 \<Longrightarrow> list_all (\<lambda>(i, j, k, l). distinct [i, j, k, l] \<and> i < 16 \<and> j < 16 \<and> k < 16 \<and> l < 16) ps \<Longrightarrow>
     foldr quarter_at_inv ps (fold quarter_at ps s) = s"
proof (induction ps arbitrary: s)
  case (Cons p ps)
  obtain i j k l where p: "p = (i, j, k, l)" by (cases p)
  show ?case using Cons.IH [of "quarter_at p s"] Cons.prems quarter_at_inv [of i j k l s] by (simp add: p)
qed simp

lemma length_block [simp]: "length (chacha20_block s) = length s"
proof -
  have "length (((\<lambda>s. fold quarter_at round_places s) ^^ n) s) = length s" for n by (induction n) auto
  then show ?thesis by (simp add: chacha20_block_def)
qed

lemma block_inv: "length s = 16 \<Longrightarrow> block_inv (chacha20_block s) = s"
proof -
  assume s: "length s = 16"
  let ?f = "\<lambda>s. fold quarter_at round_places s" and ?g = "\<lambda>s. foldr quarter_at_inv round_places s"
  have step: "?g (?f s) = s" if "length s = 16" for s by (rule rounds_inv [OF that]) (simp add: round_places_def)
  have len: "length ((?f ^^ n) s) = 16" for n by (induction n) (use s in auto)
  have "(?g ^^ n) ((?f ^^ n) s) = s" for n
  proof (induction n)
    case (Suc n)
    have "(?g ^^ Suc n) ((?f ^^ Suc n) s) = (?g ^^ n) (?g (?f ((?f ^^ n) s)))" by (simp add: funpow_swap1)
    with Suc step [OF len] show ?case by simp
  qed simp
  then show ?thesis by (simp add: block_inv_def chacha20_block_def)
qed

section \<open>What the output gives away\<close>

definition words_of :: "u8 list \<Rightarrow> u32 list" where
  "words_of bs = map (\<lambda>i. ucast (bs ! (4 * i)) OR push_bit 8 (ucast (bs ! (4 * i + 1))) OR
     push_bit 16 (ucast (bs ! (4 * i + 2))) OR push_bit 24 (ucast (bs ! (4 * i + 3)))) [0..<16]"

lemma gen_loop_rest: "0 < i \<Longrightarrow> i + n \<le> 64 \<Longrightarrow> gen_loop i n g = (g, map (byte_at g) [i..<i + n])"
proof (induction n arbitrary: i)
  case (Suc n)
  then have "i mod 64 \<noteq> 0" by simp
  moreover have "[i..<i + Suc n] = i # [Suc i..<Suc i + n]" by (simp add: upt_conv_Cons del: upt_Suc)
  ultimately show ?case using Suc by (simp del: upt_Suc)
qed simp

lemma gen_loop_64: "gen_loop 0 64 g = (next_block g, map (byte_at (next_block g)) [0..<64])"
proof -
  have "gen_loop 0 (Suc 63) g = (next_block g, map (byte_at (next_block g)) (0 # [1..<64]))"
    by (subst gen_loop.simps) (simp add: gen_loop_rest Let_def)
  moreover have "0 # [1..<64] = [0..<64]" by (simp add: upt_conv_Cons)
  moreover have "Suc 63 = 64" by simp
  ultimately show ?thesis by metis
qed

lemma word_of_bytes:
  "ucast (ucast w :: u8) OR push_bit 8 (ucast (ucast (drop_bit 8 w) :: u8)) OR push_bit 16 (ucast (ucast (drop_bit 16 w) :: u8)) OR
     push_bit 24 (ucast (ucast (drop_bit 24 w) :: u8)) = (w :: u32)"
proof (rule bit_word_eqI)
  fix n assume "n < LENGTH(32)"
  then consider "n < 8" | "8 \<le> n" "n < 16" | "16 \<le> n" "n < 24" | "24 \<le> n" "n < 32" by fastforce
  then show "bit (ucast (ucast w :: u8) OR push_bit 8 (ucast (ucast (drop_bit 8 w) :: u8)) OR push_bit 16 (ucast (ucast (drop_bit 16 w) :: u8)) OR
     push_bit 24 (ucast (ucast (drop_bit 24 w) :: u8)) :: u32) n = bit w n"
    by cases (auto simp: bit_simps)
qed

lemma words_of_state: "length (chacha g) = 16 \<Longrightarrow> words_of (map (byte_at g) [0..<64]) = chacha g"
proof (rule nth_equalityI)
  fix i assume len: "length (chacha g) = 16" and "i < length (words_of (map (byte_at g) [0..<64]))"
  then have i: "i < 16" by (simp add: words_of_def)
  have b: "byte_at g (4 * i + j) = ucast (drop_bit (j * 8) (chacha g ! i))" if "j < 4" for j
    using i that by (simp add: byte_at_def)
  have n: "map (byte_at g) [0..<64] ! (4 * i + j) = byte_at g (4 * i + j)" if "j < 4" for j
    using i that by (simp add: nth_map_upt)
  show "words_of (map (byte_at g) [0..<64]) ! i = chacha g ! i"
    using i n [of 0] n [of 1] n [of 2] n [of 3] b [of 0] b [of 1] b [of 2] b [of 3] word_of_bytes [of "chacha g ! i"]
    by (simp add: words_of_def nth_map_upt)
qed (simp add: words_of_def)

text \<open>
  A request for 64 bytes gives the whole generator away: the bytes are the state it is left in, because the rounds are not
  followed by the addition of their input. From the bytes alone one computes the state after the call, which together with the
  counter and the time stamp determines all later output, and, since every round can be undone, the state before the call up to
  the words that the counter and the time stamp replace. The low half of the time stamp has no influence at all.
\<close>

theorem csprng_output_reveals_state:
  assumes "initialized g" "length (chacha g) = 16" "csprng_get_bytes t0 t1 tsc 64 g = (g', out)"
  shows "chacha g' = words_of out \<and>
    block_inv (words_of out) = (chacha g)[12 := counter g + 1, 13 := chacha g ! 13 XOR ucast (drop_bit 32 tsc)]"
proof -
  let ?g = "g\<lparr>chacha := (chacha g)[12 := chacha g ! 12 XOR ucast tsc, 13 := chacha g ! 13 XOR ucast (drop_bit 32 tsc)]\<rparr>"
  have g: "g' = next_block ?g" "out = map (byte_at (next_block ?g)) [0..<64]"
    using assms(1,3) by (auto simp: csprng_get_bytes_def gen_loop_64)
  have s: "(chacha ?g)[12 := counter g + 1] = (chacha g)[12 := counter g + 1, 13 := chacha g ! 13 XOR ucast (drop_bit 32 tsc)]"
    by (simp add: list_update_swap)
  have n: "chacha (next_block ?g) = chacha20_block ((chacha g)[12 := counter g + 1, 13 := chacha g ! 13 XOR ucast (drop_bit 32 tsc)])"
    using s by (simp add: next_block_def Let_def)
  have "words_of out = chacha (next_block ?g)" unfolding g(2) by (rule words_of_state) (simp add: n assms(2))
  then show ?thesis using n g(1) block_inv [of "(chacha g)[12 := counter g + 1, 13 := chacha g ! 13 XOR ucast (drop_bit 32 tsc)]"] assms(2)
    by simp
qed

definition demo_rng :: csprng where
  "demo_rng = \<lparr>chacha = chacha_constant @ replicate 12 7, counter = 1, initialized = True, pool = replicate 64 0, pool_pos = 0, reseed_counter = 0\<rparr>"

lemma csprng_output_reveals_state_witness:
  "block_inv (words_of (snd (csprng_get_bytes 0 0 5 64 demo_rng))) = (chacha demo_rng)[12 := 2, 13 := 7]"
  using csprng_output_reveals_state [of demo_rng 0 0 5 "fst (csprng_get_bytes 0 0 5 64 demo_rng)" "snd (csprng_get_bytes 0 0 5 64 demo_rng)"]
  by (simp add: demo_rng_def chacha_constant_def)

end
