(* ===== verification/Cstring.thy ===== *)
theory Cstring
  imports Kernel_Prelude
begin

unbundle bit_operations_syntax

text \<open>
  The string and memory functions of \<^verbatim>\<open>src/kernel/utils.c\<close>. A string is the list of bytes from the place the
  pointer points to up to the end of the object it lies in; a read or a store outside the object is \<^term>\<open>None\<close>.
  The functions that write take the whole object and positions in it, so that source and destination of
  \<^verbatim>\<open>memmove\<close> may overlap. \<^verbatim>\<open>int\<close> and \<^verbatim>\<open>long\<close> have 32 bits.
\<close>

section \<open>Reading\<close>

fun strlen :: "u8 list \<Rightarrow> nat option" where
  "strlen [] = None"
| "strlen (c # cs) = (if c \<noteq> 0 then map_option Suc (strlen cs) else Some 0)"

fun strcmp :: "u8 list \<Rightarrow> u8 list \<Rightarrow> int option" where
  "strcmp (a # as) (b # bs) = (if a \<noteq> 0 \<and> a = b then strcmp as bs else Some (uint a - uint b))"
| "strcmp _ _ = None"

fun strncmp :: "u8 list \<Rightarrow> u8 list \<Rightarrow> nat \<Rightarrow> int option" where
  "strncmp _ _ 0 = Some 0"
| "strncmp (a # as) (b # bs) (Suc n) = (if a \<noteq> 0 \<and> a = b then strncmp as bs n else Some (uint a - uint b))"
| "strncmp _ _ (Suc n) = None"

fun memcmp :: "u8 list \<Rightarrow> u8 list \<Rightarrow> nat \<Rightarrow> int option" where
  "memcmp _ _ 0 = Some 0"
| "memcmp (a # as) (b # bs) (Suc n) = (if a \<noteq> b then Some (uint a - uint b) else memcmp as bs n)"
| "memcmp _ _ (Suc n) = None"

section \<open>Writing\<close>

definition load :: "u8 list \<Rightarrow> nat \<Rightarrow> u8 option" where
  "load m i = (if i < length m then Some (m ! i) else None)"

definition store :: "u8 list \<Rightarrow> nat \<Rightarrow> u8 \<Rightarrow> u8 list option" where
  "store m i v = (if i < length m then Some (m[i := v]) else None)"

fun memset :: "u8 list \<Rightarrow> nat \<Rightarrow> u32 \<Rightarrow> nat \<Rightarrow> u8 list option" where
  "memset m p v 0 = Some m"
| "memset m p v (Suc n) = (case store m p (ucast v) of None \<Rightarrow> None | Some m \<Rightarrow> memset m (p + 1) v n)"

fun memcpy :: "u8 list \<Rightarrow> nat \<Rightarrow> nat \<Rightarrow> nat \<Rightarrow> u8 list option" where
  "memcpy m d s 0 = Some m"
| "memcpy m d s (Suc n) =
     (case load m s of None \<Rightarrow> None
      | Some c \<Rightarrow> (case store m d c of None \<Rightarrow> None | Some m \<Rightarrow> memcpy m (d + 1) (s + 1) n))"

definition memcpy_chk :: "u8 list \<Rightarrow> nat \<Rightarrow> nat \<Rightarrow> nat \<Rightarrow> nat \<Rightarrow> u8 list option" where
  "memcpy_chk m d s n dst_len = memcpy m d s n"

text \<open>The copy from the end, with the pointers one past the byte to copy.\<close>

fun copy_back :: "u8 list \<Rightarrow> nat \<Rightarrow> nat \<Rightarrow> nat \<Rightarrow> u8 list option" where
  "copy_back m d s 0 = Some m"
| "copy_back m d s (Suc n) =
     (case load m (s - 1) of None \<Rightarrow> None
      | Some c \<Rightarrow> (case store m (d - 1) c of None \<Rightarrow> None | Some m \<Rightarrow> copy_back m (d - 1) (s - 1) n))"

definition memmove :: "u8 list \<Rightarrow> nat \<Rightarrow> nat \<Rightarrow> nat \<Rightarrow> u8 list option" where
  "memmove m d s n = (if d < s then memcpy m d s n else copy_back m (d + n) (s + n) n)"

fun strcpy :: "u8 list \<Rightarrow> nat \<Rightarrow> u8 list \<Rightarrow> u8 list option" where
  "strcpy m d [] = None"
| "strcpy m d (c # src) =
     (if c \<noteq> 0 then case store m d c of None \<Rightarrow> None | Some m \<Rightarrow> strcpy m (d + 1) src
      else store m d 0)"

fun strncpy :: "u8 list \<Rightarrow> nat \<Rightarrow> u8 list \<Rightarrow> nat \<Rightarrow> u8 list option" where
  "strncpy m d src 0 = Some m"
| "strncpy m d [] (Suc n) = None"
| "strncpy m d (c # src) (Suc n) =
     (if c \<noteq> 0 then case store m d c of None \<Rightarrow> None | Some m \<Rightarrow> strncpy m (d + 1) src n
      else memset m d 0 (Suc n))"

section \<open>Numbers\<close>

text \<open>\<^verbatim>\<open>/\<close> and \<^verbatim>\<open>%\<close> of C round towards zero.\<close>

definition c_div :: "int \<Rightarrow> int \<Rightarrow> int" where
  "c_div a b = sgn a * sgn b * (\<bar>a\<bar> div \<bar>b\<bar>)"

definition c_mod :: "int \<Rightarrow> int \<Rightarrow> int" where
  "c_mod a b = a - c_div a b * b"

function reverse_loop :: "u8 list \<Rightarrow> nat \<Rightarrow> int \<Rightarrow> u8 list option" where
  "reverse_loop str s e =
     (if int s < e then
        case (load str s, load str (nat e)) of
          (Some temp, Some c) \<Rightarrow> reverse_loop (str[s := c, nat e := temp]) (s + 1) (e - 1)
        | _ \<Rightarrow> None
      else Some str)"
  by auto
termination by (relation "measure (\<lambda>(str, s, e). nat (e - int s))") auto

definition reverse :: "u8 list \<Rightarrow> nat \<Rightarrow> u8 list option" where
  "reverse str n = reverse_loop str 0 (int n - 1)"

function itoa_loop :: "int \<Rightarrow> int \<Rightarrow> u8 list \<Rightarrow> nat \<Rightarrow> (u8 list \<times> nat) option" where
  "itoa_loop num base str i =
     (if num = 0 then Some (str, i)
      else if base = 0 then None
      else let rem = c_mod num base in
           case store str i (of_int (if 9 < rem then rem - 10 + 97 else rem + 48)) of
             None \<Rightarrow> None
           | Some str' \<Rightarrow> itoa_loop (c_div num base) base str' (i + 1))"
  by auto
termination
  by (relation "measure (\<lambda>(_, _, str, i). length str - i)") (auto simp: store_def split: if_splits)

definition itoa :: "u32 \<Rightarrow> u8 list \<Rightarrow> int \<Rightarrow> u8 list option" where
  "itoa num str base =
     (if num = 0 then (case store str 0 48 of None \<Rightarrow> None | Some str \<Rightarrow> store str 1 0)
      else let neg = (sint num < 0 \<and> base = 10);
               num = (if neg then - num else num)
           in case itoa_loop (sint num) base str 0 of
                None \<Rightarrow> None
              | Some (str, i) \<Rightarrow>
                  (case (if neg then map_option (\<lambda>str. (str, i + 1)) (store str i 45) else Some (str, i)) of
                     None \<Rightarrow> None
                   | Some (str, i) \<Rightarrow> (case store str i 0 of None \<Rightarrow> None | Some str \<Rightarrow> reverse str i)))"

fun atoi_loop :: "u32 \<Rightarrow> u8 list \<Rightarrow> u32 option" where
  "atoi_loop res [] = None"
| "atoi_loop res (c # cs) =
     (if c = 0 then Some res
      else atoi_loop (if 48 \<le> c \<and> c \<le> 57 then res * 10 + ucast c - 48 else res) cs)"

definition atoi :: "u8 list \<Rightarrow> u32 option" where
  "atoi str =
     (case str of [] \<Rightarrow> None
      | c # cs \<Rightarrow> if c = 45 then map_option uminus (atoi_loop 0 cs) else atoi_loop 0 (c # cs))"

text \<open>The result is the number and what is left of the string.\<close>

fun skip_blanks :: "u8 list \<Rightarrow> u8 list option" where
  "skip_blanks [] = None"
| "skip_blanks (c # cs) = (if c = 32 \<or> c = 9 then skip_blanks cs else Some (c # cs))"

definition digit_of :: "u8 \<Rightarrow> int option" where
  "digit_of c =
     (if 48 \<le> c \<and> c \<le> 57 then Some (uint c - 48)
      else if 97 \<le> c \<and> c \<le> 102 then Some (uint c - 97 + 10)
      else if 65 \<le> c \<and> c \<le> 70 then Some (uint c - 65 + 10)
      else None)"

fun strtol_loop :: "int \<Rightarrow> u32 \<Rightarrow> u8 list \<Rightarrow> (u32 \<times> u8 list) option" where
  "strtol_loop base result [] = None"
| "strtol_loop base result (c # cs) =
     (if c = 0 then Some (result, c # cs)
      else case digit_of c of
             None \<Rightarrow> Some (result, c # cs)
           | Some digit \<Rightarrow>
               if base \<le> digit then Some (result, c # cs)
               else strtol_loop base (result * of_int base + of_int digit) cs)"

definition strtol_base :: "u8 list \<Rightarrow> int \<Rightarrow> (int \<times> u8 list) option" where
  "strtol_base p base =
     (case p of
        [] \<Rightarrow> None
      | c # cs \<Rightarrow>
          let hex = (c = 48 \<and> cs \<noteq> [] \<and> (hd cs = 120 \<or> hd cs = 88)) in
          if c = 48 \<and> cs = [] \<and> (base = 0 \<or> base = 16) then None
          else if base = 0 then Some (if hex then (16, tl cs) else if c = 48 then (8, cs) else (10, p))
          else if base = 16 \<and> hex then Some (base, tl cs)
          else Some (base, p))"

definition strtol :: "u8 list \<Rightarrow> int \<Rightarrow> (u32 \<times> u8 list) option" where
  "strtol nptr base =
     (case skip_blanks nptr of
        None \<Rightarrow> None
      | Some p \<Rightarrow>
          let neg = (hd p = 45);
              p = (if hd p = 45 \<or> hd p = 43 then tl p else p)
          in case strtol_base p base of
               None \<Rightarrow> None
             | Some (base, p) \<Rightarrow> map_option (\<lambda>(r, q). (if neg then - r else r, q)) (strtol_loop base 0 p))"

definition hex_chars :: "u8 list" where
  "hex_chars = [48, 49, 50, 51, 52, 53, 54, 55, 56, 57, 65, 66, 67, 68, 69, 70]"

fun hex_loop :: "nat \<Rightarrow> u32 \<Rightarrow> u8 list \<Rightarrow> u8 list option" where
  "hex_loop 0 num str = Some str"
| "hex_loop (Suc k) num str =
     (case store str (k + 2) (hex_chars ! unat (num AND 0xF)) of
        None \<Rightarrow> None
      | Some str \<Rightarrow> hex_loop k (drop_bit 4 num) str)"

definition itoa_hex :: "u32 \<Rightarrow> u8 list \<Rightarrow> u8 list option" where
  "itoa_hex num str =
     (if length str < 2 then None
      else case hex_loop 8 num (str[0 := 48, 1 := 120]) of
             None \<Rightarrow> None
           | Some str \<Rightarrow> store str 10 0)"

declare reverse_loop.simps [simp del] itoa_loop.simps [simp del]

section \<open>Copying\<close>

lemma memcpy_forward:
  assumes "d \<le> s" "s + n \<le> length m"
  shows "\<exists>m'. memcpy m d s n = Some m' \<and> length m' = length m \<and>
    (\<forall>k. m' ! k = (if d \<le> k \<and> k < d + n then m ! (s + k - d) else m ! k))"
  using assms
proof (induction n arbitrary: m d s)
  case (Suc n)
  let ?m = "m[d := m ! s]"
  have "\<exists>m'. memcpy ?m (d + 1) (s + 1) n = Some m' \<and> length m' = length ?m \<and>
    (\<forall>k. m' ! k = (if d + 1 \<le> k \<and> k < d + 1 + n then ?m ! (s + 1 + k - (d + 1)) else ?m ! k))"
    by (rule Suc.IH) (use Suc.prems in auto)
  then obtain m' where m': "memcpy ?m (d + 1) (s + 1) n = Some m'" "length m' = length m"
    "\<And>k. m' ! k = (if d + 1 \<le> k \<and> k < d + 1 + n then ?m ! (s + 1 + k - (d + 1)) else ?m ! k)" by auto
  have "m' ! k = (if d \<le> k \<and> k < d + Suc n then m ! (s + k - d) else m ! k)" for k
    using m'(3) [of k] Suc.prems by (auto simp: nth_list_update)
  then show ?case using m'(1,2) Suc.prems by (auto simp: load_def store_def)
qed auto

lemma copy_back_spec:
  assumes "s \<le> d" "d + n \<le> length m"
  shows "\<exists>m'. copy_back m (d + n) (s + n) n = Some m' \<and> length m' = length m \<and>
    (\<forall>k. m' ! k = (if d \<le> k \<and> k < d + n then m ! (s + k - d) else m ! k))"
  using assms
proof (induction n arbitrary: m)
  case (Suc n)
  let ?m = "m[d + n := m ! (s + n)]"
  have "\<exists>m'. copy_back ?m (d + n) (s + n) n = Some m' \<and> length m' = length ?m \<and>
    (\<forall>k. m' ! k = (if d \<le> k \<and> k < d + n then ?m ! (s + k - d) else ?m ! k))"
    by (rule Suc.IH) (use Suc.prems in auto)
  then obtain m' where m': "copy_back ?m (d + n) (s + n) n = Some m'" "length m' = length m"
    "\<And>k. m' ! k = (if d \<le> k \<and> k < d + n then ?m ! (s + k - d) else ?m ! k)" by auto
  have "m' ! k = (if d \<le> k \<and> k < d + Suc n then m ! (s + k - d) else m ! k)" for k
    using m'(3) [of k] Suc.prems by (auto simp: nth_list_update)
  then show ?case using m'(1,2) Suc.prems by (auto simp: load_def store_def)
qed auto

text \<open>
  C25. \<^verbatim>\<open>memmove\<close> copies as if the source were first copied aside: for every overlap of source and destination inside
  the object the destination holds the bytes the source had before, and every other byte is unchanged.
\<close>

theorem memmove_correct:
  assumes "s + n \<le> length m" "d + n \<le> length m"
  shows "memmove m d s n = Some (take d m @ take n (drop s m) @ drop (d + n) m)"
proof -
  let ?r = "take d m @ take n (drop s m) @ drop (d + n) m"
  obtain m' where m': "memmove m d s n = Some m'" "length m' = length m"
    "\<And>k. m' ! k = (if d \<le> k \<and> k < d + n then m ! (s + k - d) else m ! k)"
  proof (cases "d < s")
    case True
    then show ?thesis using memcpy_forward [of d s n m] assms that by (auto simp: memmove_def)
  next
    case False
    then show ?thesis using copy_back_spec [of s d n m] assms that by (auto simp: memmove_def)
  qed
  have "min (length m) d = d" "min (length m - s) n = n" using assms by auto
  then have "m' = ?r"
    by (intro nth_equalityI) (use assms m'(2,3) in \<open>auto simp: nth_append\<close>)
  with m'(1) show ?thesis by simp
qed

lemma memmove_correct_witness:
  "memmove [1, 2, 3, 4, 5] 1 0 3 = Some [1, 1, 2, 3, 5]"
  using memmove_correct [of 0 3 "[1, 2, 3, 4, 5]" 1] by simp

section \<open>Printing and reading numbers\<close>

lemma reverse_loop_spec:
  "reverse_loop (p @ ys @ r) (length p) (int (length p + length ys) - 1) = Some (p @ rev ys @ r)"
proof (induction "length ys" arbitrary: p ys r rule: less_induct)
  case less
  consider "ys = []" | x where "ys = [x]" | a xs b where "ys = a # xs @ [b]"
    by (metis list.exhaust rev_exhaust)
  then show ?case
  proof cases
    case 3
    have e: "nat (1 + (int (length p) + int (length xs))) = Suc (length p + length xs)" by simp
    have "reverse_loop (p @ ys @ r) (length p) (int (length p + length ys) - 1) =
        reverse_loop ((p @ [b]) @ xs @ a # r) (length (p @ [b])) (int (length (p @ [b]) + length xs) - 1)"
      by (subst reverse_loop.simps) (simp add: 3 e load_def nth_append list_update_append)
    also have "\<dots> = Some ((p @ [b]) @ rev xs @ a # r)" by (rule less) (simp add: 3)
    finally show ?thesis by (simp add: 3)
  qed (simp_all add: reverse_loop.simps)
qed

lemma reverse_spec: "reverse (ys @ r) (length ys) = Some (rev ys @ r)"
  using reverse_loop_spec [of "[]" ys r] by (simp add: reverse_def)

text \<open>The characters \<^verbatim>\<open>itoa\<close> writes for a number, the last digit first.\<close>

lemma c_div_smaller: "a \<noteq> 0 \<Longrightarrow> \<bar>c_div a 10\<bar> < \<bar>a\<bar>"
  by (auto simp: c_div_def abs_mult sgn_if)

function digits :: "int \<Rightarrow> u8 list" where
  "digits z = (if z = 0 then [] else of_int (c_mod z 10 + 48) # digits (c_div z 10))"
  by auto
termination by (relation "measure (\<lambda>z. nat \<bar>z\<bar>)") (auto simp: c_div_smaller)

declare digits.simps [simp del]

lemma digits_0 [simp]: "digits 0 = []"
  by (simp add: digits.simps)

lemma c_mod_small: "\<not> 9 < c_mod z 10"
  by (auto simp: c_mod_def c_div_def sgn_if abs_if split: if_splits)

lemma itoa_loop_spec:
  "i + length (digits z) \<le> length str \<Longrightarrow>
     itoa_loop z 10 str i = Some (take i str @ digits z @ drop (i + length (digits z)) str, i + length (digits z))"
proof (induction z arbitrary: str i rule: digits.induct)
  case (1 z)
  show ?case
  proof (cases "z = 0")
    case True
    then show ?thesis by (simp add: itoa_loop.simps digits.simps)
  next
    case False
    let ?c = "of_int (c_mod z 10 + 48) :: u8"
    note dz = digits.simps [of z]
    have "itoa_loop z 10 str i = itoa_loop (c_div z 10) 10 (str[i := ?c]) (i + 1)"
      using False 1(2) c_mod_small [of z] by (subst itoa_loop.simps) (simp add: store_def dz)
    also have "\<dots> = Some (take (i + 1) (str[i := ?c]) @ digits (c_div z 10) @ drop (i + 1 + length (digits (c_div z 10))) (str[i := ?c]),
        i + 1 + length (digits (c_div z 10)))"
      by (rule 1(1) [OF False]) (use 1(2) False in \<open>simp add: dz\<close>)
    finally show ?thesis using False 1(2) by (simp add: dz take_Suc_conv_app_nth)
  qed
qed

lemma digits_pos: "digits (int n) = (if n = 0 then [] else of_nat (n mod 10 + 48) # digits (int (n div 10)))"
proof -
  have "c_div (int n) 10 = int (n div 10)" by (simp add: c_div_def zdiv_int sgn_if)
  moreover have "c_mod (int n) 10 = int (n mod 10)"
    unfolding c_mod_def calculation by (simp add: zmod_int zdiv_int minus_div_mult_eq_mod)
  ultimately show ?thesis by (subst digits.simps) simp
qed

lemma length_digits: "n < 10 ^ k \<Longrightarrow> length (digits (int n)) \<le> k"
proof (induction k arbitrary: n)
  case (Suc k)
  then have "length (digits (int (n div 10))) \<le> k" by (intro Suc.IH) (simp add: div_less_iff_less_mult mult.commute)
  then show ?case by (subst digits_pos) simp
qed (simp add: digits_pos)

lemma digit_byte: "d < 10 \<Longrightarrow> 48 \<le> (of_nat (d + 48) :: u8) \<and> (of_nat (d + 48) :: u8) \<le> 57 \<and> (of_nat (d + 48) :: u8) \<noteq> 0 \<and>
    (of_nat (d + 48) :: u8) \<noteq> 45 \<and> (ucast (of_nat (d + 48) :: u8) :: u32) = of_nat d + 48"
  by (simp add: less_Suc_eq numeral_eq_Suc) (elim disjE; simp)

lemma atoi_loop_append_digit:
  "d < 10 \<Longrightarrow> 0 \<notin> set cs \<Longrightarrow> atoi_loop r (cs @ [0]) = Some v \<Longrightarrow>
     atoi_loop r (cs @ of_nat (d + 48) # 0 # rest) = Some (v * 10 + of_nat d)"
proof (induction cs arbitrary: r)
  case Nil
  then show ?case using digit_byte [of d] by (simp add: algebra_simps)
qed (auto split: if_splits)

lemma atoi_loop_rest: "0 \<notin> set cs \<Longrightarrow> atoi_loop r (cs @ 0 # rest) = atoi_loop r (cs @ [0])"
  by (induction cs arbitrary: r) auto

lemma digits_nonzero: "0 \<notin> set (digits (int n))"
proof (induction n rule: less_induct)
  case (less n)
  then show ?case using digit_byte [of "n mod 10"] by (subst digits_pos) auto
qed

lemma atoi_digits: "atoi_loop 0 (rev (digits (int n)) @ [0]) = Some (of_nat n)"
proof (induction n rule: less_induct)
  case (less n)
  show ?case
  proof (cases "n = 0")
    case True
    then show ?thesis by (simp add: digits_pos)
  next
    case False
    then have "atoi_loop 0 (rev (digits (int (n div 10))) @ of_nat (n mod 10 + 48) # 0 # []) = Some (of_nat (n div 10) * 10 + of_nat (n mod 10))"
      by (intro atoi_loop_append_digit less.IH) (auto simp: digits_nonzero)
    moreover have "of_nat (n div 10) * 10 + of_nat (n mod 10) = (of_nat n :: u32)"
      by (metis div_mult_mod_eq of_nat_add of_nat_mult of_nat_numeral)
    ultimately show ?thesis using False digits_pos [of n] by simp
  qed
qed

lemma digits_head: "n \<noteq> 0 \<Longrightarrow> \<exists>c cs. rev (digits (int n)) = c # cs \<and> c \<noteq> 45"
proof -
  assume n: "n \<noteq> 0"
  have "45 \<notin> set (digits (int n))"
  proof (induction n rule: less_induct)
    case (less n)
    then show ?case using digit_byte [of "n mod 10"] by (subst digits_pos) auto
  qed
  moreover have "digits (int n) \<noteq> []" using n by (subst digits_pos) simp
  then obtain c cs where "rev (digits (int n)) = c # cs" by (cases "rev (digits (int n))") auto
  moreover from this have "c \<in> set (digits (int n))" by (metis list.set_intros(1) set_rev)
  ultimately show ?thesis by auto
qed

text \<open>\<^verbatim>\<open>itoa\<close> in base 10, in terms of the digits.\<close>

lemma itoa_spec:
  assumes num: "num \<noteq> 0" and z: "z = sint (if sint num < 0 then - num else num)" and len: "length (digits z) + 2 \<le> length str"
  shows "\<exists>rest. itoa num str 10 = Some ((if sint num < 0 then [45] else []) @ rev (digits z) @ 0 # rest)"
proof -
  let ?n = "length (digits z)"
  let ?r = "drop ?n str"
  have "2 \<le> length ?r" using len by simp
  then obtain a b rest where r: "?r = a # b # rest" by (cases ?r; cases "tl ?r") auto
  have loop: "itoa_loop z 10 str 0 = Some (digits z @ a # b # rest, ?n)"
    using itoa_loop_spec [of 0 z str] len r by simp
  have st: "store (digits z @ a # b # rest) ?n c = Some (digits z @ c # b # rest)" for c
    by (simp add: store_def)
  have st2: "store (digits z @ c # b # rest) (Suc ?n) 0 = Some (digits z @ c # 0 # rest)" for c
    by (simp add: store_def list_update_append)
  have rev1: "reverse (digits z @ 0 # b # rest) ?n = Some (rev (digits z) @ 0 # b # rest)" by (rule reverse_spec)
  have rev2: "reverse (digits z @ 45 # 0 # rest) (Suc ?n) = Some (45 # rev (digits z) @ 0 # rest)"
    using reverse_spec [of "digits z @ [45]" "0 # rest"] by simp
  show ?thesis
  proof (cases "sint num < 0")
    case True
    then have "itoa num str 10 = Some (45 # rev (digits z) @ 0 # rest)"
      using num loop z st st2 rev2 by (simp add: itoa_def)
    then show ?thesis using True by simp
  next
    case False
    then have "itoa num str 10 = Some (rev (digits z) @ 0 # b # rest)"
      using num loop z st rev1 by (simp add: itoa_def)
    then show ?thesis using False by simp
  qed
qed

lemma digits_int_min: "digits (- 2147483648) = [40, 44, 42, 45, 40, 44, 41, 44, 47, 46]"
  by code_simp

lemma atoi_int_min: "0 \<notin> set (rev (digits (- 2147483648)))" "atoi_loop 0 (rev (digits (- 2147483648)) @ [0]) = Some 0"
  unfolding digits_int_min by simp_all

text \<open>
  C26. Printing and reading back a number. \<^verbatim>\<open>itoa\<close> in base 10 needs a buffer of 12 bytes, and \<^verbatim>\<open>atoi\<close> reads what it
  wrote as the same number, for every number but the smallest: its negation overflows, \<^verbatim>\<open>itoa\<close> writes characters that are
  not digits, and \<^verbatim>\<open>atoi\<close> reads them as 0.
\<close>

theorem itoa_atoi_roundtrip:
  assumes "12 \<le> length str"
  shows "\<exists>out. itoa num str 10 = Some out \<and> atoi out = Some (if num = 0x80000000 then 0 else num)"
proof -
  let ?m = "if sint num < 0 then - num else num"
  consider "num = 0" | "num = 0x80000000" | "num \<noteq> 0" "num \<noteq> 0x80000000" by blast
  then show ?thesis
  proof cases
    case 1
    obtain a b rest where "str = a # b # rest" using assms by (cases str; cases "tl str") auto
    then show ?thesis using 1 by (simp add: itoa_def store_def atoi_def)
  next
    case 2
    have z: "sint num = - 2147483648" "sint ?m = - 2147483648" using 2 by simp_all
    obtain rest where r: "itoa num str 10 = Some (45 # rev (digits (- 2147483648)) @ 0 # rest)"
      using itoa_spec [of num "- 2147483648" str] 2 z assms by (auto simp: digits_int_min)
    show ?thesis unfolding r using 2 atoi_int_min atoi_loop_rest [OF atoi_int_min(1), of 0 rest] by (simp add: atoi_def)
  next
    case 3
    define n where "n = nat \<bar>sint num\<bar>"
    have ne: "sint num \<noteq> sint (0x80000000 :: u32)" "sint num \<noteq> sint (0 :: u32)" using 3 signed_word_eqI by blast+
    have range: "- (2 ^ 31) \<le> sint num" "sint num < 2 ^ 31" using sint_ge [of num] sint_lt [of num] by simp_all
    have wi: "of_int (sint num) = num" by simp
    have "(of_nat n :: u32) = of_int \<bar>sint num\<bar>" by (simp add: n_def)
    then have m: "of_nat n = ?m" using wi by (simp add: abs_if)
    have n: "n < 2 ^ 31" "n \<noteq> 0" using range ne by (auto simp: n_def)
    have z: "sint ?m = int n"
      unfolding m [symmetric] using n(1) by (simp add: signed_of_nat signed_take_bit_int_eq_self flip: of_nat_power)
    have nz: "0 \<notin> set (rev (digits (int n)))" using digits_nonzero [of n] by simp
    obtain rest where r: "itoa num str 10 = Some ((if sint num < 0 then [45] else []) @ rev (digits (int n)) @ 0 # rest)"
      using itoa_spec [of num "int n" str] 3(1) z length_digits [of n 10] n(1) assms by auto
    have a: "atoi_loop 0 (rev (digits (int n)) @ 0 # rest) = Some ?m"
      unfolding atoi_loop_rest [OF nz, of 0 rest] atoi_digits m ..
    obtain c cs where c: "rev (digits (int n)) = c # cs" "c \<noteq> 45" using digits_head [OF n(2)] by auto
    show ?thesis unfolding r using 3 a c by (auto simp: atoi_def)
  qed
qed

lemma itoa_atoi_roundtrip_witness:
  "\<exists>out. itoa 0xFFFFFFD6 (replicate 12 0) 10 = Some out \<and> atoi out = Some 0xFFFFFFD6"
  using itoa_atoi_roundtrip [of "replicate 12 0" "0xFFFFFFD6"] by simp

end
