(* ===== verification/Devices.thy ===== *)
theory Devices
  imports Cstring
begin

unbundle bit_operations_syntax

text \<open>
  The tables of block devices and partitions: \<^verbatim>\<open>src/kernel/blockdev.c\<close> and \<^verbatim>\<open>src/kernel/partition.c\<close>. A table is the
  list of its entries in use; a pointer to an entry is its index. A name is the string in front of its final zero. The
  operations of a driver are the parameter \<open>disk\<close>: the sector of a drive, or the error it reports. Both tables work the
  same way; the locale \<open>name_table\<close> is what they promise.
\<close>

section \<open>Block devices\<close>

definition BLOCKDEV_MAX :: nat where "BLOCKDEV_MAX = 8"

record block_device =
  bd_name :: "u8 list"
  sector_size :: u32
  sector_count :: u32
  drive_id :: int
  bd_refcount :: int
  has_ops :: bool

type_synonym disk = "int \<Rightarrow> u32 \<Rightarrow> int + u8 list"

definition blockdev_find :: "u8 list \<Rightarrow> block_device list \<Rightarrow> nat option" where
  "blockdev_find name t = find (\<lambda>i. bd_name (t ! i) = name) [0..<length t]"

definition blockdev_register :: "block_device \<Rightarrow> block_device list \<Rightarrow> block_device list \<times> int" where
  "blockdev_register dev t =
     (if BLOCKDEV_MAX \<le> length t then (t, - ENOSPC)
      else case find (\<lambda>i. bd_name (t ! i) = bd_name dev) [0..<length t] of
             Some i \<Rightarrow> (t[i := dev], 0)
           | None \<Rightarrow> (t @ [dev], 0))"

definition blockdev_by_id :: "int \<Rightarrow> block_device list \<Rightarrow> nat option" where
  "blockdev_by_id d t = find (\<lambda>i. drive_id (t ! i) = d) [0..<length t]"

definition blockdev_count :: "block_device list \<Rightarrow> nat" where
  "blockdev_count t = length t"

definition blockdev_get :: "int \<Rightarrow> block_device list \<Rightarrow> nat option" where
  "blockdev_get i t = (if 0 \<le> i \<and> i < int (length t) then Some (nat i) else None)"

definition blockdev_claim :: "nat option \<Rightarrow> block_device list \<Rightarrow> block_device list" where
  "blockdev_claim p t = (case p of None \<Rightarrow> t | Some i \<Rightarrow> t[i := (t ! i)\<lparr>bd_refcount := bd_refcount (t ! i) + 1\<rparr>])"

definition blockdev_release :: "nat option \<Rightarrow> block_device list \<Rightarrow> block_device list" where
  "blockdev_release p t =
     (case p of None \<Rightarrow> t
      | Some i \<Rightarrow> if 0 < bd_refcount (t ! i) then t[i := (t ! i)\<lparr>bd_refcount := bd_refcount (t ! i) - 1\<rparr>] else t)"

definition blockdev_read :: "disk \<Rightarrow> block_device option \<Rightarrow> u32 \<Rightarrow> int + u8 list" where
  "blockdev_read disk dev lba =
     (case dev of
        None \<Rightarrow> Inl (- ENODEV)
      | Some d \<Rightarrow> if \<not> has_ops d then Inl (- ENODEV) else disk (drive_id d) lba)"

definition ata_names :: "u8 list list" where
  "ata_names = [[104, 100, 97], [104, 100, 98], [104, 100, 99], [104, 100, 100]]"

definition blockdev_register_ata :: "(nat \<Rightarrow> bool) \<Rightarrow> (nat \<Rightarrow> u32) \<Rightarrow> block_device list \<Rightarrow> block_device list" where
  "blockdev_register_ata drive_present count t =
     fold (\<lambda>i t. if \<not> drive_present i then t
        else fst (blockdev_register \<lparr>bd_name = ata_names ! i, sector_size = 512, sector_count = count i,
          drive_id = int i, bd_refcount = 0, has_ops = True\<rparr> t)) [0..<4] t"

section \<open>Partitions\<close>

definition PARTITION_MAX :: nat where "PARTITION_MAX = 32"
definition PART_TYPE_EMPTY :: u8 where "PART_TYPE_EMPTY = 0"
definition MBR_SIGNATURE :: u16 where "MBR_SIGNATURE = 0xAA55"

record partition =
  parent :: "nat option"
  start_lba :: u32
  part_count :: u32
  partition_type :: u8
  partition_number :: u8
  part_name :: "u8 list"
  part_refcount :: int

definition partition_find :: "u8 list \<Rightarrow> partition list \<Rightarrow> nat option" where
  "partition_find name t = find (\<lambda>i. part_name (t ! i) = name) [0..<length t]"

definition partition_register :: "partition \<Rightarrow> partition list \<Rightarrow> partition list \<times> int" where
  "partition_register part t =
     (if parent part = None then (t, - EINVAL)
      else if PARTITION_MAX \<le> length t then (t, - ENOSPC)
      else case find (\<lambda>i. part_name (t ! i) = part_name part) [0..<length t] of
             Some i \<Rightarrow> (t[i := part], 0)
           | None \<Rightarrow> (t @ [part], 0))"

definition partition_find_by_device :: "nat option \<Rightarrow> u8 \<Rightarrow> partition list \<Rightarrow> nat option" where
  "partition_find_by_device p n t =
     (if p = None then None else find (\<lambda>i. parent (t ! i) = p \<and> partition_number (t ! i) = n) [0..<length t])"

definition partition_claim :: "nat option \<Rightarrow> partition list \<Rightarrow> partition list" where
  "partition_claim p t = (case p of None \<Rightarrow> t | Some i \<Rightarrow> t[i := (t ! i)\<lparr>part_refcount := part_refcount (t ! i) + 1\<rparr>])"

definition partition_release :: "nat option \<Rightarrow> partition list \<Rightarrow> partition list" where
  "partition_release p t =
     (case p of None \<Rightarrow> t
      | Some i \<Rightarrow> if 0 < part_refcount (t ! i) then t[i := (t ! i)\<lparr>part_refcount := part_refcount (t ! i) - 1\<rparr>] else t)"

text \<open>The packed entries of the master boot record.\<close>

definition le32 :: "u8 list \<Rightarrow> nat \<Rightarrow> u32" where
  "le32 b i = ucast (b ! i) OR push_bit 8 (ucast (b ! (i + 1))) OR push_bit 16 (ucast (b ! (i + 2))) OR push_bit 24 (ucast (b ! (i + 3)))"

definition le16 :: "u8 list \<Rightarrow> nat \<Rightarrow> u16" where
  "le16 b i = ucast (b ! i) OR push_bit 8 (ucast (b ! (i + 1)))"

definition mbr_type :: "u8 list \<Rightarrow> nat \<Rightarrow> u8" where
  "mbr_type sector i = sector ! (446 + 16 * i + 4)"

definition mbr_partition :: "nat \<Rightarrow> block_device \<Rightarrow> u8 list \<Rightarrow> nat \<Rightarrow> partition" where
  "mbr_partition dev bdev sector i =
     \<lparr>parent = Some dev, start_lba = le32 sector (446 + 16 * i + 8), part_count = le32 sector (446 + 16 * i + 12),
      partition_type = mbr_type sector i, partition_number = of_nat (i + 1),
      part_name = (if length (bd_name bdev) < 30 then bd_name bdev @ [48 + of_nat (i + 1)] else bd_name bdev), part_refcount = 0\<rparr>"

definition partition_scan_mbr :: "disk \<Rightarrow> nat option \<Rightarrow> block_device list \<Rightarrow> partition list \<Rightarrow> partition list \<times> int" where
  "partition_scan_mbr disk dev devs t =
     (case dev of
        None \<Rightarrow> (t, - EINVAL)
      | Some d \<Rightarrow>
          let bdev = devs ! d in
          if sector_count bdev = 0 then (t, 0)
          else case blockdev_read disk (Some bdev) 0 of
                 Inl e \<Rightarrow> (t, 0)
               | Inr sector \<Rightarrow>
                   if le16 sector 510 \<noteq> MBR_SIGNATURE then (t, 0)
                   else fold (\<lambda>i (t, found).
                          if mbr_type sector i = PART_TYPE_EMPTY then (t, found)
                          else let (t, rc) = partition_register (mbr_partition d bdev sector i) t in
                               if rc < 0 then (t, found) else (t, found + 1)) [0..<4] (t, 0))"

section \<open>Tables found by name\<close>

locale name_table =
  fixes name_of :: "'a \<Rightarrow> u8 list"
    and valid :: "'a \<Rightarrow> bool"
    and cap :: nat
    and register :: "'a \<Rightarrow> 'a list \<Rightarrow> 'a list \<times> int"
    and find_name :: "u8 list \<Rightarrow> 'a list \<Rightarrow> nat option"
  assumes register_new: "valid x \<Longrightarrow> length t < cap \<Longrightarrow> find_name (name_of x) t = None \<Longrightarrow> register x t = (t @ [x], 0)"
    and register_old: "valid x \<Longrightarrow> length t < cap \<Longrightarrow> find_name (name_of x) t = Some i \<Longrightarrow> register x t = (t[i := x], 0)"
    and register_fail: "\<not> valid x \<or> cap \<le> length t \<Longrightarrow> fst (register x t) = t \<and> snd (register x t) < 0"
    and find_iff: "(find_name n t = Some i) = (i < length t \<and> name_of (t ! i) = n \<and> (\<forall>j < i. name_of (t ! j) \<noteq> n))"
begin

definition lookup :: "u8 list \<Rightarrow> 'a list \<Rightarrow> 'a option" where
  "lookup n t = map_option (\<lambda>i. t ! i) (find_name n t)"

definition table_ok :: "'a list \<Rightarrow> bool" where
  "table_ok t \<longleftrightarrow> distinct (map name_of t) \<and> length t \<le> cap"

lemma find_None: "find_name n t = None \<Longrightarrow> n \<notin> set (map name_of t)"
proof
  assume none: "find_name n t = None" and "n \<in> set (map name_of t)"
  then have ex: "\<exists>i. i < length t \<and> name_of (t ! i) = n" by (auto simp: in_set_conv_nth)
  then obtain i where "i < length t" "name_of (t ! i) = n" "\<forall>j < i. \<not> (j < length t \<and> name_of (t ! j) = n)"
    using exists_least_iff [of "\<lambda>i. i < length t \<and> name_of (t ! i) = n"] by auto
  then have "find_name n t = Some i" unfolding find_iff by (metis order_less_trans)
  with none show False by simp
qed

lemma lookup_Some: "table_ok t \<Longrightarrow> (lookup n t = Some x) = (x \<in> set t \<and> name_of x = n)"
proof
  assume ok: "table_ok t" and x: "x \<in> set t \<and> name_of x = n"
  then obtain i where i: "i < length t" "t ! i = x" by (auto simp: in_set_conv_nth)
  have "find_name n t = Some i"
    using i x ok by (auto simp: find_iff table_ok_def distinct_conv_nth)
  then show "lookup n t = Some x" using i by (simp add: lookup_def)
qed (auto simp: lookup_def find_iff)

text \<open>Registering keeps the names distinct; the entry is found, and no other name changes.\<close>

lemma lookup_cong:
  assumes "table_ok t" "table_ok t'" "\<And>y. name_of y = n \<Longrightarrow> (y \<in> set t') = (y \<in> set t)"
  shows "lookup n t' = lookup n t"
proof -
  have "(lookup n t' = Some y) = (lookup n t = Some y)" for y
    using assms(3) [of y] by (simp add: lookup_Some assms(1,2)) blast
  then show ?thesis by (metis option.exhaust)
qed

lemma update_others:
  assumes "i < length t" "name_of (t ! i) = name_of x" "name_of y \<noteq> name_of x"
  shows "(y \<in> set (t[i := x])) = (y \<in> set t)"
proof -
  have "(\<exists>j < length t. t[i := x] ! j = y) = (\<exists>j < length t. t ! j = y)"
    using assms by (metis nth_list_update_eq nth_list_update_neq)
  then show ?thesis by (simp add: in_set_conv_nth)
qed

lemma register_ok:
  assumes ok: "table_ok t" and r: "register x t = (t', rc)"
  shows "table_ok t' \<and> (if valid x \<and> length t < cap then rc = 0 \<and> (\<forall>n. lookup n t' = (if n = name_of x then Some x else lookup n t))
    else rc < 0 \<and> t' = t)"
proof (cases "valid x \<and> length t < cap")
  case True
  have "table_ok t' \<and> rc = 0 \<and> x \<in> set t' \<and> (\<forall>y. name_of y \<noteq> name_of x \<longrightarrow> (y \<in> set t') = (y \<in> set t))"
  proof (cases "find_name (name_of x) t")
    case None
    have "t' = t @ [x]" "rc = 0" using register_new [of x t] True None r by auto
    then show ?thesis using ok find_None [OF None] True by (auto simp: table_ok_def)
  next
    case (Some i)
    have t': "t' = t[i := x]" "rc = 0" using register_old [of x t i] True Some r by auto
    have i: "i < length t" "name_of (t ! i) = name_of x" using Some by (auto simp: find_iff)
    have "map name_of t' = (map name_of t)[i := map name_of t ! i]" using i t' by (simp add: map_update)
    then have "map name_of t' = map name_of t" by (simp only: list_update_id)
    then have "table_ok t'" using ok t' by (simp add: table_ok_def)
    then show ?thesis using t' i update_others [OF i] by (auto simp: set_update_memI)
  qed
  then have t': "table_ok t'" "rc = 0" "x \<in> set t'" "\<And>y. name_of y \<noteq> name_of x \<Longrightarrow> (y \<in> set t') = (y \<in> set t)" by auto
  have "lookup n t' = (if n = name_of x then Some x else lookup n t)" for n
    using lookup_cong [OF ok t'(1), of n] t'(3,4) by (auto simp: lookup_Some [OF t'(1)])
  then show ?thesis using t' True by simp
next
  case False
  then show ?thesis using register_fail [of x t] r ok by auto
qed

end

interpretation blockdevs: name_table bd_name "\<lambda>_. True" BLOCKDEV_MAX blockdev_register blockdev_find
proof (unfold_locales, goal_cases)
  case (4 n t i)
  show ?case by (simp add: blockdev_find_def find_upt_Some)
qed (auto simp: blockdev_register_def blockdev_find_def ENOSPC_def)

interpretation partitions: name_table part_name "\<lambda>p. parent p \<noteq> None" PARTITION_MAX partition_register partition_find
proof (unfold_locales, goal_cases)
  case (4 n t i)
  show ?case by (simp add: partition_find_def find_upt_Some)
qed (auto simp: partition_register_def partition_find_def ENOSPC_def EINVAL_def)

section \<open>Scanning a master boot record\<close>

definition scan_entry :: "nat \<Rightarrow> block_device \<Rightarrow> u8 list \<Rightarrow> nat \<Rightarrow> partition list \<times> int \<Rightarrow> partition list \<times> int" where
  "scan_entry d bdev sector i = (\<lambda>(t, found).
     if mbr_type sector i = PART_TYPE_EMPTY then (t, found)
     else let (t, rc) = partition_register (mbr_partition d bdev sector i) t in
          if rc < 0 then (t, found) else (t, found + 1))"

lemma register_length: "length (fst (partition_register p t)) \<le> length t + 1"
  by (auto simp: partition_register_def split: option.splits)

lemma scan_loop:
  assumes "partitions.table_ok t" "length t + length is \<le> PARTITION_MAX"
    "distinct (map (\<lambda>i. part_name (mbr_partition d bdev sector i)) is)"
  shows "\<exists>t' n'. fold (scan_entry d bdev sector) is (t, n) = (t', n') \<and> partitions.table_ok t' \<and>
    n' = n + int (length (filter (\<lambda>i. mbr_type sector i \<noteq> PART_TYPE_EMPTY) is)) \<and>
    (\<forall>i \<in> set is. mbr_type sector i \<noteq> PART_TYPE_EMPTY \<longrightarrow>
       partitions.lookup (part_name (mbr_partition d bdev sector i)) t' = Some (mbr_partition d bdev sector i)) \<and>
    (\<forall>m. m \<notin> (\<lambda>i. part_name (mbr_partition d bdev sector i)) ` {i \<in> set is. mbr_type sector i \<noteq> PART_TYPE_EMPTY} \<longrightarrow>
       partitions.lookup m t' = partitions.lookup m t)"
  using assms
proof (induction "is" arbitrary: t n)
  case (Cons i "is")
  let ?p = "mbr_partition d bdev sector i"
  show ?case
  proof (cases "mbr_type sector i = PART_TYPE_EMPTY")
    case True
    then have e: "fold (scan_entry d bdev sector) (i # is) (t, n) = fold (scan_entry d bdev sector) is (t, n)"
      by (simp add: scan_entry_def)
    have f: "{j \<in> set (i # is). mbr_type sector j \<noteq> PART_TYPE_EMPTY} = {j \<in> set is. mbr_type sector j \<noteq> PART_TYPE_EMPTY}"
      using True by auto
    obtain t' n' where "fold (scan_entry d bdev sector) is (t, n) = (t', n')" "partitions.table_ok t'"
      "n' = n + int (length (filter (\<lambda>i. mbr_type sector i \<noteq> PART_TYPE_EMPTY) is))"
      "\<forall>j \<in> set is. mbr_type sector j \<noteq> PART_TYPE_EMPTY \<longrightarrow>
        partitions.lookup (part_name (mbr_partition d bdev sector j)) t' = Some (mbr_partition d bdev sector j)"
      "\<forall>m. m \<notin> (\<lambda>i. part_name (mbr_partition d bdev sector i)) ` {i \<in> set is. mbr_type sector i \<noteq> PART_TYPE_EMPTY} \<longrightarrow>
        partitions.lookup m t' = partitions.lookup m t"
      using Cons.IH [of t n] Cons.prems by auto
    then show ?thesis unfolding e f using True by auto
  next
    case False
    obtain t1 rc where r: "partition_register ?p t = (t1, rc)" by (cases "partition_register ?p t")
    have ok1: "partitions.table_ok t1" "rc = 0"
      "\<And>m. partitions.lookup m t1 = (if m = part_name ?p then Some ?p else partitions.lookup m t)"
      using partitions.register_ok [OF Cons.prems(1) r] Cons.prems(2) by (auto simp: mbr_partition_def)
    have l1: "length t1 + length is \<le> PARTITION_MAX" using register_length [of ?p t] r Cons.prems(2) by simp
    have e: "fold (scan_entry d bdev sector) (i # is) (t, n) = fold (scan_entry d bdev sector) is (t1, n + 1)"
      using False r ok1(2) by (simp add: scan_entry_def)
    have f: "{j \<in> set (i # is). mbr_type sector j \<noteq> PART_TYPE_EMPTY} = insert i {j \<in> set is. mbr_type sector j \<noteq> PART_TYPE_EMPTY}"
      using False by auto
    have new: "part_name ?p \<notin> (\<lambda>i. part_name (mbr_partition d bdev sector i)) ` {j \<in> set is. mbr_type sector j \<noteq> PART_TYPE_EMPTY}"
      using Cons.prems(3) by auto
    obtain t' n' where h: "fold (scan_entry d bdev sector) is (t1, n + 1) = (t', n')" "partitions.table_ok t'"
      "n' = n + 1 + int (length (filter (\<lambda>i. mbr_type sector i \<noteq> PART_TYPE_EMPTY) is))"
      "\<forall>j \<in> set is. mbr_type sector j \<noteq> PART_TYPE_EMPTY \<longrightarrow>
        partitions.lookup (part_name (mbr_partition d bdev sector j)) t' = Some (mbr_partition d bdev sector j)"
      "\<forall>m. m \<notin> (\<lambda>i. part_name (mbr_partition d bdev sector i)) ` {i \<in> set is. mbr_type sector i \<noteq> PART_TYPE_EMPTY} \<longrightarrow>
        partitions.lookup m t' = partitions.lookup m t1"
      using Cons.IH [OF ok1(1) l1, of "n + 1"] Cons.prems(3) by auto
    have "partitions.lookup (part_name ?p) t' = Some ?p" using h(5) new ok1(3) by simp
    then show ?thesis unfolding e f using h ok1(3) False by auto
  qed
qed simp

lemma mbr_names:
  assumes "length (bd_name bdev) < 30"
  shows "part_name (mbr_partition d bdev sector i) = bd_name bdev @ [49 + of_nat i]"
    "distinct (map (\<lambda>i. part_name (mbr_partition d bdev sector i)) [0..<4])"
proof -
  show n: "part_name (mbr_partition d bdev sector i) = bd_name bdev @ [49 + of_nat i]" for i
    using assms by (simp add: mbr_partition_def)
  have "[0..<4] = [0, 1, 2, 3]" by code_simp
  then show "distinct (map (\<lambda>i. part_name (mbr_partition d bdev sector i)) [0..<4])" by (simp add: n)
qed


definition demo_sector :: "u8 list" where
  "demo_sector = (replicate 512 0)[450 := 0x83, 454 := 63, 458 := 100, 510 := 0x55, 511 := 0xAA]"

definition demo_disk :: disk where
  "demo_disk = (\<lambda>_ _. Inr demo_sector)"

definition demo_dev :: block_device where
  "demo_dev = \<lparr>bd_name = [104, 100, 97], sector_size = 512, sector_count = 1000, drive_id = 0, bd_refcount = 0, has_ops = True\<rparr>"


end
