(* ===== verification/Drivers.thy ===== *)
theory Drivers
  imports Kernel_Prelude "HOL-Library.Multiset"
begin

text \<open>
  The registry of device drivers, \<^verbatim>\<open>src/kernel/driver.c\<close>. The operations of the drivers are outside of the registry: \<open>probe\<close> and
  \<open>init\<close> give the result of calling the operation of a driver, and the calls are recorded in the order they are made.
\<close>

section \<open>The code\<close>

definition HAL_MAX_DRIVERS :: nat where "HAL_MAX_DRIVERS = 32"

record hal_driver =
  drv_id :: nat
  drv_name :: "u8 list option"
  priority :: int
  has_probe :: bool
  has_init :: bool
  has_shutdown :: bool

datatype drv_call = Probe nat | Init nat | Shutdown nat

record registry =
  drivers :: "hal_driver list"
  driver_inited :: "bool list"
  calls :: "drv_call list"

definition hal_driver_register :: "hal_driver option \<Rightarrow> registry \<Rightarrow> registry \<times> int" where
  "hal_driver_register drv s =
     (case drv of
        None \<Rightarrow> (s, - 1)
      | Some d \<Rightarrow>
          if drv_name d = None then (s, - 1)
          else if HAL_MAX_DRIVERS \<le> length (drivers s) then (s, - 1)
          else (s\<lparr>drivers := drivers s @ [d], driver_inited := driver_inited s @ [False]\<rparr>, 0))"

text \<open>The inner loop of the insertion sort: the place \<^verbatim>\<open>j + 1\<close> is free, and larger drivers below it move up.\<close>

fun shift_up :: "hal_driver list \<Rightarrow> nat \<Rightarrow> hal_driver \<Rightarrow> hal_driver list" where
  "shift_up ds 0 tmp = ds[0 := tmp]"
| "shift_up ds (Suc j) tmp =
     (if priority tmp < priority (ds ! j) then shift_up (ds[Suc j := ds ! j]) j tmp else ds[Suc j := tmp])"

definition sort_drivers :: "hal_driver list \<Rightarrow> hal_driver list" where
  "sort_drivers ds = fold (\<lambda>i ds. shift_up ds i (ds ! i)) [1..<length ds] ds"

definition call_if :: "bool \<Rightarrow> drv_call \<Rightarrow> registry \<Rightarrow> registry" where
  "call_if b c s = (if b then s\<lparr>calls := calls s @ [c]\<rparr> else s)"

definition init_driver :: "(nat \<Rightarrow> int) \<Rightarrow> (nat \<Rightarrow> int) \<Rightarrow> nat \<Rightarrow> registry \<times> nat \<Rightarrow> registry \<times> nat" where
  "init_driver probe init i = (\<lambda>(s, ok).
     let d = drivers s ! i;
         s = call_if (has_probe d) (Probe (drv_id d)) s
     in if has_probe d \<and> probe (drv_id d) \<noteq> 0 then (s, ok)
        else let s = call_if (has_init d) (Init (drv_id d)) s in
             if has_init d \<and> init (drv_id d) \<noteq> 0 then (s, ok)
             else (s\<lparr>driver_inited := (driver_inited s)[i := True]\<rparr>, ok + 1))"

definition hal_drivers_init_all :: "(nat \<Rightarrow> int) \<Rightarrow> (nat \<Rightarrow> int) \<Rightarrow> registry \<Rightarrow> registry \<times> nat" where
  "hal_drivers_init_all probe init s =
     (let s = s\<lparr>drivers := sort_drivers (drivers s)\<rparr> in fold (init_driver probe init) [0..<length (drivers s)] (s, 0))"

definition shutdown_driver :: "nat \<Rightarrow> registry \<Rightarrow> registry" where
  "shutdown_driver i s =
     (if driver_inited s ! i \<and> has_shutdown (drivers s ! i)
      then (call_if True (Shutdown (drv_id (drivers s ! i))) s)\<lparr>driver_inited := (driver_inited s)[i := False]\<rparr> else s)"

definition hal_drivers_shutdown_all :: "registry \<Rightarrow> registry" where
  "hal_drivers_shutdown_all s = fold shutdown_driver (rev [0..<length (drivers s)]) s"

definition hal_driver_find :: "u8 list \<Rightarrow> registry \<Rightarrow> nat option" where
  "hal_driver_find name s = find (\<lambda>i. drv_name (drivers s ! i) = Some name) [0..<length (drivers s)]"

definition hal_driver_count :: "registry \<Rightarrow> nat" where
  "hal_driver_count s = length (drivers s)"

section \<open>The sort\<close>

lemma shift_up_split:
  "\<exists>l r. a = l @ r \<and> shift_up (a @ x # b) (length a) tmp = l @ tmp # r @ b \<and>
     (\<forall>y \<in> set r. priority tmp < priority y) \<and> (l \<noteq> [] \<longrightarrow> priority (last l) \<le> priority tmp)"
proof (induction a arbitrary: x b rule: rev_induct)
  case (snoc y a)
  show ?case
  proof (cases "priority tmp < priority y")
    case True
    obtain l r where "a = l @ r" "shift_up (a @ y # y # b) (length a) tmp = l @ tmp # r @ y # b"
      "\<forall>y \<in> set r. priority tmp < priority y" "l \<noteq> [] \<longrightarrow> priority (last l) \<le> priority tmp"
      using snoc [of y "y # b"] by (metis append.assoc)
    then show ?thesis using True by (intro exI [of _ l] exI [of _ "r @ [y]"]) (auto simp: nth_append list_update_append)
  next
    case False
    then show ?thesis by (intro exI [of _ "a @ [y]"] exI [of _ "[]"]) (auto simp: nth_append list_update_append)
  qed
qed simp

lemma insert_stable:
  assumes s: "sort_key priority xs = l @ r" and r: "\<forall>y \<in> set r. priority x < priority y"
    and l: "l \<noteq> [] \<longrightarrow> priority (last l) \<le> priority x"
  shows "sort_key priority (xs @ [x]) = l @ x # r"
proof (rule properties_for_sort_key)
  have m: "mset (l @ r) = mset xs" by (metis s mset_sort)
  then show "mset (l @ x # r) = mset (xs @ [x])" by simp
  have sorted: "sorted (map priority (l @ r))" by (metis s sorted_sort_key)
  have le: "priority y \<le> priority x" if y: "y \<in> set l" for y
  proof -
    obtain l0 z where z: "l = l0 @ [z]" using y by (cases l rule: rev_cases) auto
    then have "priority y \<le> priority z" using sorted y by (auto simp: sorted_append)
    then show ?thesis using l z by auto
  qed
  then show "sorted (map priority (l @ x # r))" using sorted r by (fastforce simp: sorted_append)
  show "filter (\<lambda>y. priority k = priority y) (l @ x # r) = filter (\<lambda>y. priority k = priority y) (xs @ [x])" for k
  proof -
    have st: "filter (\<lambda>y. priority k = priority y) (l @ r) = filter (\<lambda>y. priority k = priority y) xs"
      unfolding s [symmetric] by (simp add: eq_commute [of "priority k"] sort_key_stable)
    have "priority k = priority x \<Longrightarrow> filter (\<lambda>y. priority k = priority y) r = []" using r by (auto simp: filter_empty_conv)
    then show ?thesis using st by auto
  qed
qed

lemma sort_drivers_prefix:
  "i < length ds \<Longrightarrow> fold (\<lambda>i ds. shift_up ds i (ds ! i)) [1..<Suc i] ds = sort_key priority (take (Suc i) ds) @ drop (Suc i) ds"
proof (induction i)
  case 0
  then show ?case by (cases ds) auto
next
  case (Suc i)
  define a where "a = sort_key priority (take (Suc i) ds)"
  let ?x = "ds ! Suc i"
  have len: "length a = Suc i" using Suc.prems by (simp add: a_def)
  have d: "drop (Suc i) ds = ?x # drop (Suc (Suc i)) ds" using Suc.prems by (simp add: Cons_nth_drop_Suc)
  obtain l r where lr: "a = l @ r" "shift_up (a @ ?x # drop (Suc (Suc i)) ds) (length a) ?x = l @ ?x # r @ drop (Suc (Suc i)) ds"
    "\<forall>y \<in> set r. priority ?x < priority y" "l \<noteq> [] \<longrightarrow> priority (last l) \<le> priority ?x"
    using shift_up_split [of a ?x "drop (Suc (Suc i)) ds" ?x] by blast
  have "sort_key priority (take (Suc i) ds @ [?x]) = l @ ?x # r"
    by (rule insert_stable) (use lr a_def in auto)
  then have k: "sort_key priority (take (Suc (Suc i)) ds) = l @ ?x # r" using Suc.prems by (simp add: take_Suc_conv_app_nth)
  have nth: "(a @ ?x # drop (Suc (Suc i)) ds) ! Suc i = ?x" using len by (simp add: nth_append)
  have "fold (\<lambda>i ds. shift_up ds i (ds ! i)) [1..<Suc (Suc i)] ds = shift_up (a @ ?x # drop (Suc (Suc i)) ds) (Suc i) ?x"
    using Suc d nth by (simp add: a_def)
  then show ?case using lr(2) len k by simp
qed

lemma sort_drivers_eq: "sort_drivers ds = sort_key priority ds"
  using sort_drivers_prefix [of "length ds - 1" ds] by (cases ds) (auto simp: sort_drivers_def)

section \<open>The order of the calls\<close>

definition comes_up :: "(nat \<Rightarrow> int) \<Rightarrow> (nat \<Rightarrow> int) \<Rightarrow> hal_driver \<Rightarrow> bool" where
  "comes_up probe init d \<longleftrightarrow> (has_probe d \<longrightarrow> probe (drv_id d) = 0) \<and> (has_init d \<longrightarrow> init (drv_id d) = 0)"

definition bring_up :: "(nat \<Rightarrow> int) \<Rightarrow> hal_driver \<Rightarrow> drv_call list" where
  "bring_up probe d = (if has_probe d then [Probe (drv_id d)] else []) @
     (if has_init d \<and> (has_probe d \<longrightarrow> probe (drv_id d) = 0) then [Init (drv_id d)] else [])"

lemma init_driver_spec:
  assumes "i < length (driver_inited s)"
  shows "init_driver probe init i (s, n) =
    (s\<lparr>calls := calls s @ bring_up probe (drivers s ! i),
       driver_inited := (driver_inited s)[i := driver_inited s ! i \<or> comes_up probe init (drivers s ! i)]\<rparr>,
     n + (if comes_up probe init (drivers s ! i) then 1 else 0))"
  using assms by (auto simp: init_driver_def call_if_def bring_up_def comes_up_def Let_def)

lemma init_loop:
  assumes "length (driver_inited s) = length (drivers s)" "k \<le> length (drivers s)" "\<forall>i < length (drivers s). \<not> driver_inited s ! i"
  shows "\<exists>s'. fold (init_driver probe init) [0..<k] (s, 0) = (s', length (filter (comes_up probe init) (take k (drivers s)))) \<and>
    drivers s' = drivers s \<and> calls s' = calls s @ concat (map (bring_up probe) (take k (drivers s))) \<and>
    length (driver_inited s') = length (drivers s) \<and>
    (\<forall>i < length (drivers s). driver_inited s' ! i = (i < k \<and> comes_up probe init (drivers s ! i)))"
  using assms(2)
proof (induction k)
  case 0
  then show ?case using assms by auto
next
  case (Suc k)
  then obtain s' where s': "fold (init_driver probe init) [0..<k] (s, 0) = (s', length (filter (comes_up probe init) (take k (drivers s))))"
    "drivers s' = drivers s" "calls s' = calls s @ concat (map (bring_up probe) (take k (drivers s)))"
    "length (driver_inited s') = length (drivers s)"
    "\<And>i. i < length (drivers s) \<Longrightarrow> driver_inited s' ! i = (i < k \<and> comes_up probe init (drivers s ! i))" by auto
  have t: "take (Suc k) (drivers s) = take k (drivers s) @ [drivers s ! k]" using Suc.prems by (simp add: take_Suc_conv_app_nth)
  show ?case using s' Suc.prems by (auto simp: init_driver_spec t nth_list_update less_Suc_eq)
qed

lemma filter_indices: "map (\<lambda>i. f (xs ! i)) (filter (\<lambda>i. P (xs ! i)) [0..<length xs]) = map f (filter P xs)"
proof -
  have "filter P xs = map (\<lambda>i. xs ! i) (filter (\<lambda>i. P (xs ! i)) [0..<length xs])"
    using filter_map [of P "\<lambda>i. xs ! i" "[0..<length xs]"] by (simp add: map_nth comp_def)
  then show ?thesis by (simp add: comp_def)
qed

lemma shutdown_loop:
  assumes "length (driver_inited s) = length (drivers s)" "k \<le> length (drivers s)"
  shows "calls (fold shutdown_driver (rev [0..<k]) s) = calls s @
    map (\<lambda>i. Shutdown (drv_id (drivers s ! i))) (rev (filter (\<lambda>i. driver_inited s ! i \<and> has_shutdown (drivers s ! i)) [0..<k]))"
  using assms
proof (induction k arbitrary: s)
  case (Suc k)
  let ?s = "shutdown_driver k s"
  have f: "drivers ?s = drivers s" "length (driver_inited ?s) = length (drivers s)"
    using Suc.prems by (simp_all add: shutdown_driver_def call_if_def)
  have same: "filter (\<lambda>i. driver_inited ?s ! i \<and> has_shutdown (drivers s ! i)) [0..<k] =
      filter (\<lambda>i. driver_inited s ! i \<and> has_shutdown (drivers s ! i)) [0..<k]"
    by (rule filter_cong) (auto simp: shutdown_driver_def call_if_def)
  have c: "calls ?s = calls s @ (if driver_inited s ! k \<and> has_shutdown (drivers s ! k) then [Shutdown (drv_id (drivers s ! k))] else [])"
    by (simp add: shutdown_driver_def call_if_def)
  show ?case using Suc.IH [of ?s] Suc.prems f same c by simp
qed simp

text \<open>
  C30. Drivers are brought up in the order of their priorities, those with equal priority in the order of registration: each is probed,
  and, if present, initialised, once, and the result is the number of those that succeed. A later shutdown calls exactly the drivers
  that came up and have a shutdown operation, in the reverse order.
\<close>

theorem hal_drivers_lifecycle:
  assumes "length (driver_inited s) = length (drivers s)" "\<forall>i < length (drivers s). \<not> driver_inited s ! i"
    "hal_drivers_init_all probe init s = (s', n)"
  shows "n = length (filter (comes_up probe init) (drivers s)) \<and>
    calls s' = calls s @ concat (map (bring_up probe) (sort_key priority (drivers s))) \<and>
    calls (hal_drivers_shutdown_all s') = calls s' @
      map (\<lambda>d. Shutdown (drv_id d)) (rev (filter (\<lambda>d. comes_up probe init d \<and> has_shutdown d) (sort_key priority (drivers s))))"
proof -
  let ?ds = "sort_key priority (drivers s)"
  let ?s = "s\<lparr>drivers := ?ds\<rparr>"
  have len: "length (driver_inited ?s) = length (drivers ?s)" "\<forall>i < length (drivers ?s). \<not> driver_inited ?s ! i" using assms(1,2) by simp_all
  obtain s1 where s1: "fold (init_driver probe init) [0..<length ?ds] (?s, 0) = (s1, length (filter (comes_up probe init) ?ds))"
    "drivers s1 = ?ds" "calls s1 = calls s @ concat (map (bring_up probe) ?ds)" "length (driver_inited s1) = length ?ds"
    "\<And>i. i < length ?ds \<Longrightarrow> driver_inited s1 ! i = comes_up probe init (?ds ! i)"
    using init_loop [OF len(1) order_refl len(2), of probe init] by auto
  have s': "s' = s1" "n = length (filter (comes_up probe init) ?ds)"
    using assms(3) s1(1) by (simp_all add: hal_drivers_init_all_def sort_drivers_eq)
  have count: "length (filter (comes_up probe init) ?ds) = length (filter (comes_up probe init) (drivers s))"
    by (metis mset_filter mset_sort size_mset)
  have filt: "filter (\<lambda>i. driver_inited s1 ! i \<and> has_shutdown (?ds ! i)) [0..<length ?ds] =
      filter (\<lambda>i. comes_up probe init (?ds ! i) \<and> has_shutdown (?ds ! i)) [0..<length ?ds]"
    by (rule filter_cong) (auto simp: s1(5))
  have "calls (hal_drivers_shutdown_all s1) = calls s1 @
      map (\<lambda>d. Shutdown (drv_id d)) (rev (filter (\<lambda>d. comes_up probe init d \<and> has_shutdown d) ?ds))"
    using shutdown_loop [of s1 "length ?ds"] s1(2,4) filt filter_indices [of "\<lambda>d. Shutdown (drv_id d)" ?ds "\<lambda>d. comes_up probe init d \<and> has_shutdown d"]
    by (simp add: hal_drivers_shutdown_all_def rev_map [symmetric])
  then show ?thesis using s' s1(3) count by simp
qed

definition demo_registry :: registry where
  "demo_registry = \<lparr>drivers = [\<lparr>drv_id = 1, drv_name = Some [97], priority = 20, has_probe = False, has_init = True, has_shutdown = True\<rparr>,
     \<lparr>drv_id = 2, drv_name = Some [98], priority = 10, has_probe = True, has_init = True, has_shutdown = True\<rparr>],
     driver_inited = [False, False], calls = []\<rparr>"

lemma hal_drivers_lifecycle_witness:
  "calls (hal_drivers_shutdown_all (fst (hal_drivers_init_all (\<lambda>_. 0) (\<lambda>_. 0) demo_registry))) =
     [Probe 2, Init 2, Init 1, Shutdown 1, Shutdown 2]"
  using hal_drivers_lifecycle [of demo_registry "\<lambda>_. 0" "\<lambda>_. 0" "fst (hal_drivers_init_all (\<lambda>_. 0) (\<lambda>_. 0) demo_registry)"
    "snd (hal_drivers_init_all (\<lambda>_. 0) (\<lambda>_. 0) demo_registry)"]
  by (simp add: demo_registry_def comes_up_def bring_up_def less_Suc_eq)

end
