(* ===== verification/Utmp.thy ===== *)
theory Utmp
  imports Kernel_Prelude
begin

unbundle bit_operations_syntax

text \<open>
  The table of logins, \<^verbatim>\<open>src/kernel/utmp.c\<close>. A string field holds the characters in front of its final zero. The tick
  count is an argument. The steps of the table are the inductive predicate \<open>utmp_step\<close>.
\<close>

definition UTMP_MAX_ENTRIES :: nat where "UTMP_MAX_ENTRIES = 32"
definition TIMER_HZ :: u32 where "TIMER_HZ = 100"

datatype ut_type = UT_EMPTY | USER_PROCESS | DEAD_PROCESS

record utmp =
  ut_type :: ut_type
  ut_pid :: u32
  ut_line :: "u8 list"
  ut_user :: "u8 list"
  ut_host :: "u8 list"
  e_termination :: u16
  e_exit :: u16
  ut_session :: u32
  tv_sec :: u32
  tv_usec :: u32

definition empty_utmp :: utmp where
  "empty_utmp = \<lparr>ut_type = UT_EMPTY, ut_pid = 0, ut_line = [], ut_user = [], ut_host = [], e_termination = 0, e_exit = 0,
     ut_session = 0, tv_sec = 0, tv_usec = 0\<rparr>"

definition utmp_init :: "utmp list" where
  "utmp_init = replicate UTMP_MAX_ENTRIES empty_utmp"

definition utmp_get_time :: "u32 \<Rightarrow> utmp \<Rightarrow> utmp" where
  "utmp_get_time ticks u = u\<lparr>tv_sec := ticks div TIMER_HZ, tv_usec := (ticks mod TIMER_HZ) * (1000000 div TIMER_HZ)\<rparr>"

definition utmp_login :: "u32 \<Rightarrow> u32 \<Rightarrow> u8 list option \<Rightarrow> u8 list option \<Rightarrow> u8 list option \<Rightarrow> utmp list \<Rightarrow> utmp list \<times> int" where
  "utmp_login ticks pid line user host t =
     (case (line, user) of
        (Some l, Some u) \<Rightarrow>
          (case find (\<lambda>i. ut_type (t ! i) = UT_EMPTY) [0..<UTMP_MAX_ENTRIES] of
             None \<Rightarrow> (t, - ENOSPC)
           | Some slot \<Rightarrow>
               (t[slot := utmp_get_time ticks (empty_utmp\<lparr>ut_type := USER_PROCESS, ut_pid := pid, ut_line := take 31 l, ut_user := take 31 u,
                  ut_host := (case host of None \<Rightarrow> [] | Some h \<Rightarrow> take 255 h), ut_session := 0\<rparr>)], 0))
      | _ \<Rightarrow> (t, - EINVAL))"

definition utmp_slot :: "u32 \<Rightarrow> utmp list \<Rightarrow> nat option" where
  "utmp_slot pid t = find (\<lambda>i. ut_type (t ! i) = USER_PROCESS \<and> ut_pid (t ! i) = pid) [0..<UTMP_MAX_ENTRIES]"

definition utmp_logout :: "u32 \<Rightarrow> u32 \<Rightarrow> utmp list \<Rightarrow> utmp list \<times> int" where
  "utmp_logout ticks pid t =
     (case utmp_slot pid t of
        None \<Rightarrow> (t, - ESRCH)
      | Some i \<Rightarrow> (t[i := utmp_get_time ticks ((t ! i)\<lparr>ut_type := DEAD_PROCESS\<rparr>)], 0))"

definition utmp_dead :: "u32 \<Rightarrow> u32 \<Rightarrow> u32 \<Rightarrow> utmp list \<Rightarrow> utmp list \<times> int" where
  "utmp_dead ticks pid status t =
     (case utmp_slot pid t of
        None \<Rightarrow> (t, - ESRCH)
      | Some i \<Rightarrow> (t[i := utmp_get_time ticks ((t ! i)\<lparr>ut_type := DEAD_PROCESS, e_exit := ucast (status AND 0xFF),
                     e_termination := ucast (drop_bit 8 status AND 0xFF)\<rparr>)], 0))"

definition utmp_get_by_pid :: "u32 \<Rightarrow> utmp list \<Rightarrow> nat option" where
  "utmp_get_by_pid pid t = utmp_slot pid t"

text \<open>A history of the table, with the number of logins that succeeded.\<close>

inductive utmp_run :: "utmp list \<Rightarrow> nat \<Rightarrow> bool" where
  boot: "utmp_run utmp_init 0"
| login: "utmp_run t n \<Longrightarrow> utmp_login ticks pid line user host t = (t', r) \<Longrightarrow> utmp_run t' (if r = 0 then n + 1 else n)"
| logout: "utmp_run t n \<Longrightarrow> utmp_run (fst (utmp_logout ticks pid t)) n"
| dead: "utmp_run t n \<Longrightarrow> utmp_run (fst (utmp_dead ticks pid status t)) n"

definition used_slots :: "utmp list \<Rightarrow> nat set" where
  "used_slots t = {i. i < UTMP_MAX_ENTRIES \<and> ut_type (t ! i) \<noteq> UT_EMPTY}"

lemma finite_used [simp]: "finite (used_slots t)"
  by (rule finite_subset [of _ "{..<UTMP_MAX_ENTRIES}"]) (auto simp: used_slots_def)

lemma used_dead:
  assumes "utmp_slot pid t = Some i" "length t = UTMP_MAX_ENTRIES" "ut_type x \<noteq> UT_EMPTY"
  shows "used_slots (t[i := x]) = used_slots t"
proof -
  have "ut_type (t ! i) \<noteq> UT_EMPTY" using assms(1) by (auto simp: utmp_slot_def find_upt_Some)
  then show ?thesis using assms by (auto simp: used_slots_def nth_update_if)
qed

lemma get_time_type [simp]: "ut_type (utmp_get_time ticks u) = ut_type u"
  by (simp add: utmp_get_time_def)

lemma utmp_run_used: "utmp_run t n \<Longrightarrow> length t = UTMP_MAX_ENTRIES \<and> card (used_slots t) = n"
proof (induction rule: utmp_run.induct)
  case boot
  show ?case by (simp add: utmp_init_def used_slots_def empty_utmp_def)
next
  case (login t n ticks pid line user host t' r)
  show ?case
  proof (cases "r = 0")
    case True
    then obtain slot x where s: "t' = t[slot := x]" "slot < UTMP_MAX_ENTRIES" "ut_type (t ! slot) = UT_EMPTY" "ut_type x = USER_PROCESS"
      using login.hyps(2)
      by (auto simp: utmp_login_def errno_defs find_upt_Some split: option.splits)
    have "used_slots t' = insert slot (used_slots t)" "slot \<notin> used_slots t"
      using s login.IH by (auto simp: used_slots_def nth_update_if)
    then show ?thesis using login.IH s True by simp
  next
    case False
    then have "t' = t" using login.hyps(2) by (auto simp: utmp_login_def split: option.splits)
    then show ?thesis using login.IH False by simp
  qed
next
  case (logout t n ticks pid)
  then show ?case by (cases "utmp_slot pid t") (simp_all add: utmp_logout_def used_dead)
next
  case (dead t n ticks pid status)
  then show ?case by (cases "utmp_slot pid t") (simp_all add: utmp_dead_def used_dead)
qed

text \<open>
  The table of logins fills up for good. Whatever logins, logouts and deaths happen, 32 logins succeed in the life of the system: a
  login with a line and a user succeeds if and only if fewer than 32 logins have succeeded before, however many of those sessions have ended,
  because a slot that has been used never becomes empty again.
\<close>

theorem utmp_fills_up:
  assumes "utmp_run t n"
  shows "n \<le> UTMP_MAX_ENTRIES \<and> snd (utmp_login ticks pid (Some line) (Some user) host t) = (if n < UTMP_MAX_ENTRIES then 0 else - ENOSPC)"
proof -
  have h: "length t = UTMP_MAX_ENTRIES" "card (used_slots t) = n" using utmp_run_used [OF assms] by auto
  have sub: "used_slots t \<subseteq> {..<UTMP_MAX_ENTRIES}" by (auto simp: used_slots_def)
  then have le: "n \<le> UTMP_MAX_ENTRIES" using h(2) card_mono [OF finite_lessThan sub] by simp
  have "(find (\<lambda>i. ut_type (t ! i) = UT_EMPTY) [0..<UTMP_MAX_ENTRIES] = None) = (used_slots t = {..<UTMP_MAX_ENTRIES})"
    by (auto simp: find_upt_None used_slots_def)
  also have "\<dots> = (n = UTMP_MAX_ENTRIES)" by (metis card_lessThan card_subset_eq finite_lessThan h(2) sub)
  finally have f: "(find (\<lambda>i. ut_type (t ! i) = UT_EMPTY) [0..<UTMP_MAX_ENTRIES] = None) = (n = UTMP_MAX_ENTRIES)" .
  show ?thesis using le f by (cases "find (\<lambda>i. ut_type (t ! i) = UT_EMPTY) [0..<UTMP_MAX_ENTRIES]") (simp_all add: utmp_login_def)
qed

lemma utmp_fills_up_witness:
  "snd (utmp_login 0 8 (Some [116]) (Some [117]) None (fst (utmp_logout 5 7 (fst (utmp_login 0 7 (Some [116]) (Some [117]) None utmp_init))))) = 0"
proof -
  have "utmp_run (fst (utmp_login 0 7 (Some [116]) (Some [117]) None utmp_init)) 1"
    using utmp_run.login [OF boot prod.collapse [symmetric], of 0 7 "Some [116]" "Some [117]" None]
      utmp_fills_up [OF boot, of 0 7 "[116]" "[117]" None] by (simp add: UTMP_MAX_ENTRIES_def)
  from utmp_fills_up [OF utmp_run.logout [OF this, of 5 7], of 0 8 "[116]" "[117]" None] show ?thesis by (simp add: UTMP_MAX_ENTRIES_def)
qed

end
