(* ===== verification/Cmdline.thy ===== *)
theory Cmdline
  imports Kernel_Prelude
begin

text \<open>
  The parser of the kernel command line, \<^verbatim>\<open>src/kernel/cmdline.c\<close>. A string is the list of its characters in front of the final
  zero; the pointers into the tokenized copy are the strings they point to.
\<close>

section \<open>The code\<close>

type_synonym str = "u8 list"

definition CMDLINE_MAX :: nat where "CMDLINE_MAX = 512"
definition CMDLINE_MAX_ARGS :: nat where "CMDLINE_MAX_ARGS = 16"
definition CMDLINE_MAX_ENVS :: nat where "CMDLINE_MAX_ENVS = 16"
definition KPARAM_MAX :: nat where "KPARAM_MAX = 16"
definition KFLAG_MAX :: nat where "KFLAG_MAX = 16"

definition str :: "char list \<Rightarrow> str" where
  "str s = map of_char s"

definition known_kv_keys :: "str list" where
  "known_kv_keys = map str [''init'', ''root'', ''rootfstype'', ''rootflags'', ''console'', ''loglevel'', ''rootdelay'']"

definition known_flags :: "str list" where
  "known_flags = map str [''quiet'', ''nokaslr'', ''single'', ''noapic'', ''nosmp'', ''ro'', ''rw'', ''rootwait'']"

definition is_known_kv_key :: "str \<Rightarrow> bool" where
  "is_known_kv_key key = list_ex (\<lambda>k. length k = length key \<and> k = key) known_kv_keys"

definition is_known_flag :: "str \<Rightarrow> bool" where
  "is_known_flag tok = list_ex (\<lambda>k. k = tok) known_flags"

definition has_char :: "str \<Rightarrow> u8 \<Rightarrow> bool" where
  "has_char s c = list_ex (\<lambda>x. x = c) s"

record cmdline =
  raw_copy :: str
  kparams :: "(str \<times> str) list"
  kflags :: "str list"
  init_argv :: "str list"
  init_envp :: "str list"
  init_path_val :: str

definition is_blank :: "u8 \<Rightarrow> bool" where
  "is_blank c \<longleftrightarrow> c = 32 \<or> c = 9"

function tokens :: "nat \<Rightarrow> str \<Rightarrow> str list" where
  "tokens n p =
     (if p = [] \<or> 128 \<le> n then []
      else let p = dropWhile is_blank p in
           if p = [] then []
           else takeWhile (\<lambda>c. \<not> is_blank c) p # tokens (n + 1) (drop 1 (dropWhile (\<lambda>c. \<not> is_blank c) p)))"
  by pat_completeness auto
termination by (relation "measure (\<lambda>(n, _). 128 - n)") auto

declare tokens.simps [simp del]

definition push_max :: "nat \<Rightarrow> 'a \<Rightarrow> 'a list \<Rightarrow> 'a list" where
  "push_max k x xs = (if length xs < k then xs @ [x] else xs)"

definition eq_pos :: "str \<Rightarrow> nat option" where
  "eq_pos tok = find (\<lambda>i. tok ! i = 61) [0..<length tok]"

definition classify :: "str \<Rightarrow> cmdline \<times> bool \<Rightarrow> cmdline \<times> bool" where
  "classify tok = (\<lambda>(c, after_separator).
     if tok = [45, 45] then (c, True)
     else if \<not> after_separator then
       (case eq_pos tok of
          Some k \<Rightarrow>
            if is_known_kv_key (take k tok)
            then (c\<lparr>kparams := push_max KPARAM_MAX (take k tok, drop (k + 1) tok) (kparams c)\<rparr>, after_separator)
            else (c\<lparr>init_envp := push_max CMDLINE_MAX_ENVS tok (init_envp c)\<rparr>, after_separator)
        | None \<Rightarrow>
            if is_known_flag tok then (c\<lparr>kflags := push_max KFLAG_MAX tok (kflags c)\<rparr>, after_separator)
            else if \<not> has_char tok 46 then (c\<lparr>init_argv := push_max CMDLINE_MAX_ARGS tok (init_argv c)\<rparr>, after_separator)
            else (c, after_separator))
     else if eq_pos tok \<noteq> None then (c\<lparr>init_envp := push_max CMDLINE_MAX_ENVS tok (init_envp c)\<rparr>, after_separator)
     else (c\<lparr>init_argv := push_max CMDLINE_MAX_ARGS tok (init_argv c)\<rparr>, after_separator))"

definition cmdline_get :: "str \<Rightarrow> cmdline \<Rightarrow> str option" where
  "cmdline_get key c = map_option snd (find (\<lambda>p. fst p = key) (kparams c))"

definition no_cmdline :: cmdline where
  "no_cmdline = \<lparr>raw_copy = [], kparams = [], kflags = [], init_argv = [], init_envp = [], init_path_val = str ''/init''\<rparr>"

definition cmdline_parse :: "str option \<Rightarrow> cmdline" where
  "cmdline_parse raw =
     (case raw of
        None \<Rightarrow> no_cmdline
      | Some r \<Rightarrow>
          let c = no_cmdline\<lparr>raw_copy := take (CMDLINE_MAX - 1) r\<rparr>;
              toks = tokens 0 (take (CMDLINE_MAX - 1) r)
          in if toks = [] then c
             else let toks = (if hd (hd toks) = 47 then tl toks else toks);
                      (c, _) = fold classify toks (c, False)
                  in case cmdline_get (str ''init'') c of
                       Some v \<Rightarrow> if v \<noteq> [] then c\<lparr>init_path_val := v\<rparr> else c
                     | None \<Rightarrow> c)"

definition cmdline_has :: "str \<Rightarrow> cmdline \<Rightarrow> bool" where
  "cmdline_has flag c = list_ex (\<lambda>f. f = flag) (kflags c)"

definition cmdline_init_path :: "cmdline \<Rightarrow> str" where
  "cmdline_init_path c = init_path_val c"

definition cmdline_raw :: "cmdline \<Rightarrow> str" where
  "cmdline_raw c = raw_copy c"

definition cmdline_init_argv :: "cmdline \<Rightarrow> str list \<times> nat" where
  "cmdline_init_argv c = (init_argv c, length (init_argv c))"

definition cmdline_init_envp :: "cmdline \<Rightarrow> str list \<times> nat" where
  "cmdline_init_envp c = (init_envp c, length (init_envp c))"

section \<open>The tokens\<close>

fun join :: "str list \<Rightarrow> str" where
  "join [] = []"
| "join [t] = t"
| "join (t # ts) = t @ 32 # join ts"

definition word_ok :: "str \<Rightarrow> bool" where
  "word_ok t \<longleftrightarrow> t \<noteq> [] \<and> list_all (\<lambda>c. \<not> is_blank c) t"

lemma tokens_word:
  assumes "word_ok t" "n < 128" "r = [] \<or> is_blank (hd r)"
  shows "tokens n (t @ r) = t # tokens (n + 1) (drop 1 r)"
proof -
  have t: "t \<noteq> []" "\<And>c. c \<in> set t \<Longrightarrow> \<not> is_blank c" using assms(1) by (auto simp: word_ok_def list_all_iff)
  have r: "takeWhile (\<lambda>c. \<not> is_blank c) r = []" "dropWhile (\<lambda>c. \<not> is_blank c) r = r" using assms(3) by (cases r; auto)+
  have tw: "takeWhile (\<lambda>c. \<not> is_blank c) (t @ r) = t" using takeWhile_append2 [of t "\<lambda>c. \<not> is_blank c" r] t(2) r(1) by simp
  have dw: "dropWhile (\<lambda>c. \<not> is_blank c) (t @ r) = r" using dropWhile_append2 [of t "\<lambda>c. \<not> is_blank c" r] t(2) r(2) by simp
  have db: "dropWhile is_blank (t @ r) = t @ r" using t by (cases t) auto
  show ?thesis using t(1) assms(2) unfolding tokens.simps [of n "t @ r"] Let_def db tw dw by simp
qed

lemma tokens_join: "list_all word_ok ts \<Longrightarrow> n + length ts \<le> 128 \<Longrightarrow> tokens n (join ts) = ts"
proof (induction ts arbitrary: n rule: join.induct)
  case 1
  show ?case by (simp add: tokens.simps)
next
  case (2 t)
  then show ?case using tokens_word [of t n "[]"] by (simp add: tokens.simps [of "Suc n" "[]"])
next
  case (3 t u ts)
  then show ?case using tokens_word [of t n "32 # join (u # ts)"] by (simp add: is_blank_def)
qed

section \<open>The classes\<close>

lemma push_max_take: "push_max k x (take k xs) = take k (xs @ [x])"
  by (auto simp: push_max_def)

definition key_of :: "str \<Rightarrow> str" where
  "key_of t = takeWhile (\<lambda>c. c \<noteq> 61) t"

definition value_of :: "str \<Rightarrow> str" where
  "value_of t = tl (dropWhile (\<lambda>c. c \<noteq> 61) t)"

definition has_eq :: "str \<Rightarrow> bool" where
  "has_eq t \<longleftrightarrow> 61 \<in> set t"

lemma key_shorter: "61 \<in> set t \<Longrightarrow> length (takeWhile (\<lambda>c. c \<noteq> 61) t) < length (t :: str)"
  by (induction t) auto

lemma eq_pos_eq: "eq_pos t = (if has_eq t then Some (length (key_of t)) else None)"
proof (cases "has_eq t")
  case True
  let ?k = "length (key_of t)"
  have k: "?k < length t" using True key_shorter [of t] unfolding key_of_def has_eq_def by simp
  have "t ! ?k = 61" using nth_length_takeWhile [of "\<lambda>c. c \<noteq> 61" t] k by (simp add: key_of_def)
  moreover have "t ! j \<noteq> 61" if "j < ?k" for j
    using set_takeWhileD [OF nth_mem [OF that [unfolded key_of_def]]] takeWhile_nth [OF that [unfolded key_of_def]] by simp
  ultimately show ?thesis using True k by (simp add: eq_pos_def find_upt_Some)
next
  case False
  then show ?thesis by (auto simp: eq_pos_def find_upt_None has_eq_def in_set_conv_nth)
qed

lemma eq_split: "take (length (key_of t)) t = key_of t" "drop (length (key_of t) + 1) t = value_of t"
proof -
  show "take (length (key_of t)) t = key_of t" by (simp add: key_of_def takeWhile_eq_take [symmetric])
  show "drop (length (key_of t) + 1) t = value_of t"
    using dropWhile_eq_drop [of "\<lambda>c. c \<noteq> 61" t] by (simp add: key_of_def value_of_def drop_Suc tl_drop)
qed

text \<open>What the tokens in front of the separator and behind it are for.\<close>

definition params_in :: "str list \<Rightarrow> (str \<times> str) list" where
  "params_in ts = map (\<lambda>t. (key_of t, value_of t)) (filter (\<lambda>t. has_eq t \<and> is_known_kv_key (key_of t)) ts)"

definition flags_in :: "str list \<Rightarrow> str list" where
  "flags_in ts = filter (\<lambda>t. \<not> has_eq t \<and> is_known_flag t) ts"

definition envs_in :: "bool \<Rightarrow> str list \<Rightarrow> str list" where
  "envs_in sep ts = filter (\<lambda>t. has_eq t \<and> (sep \<or> \<not> is_known_kv_key (key_of t))) ts"

definition args_in :: "bool \<Rightarrow> str list \<Rightarrow> str list" where
  "args_in sep ts = filter (\<lambda>t. \<not> has_eq t \<and> (sep \<or> \<not> is_known_flag t \<and> \<not> has_char t 46)) ts"

definition parsed :: "cmdline \<Rightarrow> str list \<Rightarrow> str list \<Rightarrow> cmdline" where
  "parsed c before behind = c\<lparr>kparams := take KPARAM_MAX (params_in before), kflags := take KFLAG_MAX (flags_in before),
     init_envp := take CMDLINE_MAX_ENVS (envs_in False before @ envs_in True behind),
     init_argv := take CMDLINE_MAX_ARGS (args_in False before @ args_in True behind)\<rparr>"

lemmas classes = params_in_def flags_in_def envs_in_def args_in_def

lemma classify_before:
  assumes "t \<noteq> [45, 45]"
  shows "classify t (parsed c ts [], False) = (parsed c (ts @ [t]) [], False)"
  using assms by (auto simp: classify_def parsed_def classes eq_pos_eq eq_split [simplified] push_max_take)

lemma classify_behind:
  assumes "t \<noteq> [45, 45]"
  shows "classify t (parsed c ts us, True) = (parsed c ts (us @ [t]), True)"
  using assms by (auto simp: classify_def parsed_def classes eq_pos_eq push_max_take simp del: take_append append_assoc simp flip: append_assoc)

lemma fold_before:
  "[45, 45] \<notin> set us \<Longrightarrow> fold classify us (parsed c ts [], False) = (parsed c (ts @ us) [], False)"
proof (induction us arbitrary: ts)
  case (Cons u us)
  then have "u \<noteq> [45, 45]" by auto
  then show ?case using Cons by (simp add: classify_before)
qed simp

lemma fold_behind:
  "fold classify us (parsed c ts vs, True) = (parsed c ts (vs @ filter (\<lambda>t. t \<noteq> [45, 45]) us), True)"
proof (induction us arbitrary: vs)
  case (Cons u us)
  show ?case
  proof (cases "u = [45, 45]")
    case True
    then have "classify u (parsed c ts vs, True) = (parsed c ts vs, True)" by (simp add: classify_def)
    then show ?thesis using Cons True by simp
  qed (simp add: classify_behind Cons)
qed simp

lemma fold_classify:
  "fst (fold classify ts (parsed c [] [], False)) =
     parsed c (takeWhile (\<lambda>t. t \<noteq> [45, 45]) ts) (filter (\<lambda>t. t \<noteq> [45, 45]) (dropWhile (\<lambda>t. t \<noteq> [45, 45]) ts))"
proof -
  let ?a = "takeWhile (\<lambda>t. t \<noteq> [45, 45]) ts" and ?b = "dropWhile (\<lambda>t. t \<noteq> [45, 45]) ts"
  have a: "[45, 45] \<notin> set ?a" by (auto dest: set_takeWhileD)
  have "fold classify ts (parsed c [] [], False) = fold classify ?b (fold classify ?a (parsed c [] [], False))"
    by (metis fold_append comp_apply takeWhile_dropWhile_id)
  also have "\<dots> = fold classify ?b (parsed c ?a [], False)" using fold_before [OF a, of c "[]"] by simp
  finally have f: "fold classify ts (parsed c [] [], False) = fold classify ?b (parsed c ?a [], False)" .
  show ?thesis
  proof (cases ?b)
    case Nil
    show ?thesis unfolding f Nil by simp
  next
    case (Cons u us)
    have u: "u = [45, 45]" using hd_dropWhile [of "\<lambda>t. t \<noteq> [45, 45]" ts] Cons by simp
    have "classify u (parsed c ?a [], False) = (parsed c ?a [], True)" by (simp add: u classify_def)
    then show ?thesis using fold_behind [of us c ?a "[]"] by (simp add: f Cons u)
  qed
qed


definition demo_words :: "str list" where
  "demo_words = map str [''/boot/adros'', ''init=/bin/sh'', ''quiet'', ''TERM=vt'', ''--'', ''-v'']"


end
