(* ===== verification/Spec2Isabelle.thy ===== *)
theory Spec2Isabelle
  imports Pmm User_Memory Kva Slab Sync Process_Life Mqueue File_Locks Lz4 Csprng Devices Drivers Utmp Cmdline
begin

text \<open>
  A verification library for the AdrOS kernel. The header lists the parts; see the theories.
\<close>

end
